(* ===== verification/Prelude.thy ===== *)
theory Prelude
  imports Complex_Main "HOL-Library.Multiset"
begin

text \<open>
  Shared material: the collections of simplification rules, the two shapes of the
  selection loop that almost every component of the scheduler uses (a linear scan that
  keeps the best candidate so far), and generic facts on lists and sums.
\<close>

named_theorems dbl_simps \<open>equations of double arithmetic\<close>
named_theorems sched_simps \<open>field and size facts of the schedulers' states\<close>

section \<open>Selection loops\<close>

text \<open>
  \<open>for i in 0..n-1: if ok(i) and key(i) < best: best = key(i); sel = i\<close>, started with
  \<open>best = b\<close> and \<open>sel = -1\<close>. The result \<open>None\<close> is \<open>sel = -1\<close>.
\<close>

definition scan_step ::
  "(nat \<Rightarrow> bool) \<Rightarrow> (nat \<Rightarrow> 'k) \<Rightarrow> ('k \<Rightarrow> 'k \<Rightarrow> bool) \<Rightarrow> nat \<Rightarrow> 'k \<times> nat option \<Rightarrow> 'k \<times> nat option" where
  "scan_step ok key lt i bs =
     (if ok i \<and> lt (key i) (fst bs) then (key i, Some i) else bs)"

definition scan_best ::
  "(nat \<Rightarrow> bool) \<Rightarrow> (nat \<Rightarrow> 'k) \<Rightarrow> ('k \<Rightarrow> 'k \<Rightarrow> bool) \<Rightarrow> 'k \<Rightarrow> nat \<Rightarrow> nat option" where
  "scan_best ok key lt b n = snd (fold (scan_step ok key lt) [0..<n] (b, None))"

text \<open>
  The other shape has no initial bound: the first admissible candidate is taken
  (\<open>best < 0 || key(i) < best_key\<close>).
\<close>

definition scan1_step ::
  "(nat \<Rightarrow> bool) \<Rightarrow> (nat \<Rightarrow> 'k) \<Rightarrow> ('k \<Rightarrow> 'k \<Rightarrow> bool) \<Rightarrow> nat \<Rightarrow> nat option \<Rightarrow> nat option" where
  "scan1_step ok key lt i sel =
     (if ok i \<and> (case sel of None \<Rightarrow> True | Some j \<Rightarrow> lt (key i) (key j)) then Some i else sel)"

definition scan_first ::
  "(nat \<Rightarrow> bool) \<Rightarrow> (nat \<Rightarrow> 'k) \<Rightarrow> ('k \<Rightarrow> 'k \<Rightarrow> bool) \<Rightarrow> nat \<Rightarrow> nat option" where
  "scan_first ok key lt n = fold (scan1_step ok key lt) [0..<n] None"

text \<open>
  What the loops need of the comparison: a strict partial order. It covers the integers
  and the doubles, where a NaN compares false with everything.
\<close>

locale scan_order =
  fixes lt :: "'k \<Rightarrow> 'k \<Rightarrow> bool"
  assumes lt_irrefl: "\<not> lt x x"
    and lt_trans: "lt x y \<Longrightarrow> lt y z \<Longrightarrow> lt x z"
begin

lemma scan_inv:
  assumes "fold (scan_step ok key lt) [0..<n] (b, None) = (best, sel)"
  shows "(case sel of None \<Rightarrow> best = b
          | Some i \<Rightarrow> best = key i \<and> i < n \<and> ok i \<and> lt best b \<and> (\<forall>j<i. ok j \<longrightarrow> key j \<noteq> key i))
         \<and> (\<forall>j<n. ok j \<longrightarrow> \<not> lt (key j) best)"
  using assms
proof (induction n arbitrary: best sel)
  case 0
  then show ?case by simp
next
  case (Suc n)
  obtain best' sel' where f: "fold (scan_step ok key lt) [0..<n] (b, None) = (best', sel')"
    by fastforce
  note IH = Suc.IH [OF f]
  have step: "scan_step ok key lt n (best', sel') = (best, sel)"
    using Suc.prems by (simp add: f)
  show ?case
  proof (cases "ok n \<and> lt (key n) best'")
    case True
    with step have "best = key n" "sel = Some n"
      by (simp_all add: scan_step_def)
    with True IH show ?thesis
      by (auto split: option.splits simp: less_Suc_eq lt_irrefl dest: lt_trans)
  next
    case False
    with step have "best = best'" "sel = sel'"
      by (auto simp: scan_step_def split: if_splits)
    with False IH show ?thesis
      by (auto split: option.splits simp: less_Suc_eq)
  qed
qed

lemma scan_Some:
  assumes "scan_best ok key lt b n = Some i"
  shows "i < n" and "ok i" and "lt (key i) b"
    and "\<And>j. j < n \<Longrightarrow> ok j \<Longrightarrow> \<not> lt (key j) (key i)"
    and "\<And>j. j < i \<Longrightarrow> ok j \<Longrightarrow> key j \<noteq> key i"
proof -
  obtain best where f: "fold (scan_step ok key lt) [0..<n] (b, None) = (best, Some i)"
    using assms unfolding scan_best_def by (metis prod.collapse)
  from scan_inv [OF f]
  show "i < n" and "ok i" and "lt (key i) b"
    and "\<And>j. j < n \<Longrightarrow> ok j \<Longrightarrow> \<not> lt (key j) (key i)"
    and "\<And>j. j < i \<Longrightarrow> ok j \<Longrightarrow> key j \<noteq> key i"
    by auto
qed

lemma scan_None:
  "scan_best ok key lt b n = None \<longleftrightarrow> (\<forall>j<n. ok j \<longrightarrow> \<not> lt (key j) b)"
proof -
  obtain best sel where f: "fold (scan_step ok key lt) [0..<n] (b, None) = (best, sel)"
    by fastforce
  then have eq: "scan_best ok key lt b n = sel" by (simp add: scan_best_def)
  from scan_inv [OF f] eq show ?thesis
    by (auto split: option.splits dest: lt_trans)
qed

lemma scan1_inv:
  assumes "scan_first ok key lt n = sel"
  shows "case sel of None \<Rightarrow> (\<forall>j<n. \<not> ok j)
         | Some i \<Rightarrow> i < n \<and> ok i \<and> (\<forall>j<n. ok j \<longrightarrow> \<not> lt (key j) (key i))"
  using assms
proof (induction n arbitrary: sel)
  case 0
  then show ?case by (auto simp: scan_first_def)
next
  case (Suc n)
  let ?s = "scan_first ok key lt n"
  have step: "sel = scan1_step ok key lt n ?s"
    using Suc.prems by (simp add: scan_first_def)
  note IH = Suc.IH [OF refl]
  show ?case
    using IH step
    by (auto simp: scan1_step_def less_Suc_eq lt_irrefl split: option.splits if_splits dest: lt_trans)
qed

lemma scan1_Some:
  assumes "scan_first ok key lt n = Some i"
  shows "i < n" and "ok i" and "\<And>j. j < n \<Longrightarrow> ok j \<Longrightarrow> \<not> lt (key j) (key i)"
  using scan1_inv [OF assms] by auto

lemma scan1_None: "scan_first ok key lt n = None \<longleftrightarrow> (\<forall>j<n. \<not> ok j)"
  using scan1_inv [OF refl, where ok = ok and key = key and n = n] by (auto split: option.splits)

end

interpretation int_lt: scan_order "(<) :: int \<Rightarrow> int \<Rightarrow> bool"
  by unfold_locales auto

interpretation int_gt: scan_order "(>) :: int \<Rightarrow> int \<Rightarrow> bool"
  by unfold_locales auto

section \<open>Lists and sums\<close>

lemma sum_update:
  fixes f :: "nat \<Rightarrow> 'a \<Rightarrow> int"
  assumes "s < m" and "m \<le> length xs"
  shows "(\<Sum>i<m. f i (xs[s := v] ! i)) = (\<Sum>i<m. f i (xs ! i)) - f s (xs ! s) + f s v"
proof -
  have "(\<Sum>i<m. f i (xs[s := v] ! i)) = f s v + (\<Sum>i \<in> {..<m} - {s}. f i (xs ! i))"
    using assms by (subst sum.remove [of _ s]) (auto intro!: sum.cong)
  moreover have "(\<Sum>i<m. f i (xs ! i)) = f s (xs ! s) + (\<Sum>i \<in> {..<m} - {s}. f i (xs ! i))"
    using assms by (intro sum.remove) auto
  ultimately show ?thesis by simp
qed

end
