(* ===== verification/Cxx_Double.thy ===== *)
theory Cxx_Double
  imports Prelude
begin

text \<open>
  The C++ \<open>double\<close> of the source: IEEE-754 binary64 with rounding to nearest, ties to even.
  A finite value is the rational it denotes; the infinities and NaN are kept, the sign of
  zero is not (no divisor of the program is a negative zero). Every arithmetic operation
  is computed exactly on rationals and then rounded by \<open>rnd\<close>, so the models of the other
  theories evaluate to the values the program computes. The lemmas: rounding is monotone,
  idempotent, exact on integers up to \<open>2^53\<close>, and the comparison is a strict partial order.
\<close>

section \<open>Rounding\<close>

definition pow2 :: "int \<Rightarrow> rat" where
  "pow2 e = 2 powi e"

lemma pow2_pos [simp]: "0 < pow2 e"
  by (simp add: pow2_def)

lemma pow2_nonneg [simp]: "0 \<le> pow2 e"
  by (simp add: pow2_def)

lemma pow2_nz [simp]: "pow2 e \<noteq> 0"
  by (simp add: pow2_def)

lemma pow2_0 [simp]: "pow2 0 = 1"
  by (simp add: pow2_def)

lemma pow2_add: "pow2 (a + b) = pow2 a * pow2 b"
  by (simp add: pow2_def power_int_add)

lemma pow2_diff: "pow2 (a - b) = pow2 a / pow2 b"
  by (simp add: pow2_def power_int_diff)

lemma pow2_strict: "a < b \<Longrightarrow> pow2 a < pow2 b"
  unfolding pow2_def by (rule power_int_strict_increasing) simp_all

lemma pow2_less [simp]: "pow2 a < pow2 b \<longleftrightarrow> a < b"
  by (metis pow2_strict less_asym less_irrefl not_less_iff_gr_or_eq)

lemma pow2_le [simp]: "pow2 a \<le> pow2 b \<longleftrightarrow> a \<le> b"
  by (simp add: not_less [symmetric])

lemma pow2_nat: "0 \<le> e \<Longrightarrow> pow2 e = of_int (2 ^ nat e)"
  by (simp add: pow2_def power_int_def)

function bitlength :: "int \<Rightarrow> int" where
  "bitlength n = (if n \<le> 0 then 0 else 1 + bitlength (n div 2))"
  by pat_completeness auto
termination by (relation "measure nat") auto

declare bitlength.simps [simp del]

lemma bitlength_bounds:
  "0 < n \<Longrightarrow> 0 < bitlength n \<and> pow2 (bitlength n - 1) \<le> of_int n \<and> of_int n < pow2 (bitlength n)"
proof (induction n rule: bitlength.induct)
  case (1 n)
  show ?case
  proof (cases "n = 1")
    case True
    then show ?thesis by (simp add: bitlength.simps [of 1] bitlength.simps [of 0] pow2_def)
  next
    case False
    with "1.prems" have pos: "0 < n div 2" by auto
    define h where "h = n div 2"
    have b: "bitlength n = 1 + bitlength h"
      using "1.prems" by (simp add: bitlength.simps [of n] h_def)
    have IH: "0 < bitlength h" "pow2 (bitlength h - 1) \<le> of_int h" "of_int h < pow2 (bitlength h)"
      using 1 pos by (auto simp: h_def)
    have lo: "2 * h \<le> n" and hi: "n \<le> 2 * h + 1" by (auto simp: h_def)
    have p: "pow2 (bitlength h) = 2 * pow2 (bitlength h - 1)"
      "pow2 (1 + bitlength h) = 2 * pow2 (bitlength h)"
      using pow2_add [of 1 "bitlength h - 1"] pow2_add [of 1 "bitlength h"] by (simp_all add: pow2_def)
    have "h + 1 \<le> 2 ^ nat (bitlength h)"
      using IH(1,3) by (simp add: pow2_nat del: of_int_power)
    then have "rat_of_int (h + 1) \<le> of_int (2 ^ nat (bitlength h))" by (simp only: of_int_le_iff)
    then have "rat_of_int h + 1 \<le> pow2 (bitlength h)"
      using IH(1) by (simp add: pow2_nat)
    moreover have "rat_of_int n \<le> of_int (2 * h + 1)" "rat_of_int (2 * h) \<le> of_int n"
      using lo hi by (simp_all only: of_int_le_iff)
    then have "rat_of_int n \<le> 2 * of_int h + 1" "2 * rat_of_int h \<le> of_int n" by simp_all
    ultimately have "pow2 (bitlength h) \<le> of_int n" "of_int n < pow2 (1 + bitlength h)"
      unfolding p using IH(2) by linarith+
    then show ?thesis using IH(1) by (simp add: b)
  qed
qed

definition ilog2 :: "rat \<Rightarrow> int" where
  "ilog2 x = (case quotient_of x of (p, q) \<Rightarrow>
     let k = bitlength p - bitlength q in if pow2 k \<le> x then k else k - 1)"

lemma ilog2_bounds:
  assumes "0 < x"
  shows "pow2 (ilog2 x) \<le> x" and "x < pow2 (ilog2 x + 1)"
proof -
  obtain p q where pq: "quotient_of x = (p, q)" by fastforce
  then have q: "0 < q" and x: "x = of_int p / of_int q"
    using quotient_of_denom_pos quotient_of_div by auto
  with assms have p: "0 < p" by (simp add: zero_less_divide_iff)
  let ?k = "bitlength p - bitlength q"
  note P = bitlength_bounds [OF p] and Q = bitlength_bounds [OF q]
  have q': "0 < rat_of_int q" using q by simp
  have "x < pow2 (bitlength p) / pow2 (bitlength q - 1)"
    unfolding x using P Q q' p by (intro frac_less) auto
  then have up: "x < pow2 (?k + 1)"
    by (metis diff_add_eq diff_diff_eq2 pow2_diff)
  have "pow2 (bitlength p - 1) / pow2 (bitlength q) \<le> x"
    unfolding x using P Q q' p by (intro frac_le) auto
  then have lo: "pow2 (?k - 1) \<le> x"
    by (simp add: pow2_diff [symmetric] algebra_simps)
  show "pow2 (ilog2 x) \<le> x" and "x < pow2 (ilog2 x + 1)"
    using up lo by (auto simp: ilog2_def pq Let_def)
qed

lemma ilog2_less:
  assumes "0 < x" and "x < pow2 k" shows "ilog2 x < k"
proof -
  have "pow2 (ilog2 x) < pow2 k" using assms ilog2_bounds(1) [of x] by linarith
  then show ?thesis by simp
qed

lemma ilog2_ge:
  assumes "pow2 k \<le> x" shows "k \<le> ilog2 x"
proof -
  have "0 < x" using assms pow2_pos [of k] by linarith
  then have "pow2 k < pow2 (ilog2 x + 1)" using assms ilog2_bounds(2) [of x] by linarith
  then show ?thesis by simp
qed

lemma ilog2_mono: "0 < x \<Longrightarrow> x \<le> y \<Longrightarrow> ilog2 x \<le> ilog2 y"
  using ilog2_bounds(1) [of x] by (intro ilog2_ge) simp

definition round_even :: "rat \<Rightarrow> int" where
  "round_even y =
     (let f = \<lfloor>y\<rfloor>; d = y - of_int f
      in if d < 1 / 2 then f else if 1 / 2 < d then f + 1 else if even f then f else f + 1)"

lemma round_even_int [simp]: "round_even (of_int n) = n"
  by (simp add: round_even_def)

lemma round_even_bounds: "\<lfloor>y\<rfloor> \<le> round_even y" "round_even y \<le> \<lfloor>y\<rfloor> + 1"
  by (auto simp: round_even_def Let_def)

lemma round_even_error: "\<bar>of_int (round_even y) - y\<bar> \<le> 1 / 2"
proof -
  have "of_int \<lfloor>y\<rfloor> \<le> y" "y < of_int \<lfloor>y\<rfloor> + 1" by linarith+
  then show ?thesis by (auto simp: round_even_def Let_def abs_le_iff)
qed

lemma round_even_mono:
  assumes "y \<le> z" shows "round_even y \<le> round_even z"
proof (cases "\<lfloor>y\<rfloor> = \<lfloor>z\<rfloor>")
  case True
  with assms show ?thesis by (auto simp: round_even_def Let_def)
next
  case False
  with assms have "\<lfloor>y\<rfloor> + 1 \<le> \<lfloor>z\<rfloor>" using floor_mono [OF assms] by linarith
  with round_even_bounds [of y] round_even_bounds [of z] show ?thesis by linarith
qed

lemma round_even_minus: "round_even (- y) = - round_even y"
proof (cases "y = of_int \<lfloor>y\<rfloor>")
  case True
  then show ?thesis by (metis of_int_minus round_even_int)
next
  case False
  have b: "of_int \<lfloor>y\<rfloor> < y" "y < of_int \<lfloor>y\<rfloor> + 1" using False by linarith+
  then have "\<lfloor>- y\<rfloor> = - \<lfloor>y\<rfloor> - 1" by (intro floor_unique) auto
  then show ?thesis by (auto simp: round_even_def Let_def)
qed

text \<open>The exponent of the last place of a value: 53 significant bits, subnormals included.\<close>

definition dexp :: "rat \<Rightarrow> int" where
  "dexp x = max (ilog2 \<bar>x\<bar> - 52) (- 1074)"

definition rnd_rat :: "rat \<Rightarrow> rat" where
  "rnd_rat x = (if x = 0 then 0 else of_int (round_even (x / pow2 (dexp x))) * pow2 (dexp x))"

lemma rnd_rat_0 [simp]: "rnd_rat 0 = 0"
  by (simp add: rnd_rat_def)

lemma rnd_rat_minus [simp]: "rnd_rat (- x) = - rnd_rat x"
  by (simp add: rnd_rat_def dexp_def round_even_minus)

lemma rnd_rat_scaled: "x / pow2 (dexp x) < 2 ^ 53" "- (2 ^ 53) < x / pow2 (dexp x)"
proof -
  have "\<bar>x\<bar> < pow2 (dexp x + 53)"
  proof (cases "x = 0")
    case False
    then have "\<bar>x\<bar> < pow2 (ilog2 \<bar>x\<bar> + 1)" using ilog2_bounds(2) [of "\<bar>x\<bar>"] by simp
    also have "\<dots> \<le> pow2 (dexp x + 53)" by (simp add: dexp_def)
    finally show ?thesis .
  qed simp
  then have "\<bar>x\<bar> < pow2 (dexp x) * 2 ^ 53" by (simp add: pow2_add) (simp add: pow2_def)
  then show "x / pow2 (dexp x) < 2 ^ 53" "- (2 ^ 53) < x / pow2 (dexp x)"
    by (simp_all add: divide_less_eq less_divide_eq abs_less_iff mult.commute)
qed

lemma rnd_rat_mantissa: "\<bar>round_even (x / pow2 (dexp x))\<bar> \<le> 2 ^ 53"
proof -
  have "round_even (x / pow2 (dexp x)) \<le> round_even (of_int (2 ^ 53))"
    using rnd_rat_scaled(1) [of x] by (intro round_even_mono) simp
  moreover have "round_even (of_int (- (2 ^ 53))) \<le> round_even (x / pow2 (dexp x))"
    using rnd_rat_scaled(2) [of x] by (intro round_even_mono) simp
  ultimately show ?thesis by (simp only: round_even_int abs_le_iff minus_le_iff)
qed

text \<open>A rational with a mantissa of 53 bits and an exponent in range is not changed.\<close>

lemma rnd_rat_exact:
  assumes "\<bar>m\<bar> \<le> 2 ^ 53" and "- 1074 \<le> e"
  shows "rnd_rat (of_int m * pow2 e) = of_int m * pow2 e"
proof -
  have main: "rnd_rat (of_int m * pow2 e) = of_int m * pow2 e"
    if m: "\<bar>m\<bar> < 2 ^ 53" and e: "- 1074 \<le> e" for m e
  proof (cases "m = 0")
    case False
    let ?x = "rat_of_int m * pow2 e"
    have "rat_of_int \<bar>m\<bar> < of_int (2 ^ 53)" using m by (simp only: of_int_less_iff)
    then have "\<bar>?x\<bar> < pow2 (53 + e)"
      by (simp add: abs_mult pow2_add) (simp add: pow2_def)
    then have "ilog2 \<bar>?x\<bar> < 53 + e" using False by (intro ilog2_less) auto
    with e have d: "dexp ?x \<le> e" by (auto simp: dexp_def)
    then have "?x / pow2 (dexp ?x) = of_int (m * 2 ^ nat (e - dexp ?x))"
      using pow2_nat [of "e - dexp ?x"]
      by (simp add: pow2_diff times_divide_eq_right [symmetric] del: times_divide_eq_right)
    then show ?thesis using False
      by (simp add: rnd_rat_def round_even_int del: of_int_mult) (metis nonzero_eq_divide_eq pow2_nz)
  qed simp
  show ?thesis
  proof (cases "\<bar>m\<bar> = 2 ^ 53")
    case False
    with assms main show ?thesis by (simp add: order_less_le)
  next
    case True
    then have "m = 2 ^ 53 \<or> m = - (2 ^ 53)" by linarith
    from this have "m = 2 * (m div 2)" by auto
    moreover have "\<bar>m div 2\<bar> < 2 ^ 53" using \<open>m = 2 ^ 53 \<or> m = - (2 ^ 53)\<close> by auto
    ultimately show ?thesis using main [of "m div 2" "e + 1"] assms(2)
      by (metis add.commute add_increasing2 mult.assoc mult.commute of_int_mult of_int_numeral
          pow2_add pow2_def power_int_1_right zero_le_one)
  qed
qed

lemma rnd_rat_idem: "rnd_rat (rnd_rat x) = rnd_rat x"
  using rnd_rat_exact [OF rnd_rat_mantissa [of x], of "dexp x"]
  by (cases "x = 0") (simp_all add: rnd_rat_def [of x] dexp_def [of x])

lemma rnd_rat_pow2 [simp]: "- 1074 \<le> e \<Longrightarrow> rnd_rat (pow2 e) = pow2 e"
  using rnd_rat_exact [of 1 e] by simp

lemma rnd_rat_of_int: "\<bar>n\<bar> \<le> 2 ^ 53 \<Longrightarrow> rnd_rat (of_int n) = of_int n"
  using rnd_rat_exact [of n 0] by simp

lemma rnd_rat_nonneg: "0 \<le> x \<Longrightarrow> 0 \<le> rnd_rat x"
  using round_even_mono [of "of_int 0" "x / pow2 (dexp x)"]
  by (simp add: rnd_rat_def round_even_int [of 0, simplified])

lemma rnd_rat_le_pow2: "0 < x \<Longrightarrow> rnd_rat x \<le> pow2 (dexp x + 53)"
proof -
  assume "0 < x"
  have "rat_of_int (round_even (x / pow2 (dexp x))) \<le> of_int (2 ^ 53)"
    using rnd_rat_mantissa [of x] by (simp only: of_int_le_iff abs_le_iff)
  then show ?thesis using \<open>0 < x\<close>
    by (simp add: rnd_rat_def pow2_add mult.commute [of "pow2 (dexp x)"]) (simp add: pow2_def)
qed

lemma rnd_rat_ge_pow2:
  assumes "0 < x" and "- 1074 < dexp x" shows "pow2 (dexp x + 52) \<le> rnd_rat x"
proof -
  have d: "dexp x + 52 = ilog2 x" using assms by (auto simp: dexp_def)
  have "pow2 (dexp x) * 2 ^ 52 = pow2 (dexp x + 52)" by (simp add: pow2_add) (simp add: pow2_def)
  also have "\<dots> \<le> x" unfolding d using ilog2_bounds(1) [OF assms(1)] .
  finally have "rat_of_int (2 ^ 52) \<le> x / pow2 (dexp x)"
    by (simp add: le_divide_eq mult.commute)
  then have "2 ^ 52 \<le> round_even (x / pow2 (dexp x))"
    using round_even_mono [of "of_int (2 ^ 52)" "x / pow2 (dexp x)"] by (simp only: round_even_int)
  then have "rat_of_int (2 ^ 52) \<le> of_int (round_even (x / pow2 (dexp x)))"
    by (simp only: of_int_le_iff)
  then show ?thesis using assms(1)
    by (simp add: rnd_rat_def pow2_add mult.commute [of "pow2 (dexp x)"]) (simp add: pow2_def)
qed

lemma rnd_rat_mono_pos:
  assumes "0 < x" and "x \<le> y" shows "rnd_rat x \<le> rnd_rat y"
proof -
  have y: "0 < y" using assms by simp
  have le: "dexp x \<le> dexp y" using ilog2_mono [OF assms] assms y by (simp add: dexp_def)
  show ?thesis
  proof (cases "dexp x = dexp y")
    case True
    have "x / pow2 (dexp y) \<le> y / pow2 (dexp y)" using assms by (simp add: divide_right_mono)
    from round_even_mono [OF this] True assms y show ?thesis
      by (simp add: rnd_rat_def mult_right_mono)
  next
    case False
    with le have lt: "dexp x + 53 \<le> dexp y + 52" by simp
    have sub: "- 1074 < dexp y" using False le by (simp add: dexp_def)
    have "rnd_rat x \<le> pow2 (dexp x + 53)" by (rule rnd_rat_le_pow2 [OF assms(1)])
    also have "\<dots> \<le> pow2 (dexp y + 52)" using lt by simp
    also have "\<dots> \<le> rnd_rat y" by (rule rnd_rat_ge_pow2 [OF y sub])
    finally show ?thesis .
  qed
qed

lemma rnd_rat_mono:
  assumes "x \<le> y" shows "rnd_rat x \<le> rnd_rat y"
proof -
  consider "0 < x" | "x \<le> 0" "0 \<le> y" | "y < 0" using assms by linarith
  then show ?thesis
  proof cases
    case 1
    then show ?thesis using assms by (rule rnd_rat_mono_pos)
  next
    case 2
    then show ?thesis using rnd_rat_nonneg [of y] rnd_rat_nonneg [of "- x"] by simp
  next
    case 3
    then show ?thesis using rnd_rat_mono_pos [of "- y" "- x"] assms by simp
  qed
qed

lemma rnd_rat_error: "\<bar>rnd_rat x - x\<bar> \<le> pow2 (dexp x) / 2"
proof (cases "x = 0")
  case False
  let ?m = "of_int (round_even (x / pow2 (dexp x))) :: rat"
  have "rnd_rat x - x = (?m - x / pow2 (dexp x)) * pow2 (dexp x)"
    using False by (simp add: rnd_rat_def left_diff_distrib)
  then have "\<bar>rnd_rat x - x\<bar> = \<bar>?m - x / pow2 (dexp x)\<bar> * pow2 (dexp x)"
    by (simp add: abs_mult)
  also have "\<dots> \<le> 1 / 2 * pow2 (dexp x)"
    by (intro mult_right_mono round_even_error) simp
  finally show ?thesis by simp
qed simp

section \<open>The type and its arithmetic\<close>

datatype double = Fin rat | PInf | NInf | NaN

definition rnd :: "rat \<Rightarrow> double" where
  "rnd x = (let r = rnd_rat x
            in if \<bar>r\<bar> < pow2 1024 then Fin r else if 0 < x then PInf else NInf)"

lemma rnd_Fin: "\<bar>x\<bar> \<le> pow2 1023 \<Longrightarrow> rnd x = Fin (rnd_rat x)"
proof -
  assume x: "\<bar>x\<bar> \<le> pow2 1023"
  have "rnd_rat x \<le> pow2 1023" "rnd_rat (- x) \<le> pow2 1023"
    using rnd_rat_mono [of x "pow2 1023"] rnd_rat_mono [of "- x" "pow2 1023"] x by auto
  then have "\<bar>rnd_rat x\<bar> \<le> pow2 1023" by (simp add: abs_le_iff)
  also have "\<dots> < pow2 1024" by simp
  finally show ?thesis by (simp add: rnd_def)
qed

lemma rnd_0 [simp, dbl_simps]: "rnd 0 = Fin 0"
  by (simp add: rnd_def)

text \<open>The overflow test needs the large power only near the top of the range.\<close>

lemma rnd_code [code]:
  "rnd x = (if x = 0 then Fin 0
            else if ilog2 \<bar>x\<bar> < 1023 then Fin (rnd_rat x)
            else let r = rnd_rat x
                 in if \<bar>r\<bar> < pow2 1024 then Fin r else if 0 < x then PInf else NInf)"
proof -
  have "\<bar>x\<bar> \<le> pow2 1023" if "x \<noteq> 0" "ilog2 \<bar>x\<bar> < 1023"
  proof -
    have "\<bar>x\<bar> < pow2 (ilog2 \<bar>x\<bar> + 1)" using that(1) ilog2_bounds(2) [of "\<bar>x\<bar>"] by simp
    also have "\<dots> \<le> pow2 1023" using that(2) by (simp only: pow2_le)
    finally show ?thesis by simp
  qed
  then show ?thesis using rnd_Fin [of x] by (simp add: rnd_def Let_def)
qed

fun dadd :: "double \<Rightarrow> double \<Rightarrow> double" where
  "dadd (Fin a) (Fin b) = rnd (a + b)"
| "dadd NaN _ = NaN"
| "dadd _ NaN = NaN"
| "dadd PInf NInf = NaN"
| "dadd NInf PInf = NaN"
| "dadd PInf _ = PInf"
| "dadd _ PInf = PInf"
| "dadd NInf _ = NInf"
| "dadd _ NInf = NInf"

fun dneg :: "double \<Rightarrow> double" where
  "dneg (Fin a) = Fin (- a)"
| "dneg PInf = NInf"
| "dneg NInf = PInf"
| "dneg NaN = NaN"

text \<open>The sign of a value, for the products and quotients with an infinity.\<close>

fun dsgn :: "double \<Rightarrow> int" where
  "dsgn (Fin a) = (if 0 < a then 1 else if a < 0 then - 1 else 0)"
| "dsgn PInf = 1"
| "dsgn NInf = - 1"
| "dsgn NaN = 0"

definition dinf :: "int \<Rightarrow> double" where
  "dinf s = (if s = 0 then NaN else if 0 < s then PInf else NInf)"

fun dmul :: "double \<Rightarrow> double \<Rightarrow> double" where
  "dmul (Fin a) (Fin b) = rnd (a * b)"
| "dmul NaN _ = NaN"
| "dmul _ NaN = NaN"
| "dmul a b = dinf (dsgn a * dsgn b)"

text \<open>
  Division: a finite non-zero value over zero is an infinity of its sign, zero over zero
  and infinity over infinity are NaN, a finite value over an infinity is zero.
\<close>

fun ddiv :: "double \<Rightarrow> double \<Rightarrow> double" where
  "ddiv NaN _ = NaN"
| "ddiv _ NaN = NaN"
| "ddiv (Fin a) (Fin b) = (if b = 0 then dinf (dsgn (Fin a)) else rnd (a / b))"
| "ddiv (Fin a) _ = Fin 0"
| "ddiv a (Fin b) = dinf (dsgn a * (if b < 0 then - 1 else 1))"
| "ddiv _ _ = NaN"

fun dless :: "double \<Rightarrow> double \<Rightarrow> bool" where
  "dless (Fin a) (Fin b) = (a < b)"
| "dless NaN _ = False"
| "dless _ NaN = False"
| "dless NInf b = (b \<noteq> NInf)"
| "dless _ NInf = False"
| "dless a PInf = (a \<noteq> PInf)"
| "dless PInf _ = False"

fun dabs :: "double \<Rightarrow> double" where
  "dabs (Fin a) = Fin \<bar>a\<bar>"
| "dabs PInf = PInf"
| "dabs NInf = PInf"
| "dabs NaN = NaN"

instantiation double :: "{zero, one, plus, minus, uminus, times, inverse, abs, ord}"
begin

definition "0 = Fin 0"
definition "1 = Fin 1"
definition "x + y = dadd x y" for x y :: double
definition "- x = dneg x" for x :: double
definition "x - y = dadd x (dneg y)" for x y :: double
definition "x * y = dmul x y" for x y :: double
definition "divide x y = ddiv x y" for x y :: double
definition "inverse x = ddiv (Fin 1) x" for x :: double
definition "\<bar>x\<bar> = dabs x" for x :: double
definition "x < y \<longleftrightarrow> dless x y" for x y :: double
definition "x \<le> y \<longleftrightarrow> dless x y \<or> (x = y \<and> x \<noteq> NaN)" for x y :: double

instance ..

end

lemmas dbl_defs = zero_double_def one_double_def plus_double_def uminus_double_def
  minus_double_def times_double_def divide_double_def inverse_double_def abs_double_def
  less_double_def less_eq_double_def


lemma dbl_ops [dbl_simps]:
  "Fin a + Fin b = rnd (a + b)"
  "Fin a - Fin b = rnd (a - b)"
  "Fin a * Fin b = rnd (a * b)"
  "b \<noteq> 0 \<Longrightarrow> Fin a / Fin b = rnd (a / b)"
  "\<bar>Fin a\<bar> = Fin \<bar>a\<bar>"
  "- Fin a = Fin (- a)"
  "Fin a < Fin b \<longleftrightarrow> a < b"
  "Fin a \<le> Fin b \<longleftrightarrow> a \<le> b"
  by (auto simp: dbl_defs)

lemma dless_irrefl [simp]: "\<not> x < (x :: double)"
  by (cases x) (auto simp: dbl_defs)

lemma dless_trans: "x < y \<Longrightarrow> y < z \<Longrightarrow> x < (z :: double)"
  by (cases x; cases y; cases z) (auto simp: dbl_defs)

interpretation dbl_lt: scan_order "(<) :: double \<Rightarrow> double \<Rightarrow> bool"
  by unfold_locales (auto intro: dless_trans)

text \<open>Two values that are not NaN are always comparable.\<close>

lemma dless_linear: "x \<noteq> NaN \<Longrightarrow> y \<noteq> NaN \<Longrightarrow> \<not> x < y \<longleftrightarrow> y \<le> (x :: double)"
  by (cases x; cases y) (auto simp: dbl_defs)

lemma dle_NaN [simp]: "\<not> NaN \<le> x" "\<not> x \<le> NaN" "\<not> NaN < x" "\<not> x < NaN"
  by (cases x; simp add: dbl_defs)+

fun is_fin :: "double \<Rightarrow> bool" where
  "is_fin (Fin _) = True"
| "is_fin _ = False"

fun dval :: "double \<Rightarrow> rat" where
  "dval (Fin a) = a"
| "dval _ = 0"

lemma is_fin_iff: "is_fin x \<longleftrightarrow> x = Fin (dval x)"
  by (cases x) auto

section \<open>Conversions\<close>

text \<open>Literals, \<open>(double)n\<close>, \<open>(long long)d\<close>, \<open>(int)d\<close>, \<open>std::llround\<close> and \<open>(int)n\<close> of a 64-bit n.
  A conversion of a value that does not fit is undefined behaviour of the program and
  \<open>undefined\<close> here: nothing is claimed of it.\<close>

definition dlit :: "rat \<Rightarrow> double" where
  "dlit = rnd"

definition dbl :: "int \<Rightarrow> double" where
  "dbl n = rnd (of_int n)"

definition truncate :: "rat \<Rightarrow> int" where
  "truncate r = (if 0 \<le> r then \<lfloor>r\<rfloor> else \<lceil>r\<rceil>)"

definition int_range :: "nat \<Rightarrow> int \<Rightarrow> bool" where
  "int_range w n \<longleftrightarrow> - (2 ^ (w - 1)) \<le> n \<and> n < 2 ^ (w - 1)"

definition fits :: "nat \<Rightarrow> int \<Rightarrow> int" where
  "fits w n = (if int_range w n then n else undefined)"

fun to_ll :: "double \<Rightarrow> int" where
  "to_ll (Fin r) = fits 64 (truncate r)"
| "to_ll _ = undefined"

fun to_i32 :: "double \<Rightarrow> int" where
  "to_i32 (Fin r) = fits 32 (truncate r)"
| "to_i32 _ = undefined"

text \<open>\<open>std::llround\<close> rounds half-way cases away from zero.\<close>

fun llround :: "double \<Rightarrow> int" where
  "llround (Fin r) = fits 64 (if 0 \<le> r then \<lfloor>r + 1 / 2\<rfloor> else \<lceil>r - 1 / 2\<rceil>)"
| "llround _ = undefined"

text \<open>Narrowing a 64-bit integer to 32 bits keeps the low bits, as two's complement.\<close>

definition narrow32 :: "int \<Rightarrow> int" where
  "narrow32 n = (n + 2 ^ 31) mod 2 ^ 32 - 2 ^ 31"

lemma narrow32_id [simp]: "int_range 32 n \<Longrightarrow> narrow32 n = n"
  by (simp add: narrow32_def int_range_def)

lemma narrow32_range: "int_range 32 (narrow32 n)"
  by (simp add: narrow32_def int_range_def)

definition dmax :: "double \<Rightarrow> double \<Rightarrow> double" where
  "dmax a b = (if a < b then b else a)"

definition dmin :: "double \<Rightarrow> double \<Rightarrow> double" where
  "dmin a b = (if b < a then b else a)"

lemma int_le_pow2_63: "\<bar>n\<bar> \<le> 2 ^ 63 \<Longrightarrow> \<bar>rat_of_int n\<bar> \<le> pow2 1023"
proof -
  assume "\<bar>n\<bar> \<le> 2 ^ 63"
  then have "rat_of_int \<bar>n\<bar> \<le> of_int (2 ^ 63)" by (simp only: of_int_le_iff)
  also have "\<dots> = pow2 63" by (simp add: pow2_def)
  also have "\<dots> \<le> pow2 1023" by simp
  finally show ?thesis by simp
qed

lemma dbl_Fin: "\<bar>n\<bar> \<le> 2 ^ 63 \<Longrightarrow> dbl n = Fin (rnd_rat (of_int n))"
  unfolding dbl_def by (intro rnd_Fin int_le_pow2_63)

lemma dbl_exact: "\<bar>n\<bar> \<le> 2 ^ 53 \<Longrightarrow> dbl n = Fin (of_int n)"
  by (simp add: dbl_Fin rnd_rat_of_int)

lemma dbl_0 [simp, dbl_simps]: "dbl 0 = Fin 0"
  by (simp add: dbl_def)

lemma to_ll_dbl: "\<bar>n\<bar> \<le> 2 ^ 53 \<Longrightarrow> to_ll (dbl n) = n"
  by (auto simp: dbl_exact truncate_def fits_def int_range_def)

lemma llround_dbl:
  assumes "\<bar>n\<bar> \<le> 2 ^ 53" shows "llround (dbl n) = n"
proof -
  have "\<lfloor>rat_of_int n + 1 / 2\<rfloor> = n" "\<lceil>rat_of_int n - 1 / 2\<rceil> = n"
    by (rule floor_unique; simp) (rule ceiling_unique; simp)
  then have "llround (Fin (of_int n)) = fits 64 n"
    by (simp only: llround.simps if_cancel)
  with assms show ?thesis
    by (simp add: dbl_exact fits_def int_range_def abs_le_iff)
qed

text \<open>Rounding keeps the order.\<close>

lemma rnd_mono:
  assumes "x \<le> y" shows "rnd x \<le> rnd y"
proof -
  have "rnd_rat x \<le> rnd_rat y" by (rule rnd_rat_mono [OF assms])
  moreover have "0 < x \<Longrightarrow> 0 \<le> rnd_rat x" "0 < y \<Longrightarrow> 0 \<le> rnd_rat y"
    "\<not> 0 < x \<Longrightarrow> rnd_rat x \<le> 0" "\<not> 0 < y \<Longrightarrow> rnd_rat y \<le> 0"
    using rnd_rat_nonneg [of x] rnd_rat_nonneg [of y] rnd_rat_nonneg [of "- x"] rnd_rat_nonneg [of "- y"]
    by auto
  moreover have "0 < pow2 1024" by simp
  ultimately show ?thesis using assms
    unfolding rnd_def Let_def less_eq_double_def less_double_def
    by (cases "0 < x"; cases "0 < y") (auto simp: abs_less_iff simp del: pow2_pos)
qed

lemma rnd_not_NaN [simp]: "rnd x \<noteq> NaN"
  by (simp add: rnd_def Let_def)

lemma dbl_not_NaN [simp]: "dbl n \<noteq> NaN"
  by (simp add: dbl_def)

lemma dbl_mono: "m \<le> n \<Longrightarrow> dbl m \<le> dbl n"
  unfolding dbl_def by (intro rnd_mono) simp

text \<open>
  A difference that is closer exactly is at least as close after rounding: the selection
  loops compare rounded distances, and this is what it says of the exact ones.
\<close>

lemma rnd_less_imp: "rnd x < rnd y \<Longrightarrow> x < y"
  using rnd_mono [of y x] dless_linear [of "rnd y" "rnd x"]
  by (metis dless_linear linorder_not_less rnd_not_NaN)

text \<open>
  The arithmetic is monotone in each argument, for a positive finite factor or divisor and
  any finite summand, infinities included.
\<close>

lemma dle_refl [simp]: "x \<noteq> NaN \<Longrightarrow> x \<le> (x :: double)"
  by (simp add: less_eq_double_def)

lemma dle_trans: "x \<le> y \<Longrightarrow> y \<le> z \<Longrightarrow> x \<le> (z :: double)"
  by (cases x; cases y; cases z) (auto simp: dbl_defs)

lemma dadd_mono: "x \<le> y \<Longrightarrow> x + Fin c \<le> y + Fin c"
  by (cases x; cases y) (auto simp: dbl_simps rnd_mono, auto simp: dbl_defs rnd_def Let_def)

lemma dsub_mono: "x \<le> y \<Longrightarrow> x - Fin c \<le> y - Fin c"
  using dadd_mono [of x y "- c"] by (simp add: dbl_defs)

lemma dmul_mono: "x \<le> y \<Longrightarrow> 0 < c \<Longrightarrow> x * Fin c \<le> y * Fin c"
  by (cases x; cases y)
    (auto simp: dbl_simps rnd_mono mult_right_mono, auto simp: dbl_defs rnd_def Let_def dinf_def)

lemma dmul_commute: "x * y = y * (x :: double)"
  by (cases x; cases y) (auto simp: times_double_def mult.commute)

lemma dmul_mono_left: "x \<le> y \<Longrightarrow> 0 < c \<Longrightarrow> Fin c * x \<le> Fin c * y"
  using dmul_mono [of x y c] by (simp add: dmul_commute [of "Fin c"])

lemma ddiv_mono: "x \<le> y \<Longrightarrow> 0 < c \<Longrightarrow> x / Fin c \<le> y / Fin c"
  by (cases x; cases y)
    (auto simp: dbl_simps rnd_mono divide_right_mono, auto simp: dbl_defs rnd_def Let_def dinf_def)

lemma dadd_mono2:
  "Fin 0 \<le> x \<Longrightarrow> x \<le> x' \<Longrightarrow> Fin 0 \<le> y \<Longrightarrow> y \<le> y' \<Longrightarrow> x + y \<le> x' + (y' :: double)"
  by (cases x; cases x'; cases y; cases y')
    (auto simp: dbl_simps rnd_mono add_mono, auto simp: dbl_defs rnd_def Let_def)

lemma dmul_nonneg: "Fin 0 \<le> x \<Longrightarrow> 0 < c \<Longrightarrow> Fin 0 \<le> x * Fin c"
  using dmul_mono [of "Fin 0" x c] by (simp add: dbl_simps)

lemma dmul_nonneg_left: "Fin 0 \<le> x \<Longrightarrow> 0 < c \<Longrightarrow> Fin 0 \<le> Fin c * x"
  using dmul_nonneg [of x c] by (simp add: dmul_commute)

lemma ddiv_nonneg: "Fin 0 \<le> x \<Longrightarrow> 0 < c \<Longrightarrow> Fin 0 \<le> x / Fin c"
  using ddiv_mono [of "Fin 0" x c] by (simp add: dbl_simps)

lemma dbl_nonneg: "0 \<le> n \<Longrightarrow> Fin 0 \<le> dbl n"
  using dbl_mono [of 0 n] by simp

lemma dadd_nonneg: "Fin 0 \<le> x \<Longrightarrow> Fin 0 \<le> y \<Longrightarrow> Fin 0 \<le> x + y"
  using dadd_mono2 [of "Fin 0" x "Fin 0" y] by (simp add: dbl_simps)

lemma rnd_between:
  assumes "l \<le> x" and "0 \<le> l" and "rnd_rat l = l" and "x \<le> pow2 k" and "- 1074 \<le> k" and "k \<le> 1023"
  shows "\<exists>r. rnd x = Fin r \<and> l \<le> r \<and> r \<le> pow2 k"
proof -
  have "pow2 k \<le> pow2 1023" using assms(6) by simp
  then have "\<bar>x\<bar> \<le> pow2 1023" using assms(1,2,4) by linarith
  moreover have "l \<le> rnd_rat x" using rnd_rat_mono [OF assms(1)] assms(3) by simp
  moreover have "rnd_rat x \<le> pow2 k" using rnd_rat_mono [OF assms(4)] assms(5) by simp
  ultimately show ?thesis by (simp add: rnd_Fin)
qed

text \<open>Integer division of C++ truncates; a zero divisor is undefined.\<close>

definition cdiv :: "int \<Rightarrow> int \<Rightarrow> int" where
  "cdiv a b = (if b = 0 then undefined else sgn a * sgn b * (\<bar>a\<bar> div \<bar>b\<bar>))"

lemma cdiv_pos [simp]: "0 \<le> a \<Longrightarrow> 0 < b \<Longrightarrow> cdiv a b = a div b"
  by (simp add: cdiv_def sgn_if)

section \<open>Evaluation\<close>

text \<open>
  Code equations with which the kernel's simplifier evaluates double arithmetic quickly: the
  greatest common divisor and the bit length work on binary numerals directly, and a power
  of two is one shift.
\<close>

fun num_minus :: "num \<Rightarrow> num \<Rightarrow> num" where
  "num_minus num.One _ = num.One"
| "num_minus (num.Bit0 a) num.One = Num.BitM a"
| "num_minus (num.Bit1 a) num.One = num.Bit0 a"
| "num_minus (num.Bit0 a) (num.Bit0 b) = num.Bit0 (num_minus a b)"
| "num_minus (num.Bit1 a) (num.Bit1 b) = num.Bit0 (num_minus a b)"
| "num_minus (num.Bit1 a) (num.Bit0 b) = (if a = b then num.One else num.Bit1 (num_minus a b))"
| "num_minus (num.Bit0 a) (num.Bit1 b) = Num.BitM (num_minus a b)"

lemma numeral_bits:
  "(numeral (num.Bit0 a) :: int) = 2 * numeral a"
  "(numeral (num.Bit1 a) :: int) = 2 * numeral a + 1"
  using mult_2 [of "numeral a :: int"] by (simp_all only: numeral_Bit0 numeral_Bit1)

lemmas numeral_sums = numeral_Bit0 numeral_Bit1 numeral_BitM numeral_One

lemma numeral_num_minus: "b < a \<Longrightarrow> (numeral (num_minus a b) :: int) = numeral a - numeral b"
proof (induction a b rule: num_minus.induct)
  case (1 b)
  then show ?case by simp
next
  case (2 a)
  show ?case by (simp only: num_minus.simps numeral_sums)
next
  case (3 a)
  show ?case by (simp only: num_minus.simps numeral_sums)
next
  case (4 a b)
  then have "(numeral (num_minus a b) :: int) = numeral a - numeral b" by simp
  then show ?case by (simp only: num_minus.simps numeral_sums)
next
  case (5 a b)
  then have "(numeral (num_minus a b) :: int) = numeral a - numeral b" by simp
  then show ?case by (simp only: num_minus.simps numeral_sums)
next
  case (6 a b)
  show ?case
  proof (cases "a = b")
    case True
    then show ?thesis by (simp only: num_minus.simps numeral_sums if_True simp_thms)
  next
    case False
    with 6 have IH: "(numeral (num_minus a b) :: int) = numeral a - numeral b" by simp
    have "num_minus (num.Bit1 a) (num.Bit0 b) = num.Bit1 (num_minus a b)" using False by simp
    then show ?thesis using IH by (simp only: numeral_sums)
  qed
next
  case (7 a b)
  then have "(numeral (num_minus a b) :: int) = numeral a - numeral b" by simp
  then show ?case by (simp only: num_minus.simps numeral_sums)
qed

lemma num_minus_less: "b < a \<Longrightarrow> nat_of_num (num_minus a b) < nat_of_num a"
proof -
  assume "b < a"
  from numeral_num_minus [OF this] have "(numeral (num_minus a b) :: int) < numeral a"
    using zero_less_numeral [of b, where 'a = int] by linarith
  then have "num_minus a b < a" by (simp only: numeral_less_iff)
  then show ?thesis by (simp add: less_num_def)
qed

function bgcd :: "num \<Rightarrow> num \<Rightarrow> num" where
  "bgcd num.One _ = num.One"
| "bgcd (num.Bit0 a) num.One = num.One"
| "bgcd (num.Bit1 a) num.One = num.One"
| "bgcd (num.Bit0 a) (num.Bit0 b) = num.Bit0 (bgcd a b)"
| "bgcd (num.Bit0 a) (num.Bit1 b) = bgcd a (num.Bit1 b)"
| "bgcd (num.Bit1 a) (num.Bit0 b) = bgcd (num.Bit1 a) b"
| "bgcd (num.Bit1 a) (num.Bit1 b) =
     (if a = b then num.Bit1 a
      else if a < b then bgcd (num.Bit1 a) (num_minus b a) else bgcd (num_minus a b) (num.Bit1 b))"
  by pat_completeness auto
termination
proof (relation "measure (\<lambda>(a, b). nat_of_num a + nat_of_num b)", goal_cases)
  case (5 a b)
  then show ?case using num_minus_less [of a b] by simp
next
  case (6 a b)
  then have "b < a" by simp
  then show ?case using num_minus_less [of b a] by simp
qed (simp_all add: nat_of_num_pos)

lemma gcd_odd_even: "odd (m :: int) \<Longrightarrow> gcd m (2 * n) = gcd m n"
  by (rule gcd_mult_right_left_cancel) simp

lemma bgcd_correct: "gcd (numeral a) (numeral b :: int) = numeral (bgcd a b)"
proof (induction a b rule: bgcd.induct)
  case (4 a b)
  have "gcd (2 * numeral a) (2 * numeral b :: int) = 2 * gcd (numeral a) (numeral b)"
    by (simp only: gcd_mult_distrib_int [symmetric] abs_numeral)
  with 4 show ?case
    by (simp only: bgcd.simps numeral_bits(1) [of a] numeral_bits(1) [of b] numeral_bits(1) [of "bgcd a b"])
next
  case (5 a b)
  have "gcd (numeral (num.Bit1 b)) (2 * numeral a :: int) = gcd (numeral (num.Bit1 b)) (numeral a)"
    by (rule gcd_odd_even) simp
  with 5 show ?case
    by (simp only: bgcd.simps numeral_bits(1) [of a] gcd.commute [of _ "numeral (num.Bit1 b)"])
next
  case (6 a b)
  have "gcd (numeral (num.Bit1 a)) (2 * numeral b :: int) = gcd (numeral (num.Bit1 a)) (numeral b)"
    by (rule gcd_odd_even) simp
  with 6 show ?case by (simp only: bgcd.simps numeral_bits(1) [of b])
next
  case (7 a b)
  let ?A = "numeral (num.Bit1 a) :: int" and ?B = "numeral (num.Bit1 b) :: int"
  have AB: "?A = 2 * numeral a + 1" "?B = 2 * numeral b + 1" by (rule numeral_bits)+
  consider "a = b" | "a < b" | "b < a" by fastforce
  then show ?case
  proof cases
    case 1
    then show ?thesis by simp
  next
    case 2
    have "gcd ?A ?B = gcd ?A (?B - ?A)" by (metis gcd.commute gcd_diff1)
    also have "?B - ?A = 2 * numeral (num_minus b a)"
      using numeral_num_minus [OF 2] AB by linarith
    also have "gcd ?A \<dots> = gcd ?A (numeral (num_minus b a))" by (rule gcd_odd_even) simp
    finally show ?thesis using 7 2 by (auto simp: order_less_le)
  next
    case 3
    have "gcd ?A ?B = gcd ?B (?A - ?B)" by (metis gcd.commute gcd_diff1)
    also have "?A - ?B = 2 * numeral (num_minus a b)"
      using numeral_num_minus [OF 3] AB by linarith
    also have "gcd ?B \<dots> = gcd ?B (numeral (num_minus a b))" by (rule gcd_odd_even) simp
    finally show ?thesis using 7 3 by (auto simp: gcd.commute)
  qed
qed simp_all

lemma gcd_int_num [code]:
  "gcd (0 :: int) n = \<bar>n\<bar>"
  "gcd n (0 :: int) = \<bar>n\<bar>"
  "gcd (Int.Pos a) (Int.Pos b) = Int.Pos (bgcd a b)"
  "gcd (Int.Neg a) (Int.Pos b) = Int.Pos (bgcd a b)"
  "gcd (Int.Pos a) (Int.Neg b) = Int.Pos (bgcd a b)"
  "gcd (Int.Neg a) (Int.Neg b) = Int.Pos (bgcd a b)"
  by (simp_all add: bgcd_correct)

fun num_len :: "num \<Rightarrow> int" where
  "num_len num.One = 1"
| "num_len (num.Bit0 n) = 1 + num_len n"
| "num_len (num.Bit1 n) = 1 + num_len n"

lemma bitlength_num: "bitlength (numeral n) = num_len n"
  by (induction n) (simp_all add: bitlength.simps [of "numeral _"] bitlength.simps [of 1] bitlength.simps [of 0])

lemma bitlength_code [code]:
  "bitlength 0 = 0"
  "bitlength (Int.Pos n) = num_len n"
  "bitlength (Int.Neg n) = 0"
  by (simp_all add: bitlength_num bitlength.simps [of "0"] bitlength.simps [of "- numeral n"])

lemma pow2_code [code]:
  "pow2 e = (if 0 \<le> e then of_int (push_bit (nat e) 1) else Fract 1 (push_bit (nat (- e)) 1))"
  by (auto simp: pow2_def power_int_def push_bit_eq_mult Fract_of_int_quotient power_inverse inverse_eq_divide power_one_over)

section \<open>Distances\<close>

text \<open>Values of at most 2^58, as token counts and their means are, differ by less than 1e18, the
  start value of the selection loops.\<close>

lemma rnd_abs_bound:
  assumes "\<bar>x\<bar> \<le> pow2 k" and "- 1074 \<le> k" and "k \<le> 1023"
  shows "\<exists>r. rnd x = Fin r \<and> \<bar>r\<bar> \<le> pow2 k"
proof -
  have "pow2 k \<le> pow2 1023" using assms(3) by simp
  then have "rnd x = Fin (rnd_rat x)" using assms(1) by (intro rnd_Fin) linarith
  moreover have "\<bar>rnd_rat x\<bar> \<le> pow2 k"
    using rnd_rat_mono [of x "pow2 k"] rnd_rat_mono [of "- pow2 k" x] assms by (simp add: abs_le_iff)
  ultimately show ?thesis by simp
qed

definition below58 :: "double \<Rightarrow> bool" where
  "below58 x \<longleftrightarrow> (\<exists>a. x = Fin a \<and> \<bar>a\<bar> \<le> pow2 58)"

lemma below58_dbl: "\<bar>n\<bar> \<le> 2 ^ 58 \<Longrightarrow> below58 (dbl n)"
proof -
  assume n: "\<bar>n\<bar> \<le> 2 ^ 58"
  have "rat_of_int \<bar>n\<bar> \<le> of_int (2 ^ 58)" using n by (simp only: of_int_le_iff)
  then have "\<bar>rat_of_int n\<bar> \<le> pow2 58" by (simp add: pow2_def)
  then show ?thesis using rnd_abs_bound [of "rat_of_int n" 58] by (auto simp: dbl_def below58_def)
qed

lemma below58_quot:
  assumes "\<bar>D\<bar> \<le> 2 ^ 58" "1 \<le> c" "c < 2 ^ 31" shows "below58 (dbl D / dbl c)"
proof -
  obtain b where b: "dbl D = Fin b" "\<bar>b\<bar> \<le> pow2 58" using below58_dbl [OF assms(1)] by (auto simp: below58_def)
  have c: "dbl c = Fin (of_int c)" "1 \<le> rat_of_int c" using assms by (simp_all add: dbl_exact)
  have "\<bar>b\<bar> / of_int c \<le> \<bar>b\<bar> / 1" using c by (intro divide_left_mono) auto
  then have "\<bar>b / of_int c\<bar> \<le> pow2 58" using b c by (simp add: abs_divide)
  then show ?thesis using rnd_abs_bound [of "b / of_int c" 58] c b by (auto simp: below58_def dbl_simps)
qed

lemma below58_diff: "below58 x \<Longrightarrow> below58 y \<Longrightarrow> \<bar>x - y\<bar> < dlit (10 ^ 18)"
proof -
  assume "below58 x" "below58 y"
  then obtain a e where a: "x = Fin a" "\<bar>a\<bar> \<le> pow2 58" and e: "y = Fin e" "\<bar>e\<bar> \<le> pow2 58"
    by (auto simp: below58_def)
  have "pow2 58 + pow2 58 = pow2 59" by (simp add: pow2_def)
  then have "\<bar>a - e\<bar> \<le> pow2 59" using a(2) e(2) by linarith
  then obtain r where "rnd (a - e) = Fin r" "\<bar>r\<bar> \<le> pow2 59"
    using rnd_abs_bound [of "a - e" 59] by auto
  moreover have "dlit (10 ^ 18) = Fin (10 ^ 18)" by code_simp
  moreover have "pow2 59 < 10 ^ 18" by (simp add: pow2_def)
  ultimately show ?thesis by (simp add: a(1) e(1) dbl_simps)
qed

lemma dist_bound:
  assumes "\<bar>L\<bar> \<le> 2 ^ 58" "\<bar>D\<bar> \<le> 2 ^ 58" "1 \<le> c" "c < 2 ^ 31"
  shows "\<bar>dbl L - dbl D / dbl c\<bar> < dlit (10 ^ 18)"
  using assms by (intro below58_diff below58_dbl below58_quot) auto

end
