(* ===== verification/Spec_Model.thy ===== *)
theory Spec_Model
  imports Cxx_Double
begin

text \<open>
  \<open>core/spec.h\<close> and \<open>core/operating_point.h\<close>: the fixed substrate constants, the model and
  hardware specifications with their member functions, the operating point that
  \<open>derive\<close> produces and its tuning options. Integers are unbounded here; the member
  functions stay inside the 64-bit range for the specifications of the properties.
\<close>

section \<open>The substrate\<close>

definition PIM_TILE_TIME_FP8_NS :: double where "PIM_TILE_TIME_FP8_NS = dlit 267"
definition PIM_TILE_ROWS :: int where "PIM_TILE_ROWS = 32"
definition PIM_BROADCAST_NS :: double where "PIM_BROADCAST_NS = dlit (1 / 2)"
definition PIM_CHANNELS_PER_STACK :: int where "PIM_CHANNELS_PER_STACK = 32"
definition HBM4_STACKS_PER_GPU :: int where "HBM4_STACKS_PER_GPU = 8"
definition HBM4_CHANNEL_DENSITY_GB_16HIGH :: double where "HBM4_CHANNEL_DENSITY_GB_16HIGH = dlit 16"
definition KV_BYTES_PER_ELEM :: int where "KV_BYTES_PER_ELEM = 1"
definition KV_KV_FACTOR :: int where "KV_KV_FACTOR = 2"

lemmas substrate_defs = PIM_TILE_ROWS_def PIM_CHANNELS_PER_STACK_def HBM4_STACKS_PER_GPU_def
  KV_BYTES_PER_ELEM_def KV_KV_FACTOR_def

section \<open>Model and hardware\<close>

record ModelSpec =
  num_layers :: int
  hidden :: int
  num_heads :: int
  num_kv_heads :: int
  head_dim :: int
  ffn_intermediate :: int
  weight_bytes_per_elem :: int

definition kv_bytes_per_token :: "ModelSpec \<Rightarrow> int" where
  "kv_bytes_per_token m =
     KV_KV_FACTOR * num_kv_heads m * head_dim m * KV_BYTES_PER_ELEM * num_layers m"

definition instance_a_weight_bytes :: "ModelSpec \<Rightarrow> int" where
  "instance_a_weight_bytes m =
     (let qkv = hidden m * (num_heads m * head_dim m + 2 * num_kv_heads m * head_dim m);
          oproj = hidden m * hidden m
      in (qkv + oproj) * num_layers m * weight_bytes_per_elem m)"

record HwSpec =
  gpu_peak_tflops :: double
  gpu_mfu :: double
  num_gpus_a :: int
  num_gpus_b :: int

definition peak_flops :: "HwSpec \<Rightarrow> int \<Rightarrow> double" where
  "peak_flops hw num_gpus = gpu_peak_tflops hw * dlit (10 ^ 12) * gpu_mfu hw * dbl num_gpus"

definition k_aggregate :: "HwSpec \<Rightarrow> int" where
  "k_aggregate hw = num_gpus_a hw * HBM4_STACKS_PER_GPU * PIM_CHANNELS_PER_STACK"

text \<open>The fields of \<open>ModelSpec\<close> and the GPU counts are positive 32-bit integers.\<close>

definition model_ok :: "ModelSpec \<Rightarrow> bool" where
  "model_ok m \<longleftrightarrow> (\<forall>x \<in> {num_layers m, hidden m, num_heads m, num_kv_heads m, head_dim m,
     ffn_intermediate m, weight_bytes_per_elem m}. 0 < x \<and> x < 2 ^ 31)"

text \<open>The deployment of the drivers: Llama-3 70B on eight B200 per instance.\<close>

definition llama70b :: ModelSpec where
  "llama70b = \<lparr>num_layers = 80, hidden = 8192, num_heads = 64, num_kv_heads = 8, head_dim = 128,
     ffn_intermediate = 28672, weight_bytes_per_elem = 2\<rparr>"

definition b200 :: HwSpec where
  "b200 = \<lparr>gpu_peak_tflops = dlit 2200, gpu_mfu = dlit (6 / 10), num_gpus_a = 8, num_gpus_b = 8\<rparr>"

section \<open>The operating point\<close>

record OperatingPoint =
  ctx_balance :: double
  decode_count_target :: int
  kv_operating_target :: int
  prefill_tokens :: int
  prefill_kv_work_target :: int
  ffn_batch :: int
  balance_time_us :: double
  decode_pool :: int
  prefill_pool :: int
  age_cap :: int
  idle_band :: double
  node_max :: int
  node_min :: int
  edge_band :: double
  node_footprint_cap :: int
  instance_a_tb :: double
  hbm_capacity_tb :: double
  hbm_fits :: bool

record DeriveOptions =
  opt_decode_surplus :: int
  opt_prefill_pool :: int
  opt_age_cap :: int
  opt_idle_band :: double
  opt_prefill_avg_depth_frac :: double
  opt_node_max_surplus :: int
  opt_edge_band_tokens :: double
  opt_footprint_headroom :: double
  opt_hbm_stack_height :: int

definition default_options :: DeriveOptions where
  "default_options = \<lparr>opt_decode_surplus = 25, opt_prefill_pool = 80, opt_age_cap = 5,
     opt_idle_band = dlit (1 / 10), opt_prefill_avg_depth_frac = dlit (56 / 100),
     opt_node_max_surplus = 10, opt_edge_band_tokens = dlit 1000,
     opt_footprint_headroom = dlit (122 / 100), opt_hbm_stack_height = 16\<rparr>"

end
