(* ===== verification/Optime.thy ===== *)
theory Optime
  imports Spec_Model
begin

text \<open>
  \<open>core/optime.cpp\<close>: the operation times of the three resources in microseconds, in double
  arithmetic as the source computes them, and their monotonicity.
\<close>

definition t_pim_us :: "int \<Rightarrow> HwSpec \<Rightarrow> double" where
  "t_pim_us sum_decode_kv_tokens hw =
     (if sum_decode_kv_tokens \<le> 0 then dlit 0
      else let k_channels = k_aggregate hw;
               denom = k_channels * PIM_TILE_ROWS;
               tiles = cdiv (sum_decode_kv_tokens + denom - 1) denom
           in (dbl tiles * PIM_TILE_TIME_FP8_NS + PIM_BROADCAST_NS) / dlit 1000)"

definition t_ffn_us :: "int \<Rightarrow> ModelSpec \<Rightarrow> HwSpec \<Rightarrow> double" where
  "t_ffn_us batch_total m hw =
     (let flops = dlit 6 * dbl batch_total * dbl (hidden m) * dbl (ffn_intermediate m)
      in flops / peak_flops hw (num_gpus_b hw) * dlit (1000000))"

definition t_gpu_a_us :: "int \<Rightarrow> int \<Rightarrow> ModelSpec \<Rightarrow> HwSpec \<Rightarrow> double" where
  "t_gpu_a_us batch_total prefill_attn_work_tokens m hw =
     (let qkv = dlit 2 * dbl batch_total * dbl (hidden m)
                * (dbl (hidden m) + dlit 2 * dbl (num_kv_heads m) * dbl (head_dim m));
          o_proj = dlit 2 * dbl batch_total * dbl (hidden m) * dbl (hidden m);
          prefill_attn = dlit 2 * dbl prefill_attn_work_tokens * dbl (hidden m)
      in (qkv + o_proj + prefill_attn) / peak_flops hw (num_gpus_a hw) * dlit (1000000))"

section \<open>Monotonicity\<close>

definition pos_fin :: "double \<Rightarrow> bool" where
  "pos_fin d = (case d of Fin r \<Rightarrow> 0 < r | _ \<Rightarrow> False)"

text \<open>Hardware whose throughput is a positive number, as every configuration of the drivers.\<close>

definition hw_ok :: "HwSpec \<Rightarrow> bool" where
  "hw_ok hw \<longleftrightarrow> 0 < num_gpus_a hw \<and> pos_fin (peak_flops hw (num_gpus_a hw))
     \<and> 0 < num_gpus_b hw \<and> pos_fin (peak_flops hw (num_gpus_b hw))"

lemma hw_okE:
  assumes "hw_ok hw"
  obtains a b where "0 < a" "peak_flops hw (num_gpus_a hw) = Fin a"
    and "0 < b" "peak_flops hw (num_gpus_b hw) = Fin b" and "0 < num_gpus_a hw" "0 < num_gpus_b hw"
  using assms by (auto simp: hw_ok_def pos_fin_def split: double.splits)

lemma hw_ok_b200: "hw_ok b200"
  by code_simp

lemma dbl_pos: "0 < n \<Longrightarrow> n < 2 ^ 31 \<Longrightarrow> dbl n = Fin (of_int n) \<and> 0 < rat_of_int n"
  by (simp add: dbl_exact)

lemma model_dbl:
  assumes "model_ok m"
  shows "dbl (hidden m) = Fin (of_int (hidden m))" "0 < rat_of_int (hidden m)"
    "dbl (ffn_intermediate m) = Fin (of_int (ffn_intermediate m))"
    "0 < rat_of_int (ffn_intermediate m)"
  using assms dbl_pos [of "hidden m"] dbl_pos [of "ffn_intermediate m"] by (auto simp: model_ok_def)

lemma dlit_vals:
  "dlit 2 = Fin 2" "dlit 6 = Fin 6" "dlit 1000 = Fin 1000" "dlit (1000000) = Fin (1000000)" "dlit 0 = Fin 0"
  by code_simp+

lemma pim_lits: "PIM_TILE_TIME_FP8_NS = Fin 267" "PIM_BROADCAST_NS = Fin (1 / 2)"
  by code_simp+

definition pim_tiles :: "int \<Rightarrow> HwSpec \<Rightarrow> int" where
  "pim_tiles s hw = (let d = k_aggregate hw * PIM_TILE_ROWS in (s + d - 1) div d)"

lemma k_aggregate_pos: "0 < num_gpus_a hw \<Longrightarrow> 0 < k_aggregate hw * PIM_TILE_ROWS"
  by (simp add: k_aggregate_def substrate_defs)

lemma t_pim_us_tiles:
  assumes "0 < num_gpus_a hw" and "0 < s"
  shows "t_pim_us s hw = (dbl (pim_tiles s hw) * Fin 267 + Fin (1 / 2)) / Fin 1000"
  using assms k_aggregate_pos [OF assms(1)]
  by (simp add: t_pim_us_def pim_tiles_def Let_def dlit_vals pim_lits)

lemma pim_tiles_mono: "0 < num_gpus_a hw \<Longrightarrow> s \<le> s' \<Longrightarrow> pim_tiles s hw \<le> pim_tiles s' hw"
  unfolding pim_tiles_def Let_def by (intro zdiv_mono1 k_aggregate_pos) auto

lemma pim_tiles_cover:
  assumes "0 < num_gpus_a hw"
  shows "s \<le> pim_tiles s hw * (k_aggregate hw * PIM_TILE_ROWS)"
    and "(pim_tiles s hw - 1) * (k_aggregate hw * PIM_TILE_ROWS) < s"
proof -
  let ?d = "k_aggregate hw * PIM_TILE_ROWS"
  have d: "0 < ?d" by (rule k_aggregate_pos [OF assms])
  have e: "pim_tiles s hw * ?d + (s + ?d - 1) mod ?d = s + ?d - 1"
    by (simp only: pim_tiles_def Let_def div_mult_mod_eq)
  have m: "0 \<le> (s + ?d - 1) mod ?d" "(s + ?d - 1) mod ?d < ?d" using d by simp_all
  show "s \<le> pim_tiles s hw * ?d" using e m by linarith
  show "(pim_tiles s hw - 1) * ?d < s" using e m by (simp only: left_diff_distrib)
qed

lemma t_pim_expr_mono:
  "m \<le> n \<Longrightarrow> (dbl m * Fin 267 + Fin (1 / 2)) / Fin 1000 \<le> (dbl n * Fin 267 + Fin (1 / 2)) / Fin 1000"
  by (intro ddiv_mono dadd_mono dmul_mono dbl_mono) simp_all

lemma t_pim_us_nonneg:
  assumes "0 < num_gpus_a hw" shows "Fin 0 \<le> t_pim_us s hw"
proof (cases "0 < s")
  case True
  have "0 \<le> pim_tiles s hw"
    unfolding pim_tiles_def Let_def
    by (intro pos_imp_zdiv_nonneg_iff [THEN iffD2] k_aggregate_pos assms)
      (use True k_aggregate_pos [OF assms] in linarith)
  then have "Fin 0 \<le> (dbl (pim_tiles s hw) * Fin 267 + Fin (1 / 2)) / Fin 1000"
    by (intro ddiv_nonneg dadd_nonneg dmul_nonneg dbl_nonneg) (simp_all add: dbl_simps)
  then show ?thesis by (simp add: t_pim_us_tiles [OF assms True])
next
  case False
  then show ?thesis by (simp add: t_pim_us_def dlit_vals dbl_simps)
qed

lemma t_pim_us_mono:
  assumes "0 < num_gpus_a hw" and "s \<le> s'"
  shows "t_pim_us s hw \<le> t_pim_us s' hw"
proof (cases "0 < s")
  case True
  then show ?thesis
    using assms t_pim_expr_mono [OF pim_tiles_mono [OF assms]] by (simp add: t_pim_us_tiles)
next
  case False
  then have "t_pim_us s hw = Fin 0" by (simp add: t_pim_us_def dlit_vals)
  then show ?thesis using t_pim_us_nonneg [OF assms(1)] by simp
qed

lemma t_ffn_us_mono:
  assumes "hw_ok hw" and "model_ok m" and "b \<le> b'"
  shows "t_ffn_us b m hw \<le> t_ffn_us b' m hw"
proof -
  obtain p where p: "0 < p" "peak_flops hw (num_gpus_b hw) = Fin p" using assms(1) by (rule hw_okE)
  note m = model_dbl [OF assms(2)]
  show ?thesis
    unfolding t_ffn_us_def Let_def p(2) m(1) m(3) dlit_vals
    by (intro dmul_mono ddiv_mono dmul_mono_left dbl_mono assms(3) p(1) m(2) m(4)) simp_all
qed

lemma kv_width_pos:
  assumes "model_ok m"
  shows "\<exists>q > 0. dbl (hidden m) + dlit 2 * dbl (num_kv_heads m) * dbl (head_dim m) = Fin q"
proof -
  let ?n = "rat_of_int (num_kv_heads m)" and ?d = "rat_of_int (head_dim m)" and ?h = "rat_of_int (hidden m)"
  have r: "1 \<le> hidden m" "hidden m < 2 ^ 31" "0 < num_kv_heads m" "num_kv_heads m < 2 ^ 31"
    "0 < head_dim m" "head_dim m < 2 ^ 31" using assms by (auto simp: model_ok_def)
  then have e: "dbl (hidden m) = Fin ?h" "dbl (head_dim m) = Fin ?d"
    "dlit 2 * dbl (num_kv_heads m) = Fin (2 * ?n)"
    using dbl_exact [of "2 * num_kv_heads m", unfolded dbl_def]
    by (simp_all add: dbl_exact dlit_vals dbl_simps)
  have "2 * num_kv_heads m * head_dim m \<le> 2 ^ 32 * 2 ^ 31"
    using r by (intro mult_mono) auto
  then have "rat_of_int (2 * num_kv_heads m * head_dim m) \<le> of_int (2 ^ 63)"
    by (simp only: of_int_le_iff) simp
  then have "2 * ?n * ?d \<le> pow2 63" by (simp add: pow2_def)
  moreover have "0 \<le> 2 * ?n * ?d" using r by simp
  ultimately obtain x where x: "rnd (2 * ?n * ?d) = Fin x" "0 \<le> x" "x \<le> pow2 63"
    using rnd_between [of 0 "2 * ?n * ?d" 63] by auto
  have "?h \<le> of_int (2 ^ 31)" "1 \<le> ?h" using r(1,2) by (simp_all only: of_int_le_iff of_int_1_le_iff)
  then have "1 \<le> ?h + x" "?h + x \<le> pow2 64" using x(2,3) by (simp_all add: pow2_def)
  then obtain q where "rnd (?h + x) = Fin q" "1 \<le> q"
    using rnd_between [of 1 "?h + x" 64] rnd_rat_of_int [of 1] by auto
  then show ?thesis by (auto simp: e dbl_simps x(1) intro!: exI [of _ q])
qed

lemma t_gpu_a_us_mono:
  assumes "hw_ok hw" and "model_ok m" and "0 \<le> b" and "b \<le> b'" and "0 \<le> w" and "w \<le> w'"
  shows "t_gpu_a_us b w m hw \<le> t_gpu_a_us b' w' m hw"
proof -
  obtain p where p: "0 < p" "peak_flops hw (num_gpus_a hw) = Fin p" using assms(1) by (rule hw_okE)
  note m = model_dbl [OF assms(2)]
  obtain q where q: "0 < q"
    "Fin (of_int (hidden m)) + dlit 2 * dbl (num_kv_heads m) * dbl (head_dim m) = Fin q"
    using kv_width_pos [OF assms(2)] m(1) by auto
  show ?thesis
    unfolding t_gpu_a_us_def Let_def p(2) m(1) q(2) unfolding dlit_vals
    by (intro dmul_mono ddiv_mono dadd_mono2 dmul_mono_left dmul_nonneg dmul_nonneg_left dadd_nonneg
        dbl_mono dbl_nonneg assms(3-6) p(1) q(1) m(2)) simp_all
qed

section \<open>Properties\<close>

text \<open>The PIM time of a positive KV sum is that of the least number of tiles that cover it: the
  tiles hold all tokens, and one tile less would not.\<close>
theorem pim_time_of_tiles:
  assumes "0 < num_gpus_a hw" and "0 < s"
  shows "t_pim_us s hw = (dbl (pim_tiles s hw) * PIM_TILE_TIME_FP8_NS + PIM_BROADCAST_NS) / dlit 1000
    \<and> s \<le> pim_tiles s hw * (k_aggregate hw * PIM_TILE_ROWS)
    \<and> (pim_tiles s hw - 1) * (k_aggregate hw * PIM_TILE_ROWS) < s"
  using t_pim_us_tiles [OF assms] pim_tiles_cover [OF assms(1), of s] by (simp add: dlit_vals pim_lits)

theorem pim_time_of_tiles_witness:
  "t_pim_us 131073 b200 = (dbl 3 * PIM_TILE_TIME_FP8_NS + PIM_BROADCAST_NS) / dlit 1000 \<and> (131073 :: int) \<le> 3 * 65536"
proof -
  have "pim_tiles 131073 b200 = 3" "k_aggregate b200 * PIM_TILE_ROWS = 65536" by code_simp+
  then show ?thesis using pim_time_of_tiles [of b200 131073] by (simp add: b200_def)
qed

text \<open>The three operation times grow with the load, for every model and hardware of positive
  figures: with the KV sum, with the batch, and with the prefill work; the PIM time is never
  negative. On this rests the search for the operating point.\<close>
theorem optime_monotone:
  assumes "hw_ok hw" and "model_ok m" and "s \<le> s'" and "0 \<le> b" and "b \<le> b'" and "0 \<le> w" and "w \<le> w'"
  shows "t_pim_us s hw \<le> t_pim_us s' hw \<and> Fin 0 \<le> t_pim_us s hw
    \<and> t_ffn_us b m hw \<le> t_ffn_us b' m hw \<and> t_gpu_a_us b w m hw \<le> t_gpu_a_us b' w' m hw"
  using t_pim_us_mono [OF _ assms(3)] t_pim_us_nonneg t_ffn_us_mono [OF assms(1,2,5)] t_gpu_a_us_mono [OF assms(1,2,4-7)]
    assms(1) by (simp add: hw_ok_def)

theorem optime_monotone_witness:
  "t_pim_us 1000000 b200 \<le> t_pim_us 12000000 b200 \<and> t_ffn_us 128 llama70b b200 \<le> t_ffn_us 250 llama70b b200
   \<and> t_gpu_a_us 128 0 llama70b b200 \<le> t_gpu_a_us 250 12000000 llama70b b200"
proof -
  have "model_ok llama70b" by (simp add: model_ok_def llama70b_def)
  from optime_monotone [OF hw_ok_b200 this, of 1000000 12000000 128 250 0 12000000] show ?thesis by simp
qed

end
