(* ===== verification/Derive.thy ===== *)
theory Derive
  imports Optime
begin

text \<open>
  \<open>core/derive.cpp\<close>: the operating point is the solution of \<open>t_pim = t_ffn = t_gpu_a\<close>,
  found by two nested bisections in double arithmetic. The bisection is one function with
  the number of iterations as its fuel, as the source's \<open>for\<close> loops have. The lemmas:
  a bisection stays in its bracket, keeps the sign change and shrinks to the resolution
  of the doubles; so the derived counts and contexts are bounded whatever the input.
\<close>

section \<open>The model\<close>

text \<open>\<open>mid = 0.5 * (lo + hi); if (below(mid)) lo = mid; else hi = mid;\<close>, \<open>n\<close> times.\<close>

fun bisect :: "nat \<Rightarrow> (double \<Rightarrow> bool) \<Rightarrow> double \<Rightarrow> double \<Rightarrow> double \<times> double" where
  "bisect 0 below lo hi = (lo, hi)"
| "bisect (Suc n) below lo hi =
     (let mid = dlit (1 / 2) * (lo + hi)
      in if below mid then bisect n below mid hi else bisect n below lo mid)"

definition ffn_minus_gpua :: "int \<Rightarrow> int \<Rightarrow> ModelSpec \<Rightarrow> HwSpec \<Rightarrow> double \<Rightarrow> double" where
  "ffn_minus_gpua prefill_attn_work prefill m hw n =
     (let batch = narrow32 (llround n) + prefill
      in t_ffn_us batch m hw - t_gpu_a_us batch prefill_attn_work m hw)"

definition ndec_ffn_eq_gpua :: "double \<Rightarrow> int \<Rightarrow> ModelSpec \<Rightarrow> HwSpec \<Rightarrow> double" where
  "ndec_ffn_eq_gpua ctx prefill m hw =
     (let prefill_attn_work = llround (dbl prefill * ctx);
          f = ffn_minus_gpua prefill_attn_work prefill m hw;
          lo = dlit 0; hi = dlit (1000000)
      in if dlit 0 < f lo then dlit 0
         else case bisect 200 (\<lambda>mid. f mid < dlit 0) lo hi of (lo, hi) \<Rightarrow> dlit (1 / 2) * (lo + hi))"

definition balance_residual :: "double \<Rightarrow> int \<Rightarrow> ModelSpec \<Rightarrow> HwSpec \<Rightarrow> double" where
  "balance_residual ctx prefill m hw =
     (let n = ndec_ffn_eq_gpua ctx prefill m hw;
          sum_kv = llround (n * ctx);
          batch = narrow32 (llround n) + prefill
      in t_pim_us sum_kv hw - t_ffn_us batch m hw)"

text \<open>The bracket is doubled at most 24 times, while the sign at both ends is the same.\<close>

fun widen :: "nat \<Rightarrow> (double \<Rightarrow> bool) \<Rightarrow> bool \<Rightarrow> double \<Rightarrow> double" where
  "widen 0 neg neg_at_lo hi = hi"
| "widen (Suc g) neg neg_at_lo hi =
     (if neg hi = neg_at_lo then widen g neg neg_at_lo (hi * dlit 2) else hi)"

definition derive_ctx :: "int \<Rightarrow> ModelSpec \<Rightarrow> HwSpec \<Rightarrow> double" where
  "derive_ctx P m hw =
     (let neg = (\<lambda>c. balance_residual c P m hw < dlit 0);
          lo = dlit 1000; hi = dlit 400000;
          neg_at_lo = neg lo;
          hi = widen 24 neg neg_at_lo hi
      in case bisect 200 (\<lambda>mid. neg mid = neg_at_lo) lo hi of (lo, hi) \<Rightarrow> dlit (1 / 2) * (lo + hi))"

text \<open>HBM capacity from the JEDEC primitives: channels, channel density, stacks.\<close>

definition hbm_capacity :: "HwSpec \<Rightarrow> DeriveOptions \<Rightarrow> double" where
  "hbm_capacity hw opts =
     (let channel_density_gb = HBM4_CHANNEL_DENSITY_GB_16HIGH * (dbl (opt_hbm_stack_height opts) / dlit 16);
          per_stack_gb = dbl PIM_CHANNELS_PER_STACK * channel_density_gb / dlit 8;
          num_stacks = num_gpus_a hw * HBM4_STACKS_PER_GPU
      in dbl num_stacks * per_stack_gb / dlit 1000)"

definition instance_a_use :: "int \<Rightarrow> int \<Rightarrow> double \<Rightarrow> ModelSpec \<Rightarrow> DeriveOptions \<Rightarrow> double" where
  "instance_a_use dpool ppool ctx m opts =
     (let instance_a_tokens = dbl dpool * ctx + dbl ppool * (ctx * opt_prefill_avg_depth_frac opts);
          kv_bytes = instance_a_tokens * dbl (kv_bytes_per_token m);
          weight_bytes = dbl (instance_a_weight_bytes m)
      in (kv_bytes + weight_bytes) / dlit (10 ^ 12))"

definition derive_operating_point :: "ModelSpec \<Rightarrow> HwSpec \<Rightarrow> int \<Rightarrow> DeriveOptions \<Rightarrow> OperatingPoint" where
  "derive_operating_point m hw P opts =
     (let ctx = derive_ctx P m hw;
          n_dec_real = ndec_ffn_eq_gpua ctx P m hw;
          n_dec = narrow32 (llround n_dec_real);
          kv_target = llround (dbl n_dec * ctx);
          batch = n_dec + P;
          dpool = 2 * n_dec + opt_decode_surplus opts;
          nmin = 2 * n_dec;
          use = instance_a_use dpool (opt_prefill_pool opts) ctx m opts;
          capacity = hbm_capacity hw opts
      in \<lparr>ctx_balance = ctx,
          decode_count_target = n_dec,
          kv_operating_target = kv_target,
          prefill_tokens = P,
          prefill_kv_work_target = llround (dbl P * ctx),
          ffn_batch = batch,
          balance_time_us = t_ffn_us batch m hw,
          decode_pool = dpool,
          prefill_pool = opt_prefill_pool opts,
          age_cap = opt_age_cap opts,
          idle_band = opt_idle_band opts,
          node_max = nmin + opt_node_max_surplus opts,
          node_min = nmin,
          edge_band = opt_edge_band_tokens opts,
          node_footprint_cap = llround (dlit 2 * dbl kv_target * opt_footprint_headroom opts),
          instance_a_tb = use,
          hbm_capacity_tb = capacity,
          hbm_fits = use \<le> capacity\<rparr>)"

section \<open>Bisection\<close>

text \<open>A value the program can hold: a finite double.\<close>

fun is_dbl :: "double \<Rightarrow> bool" where
  "is_dbl (Fin r) \<longleftrightarrow> rnd_rat r = r"
| "is_dbl _ \<longleftrightarrow> False"

lemma rnd_rat_double:
  assumes "rnd_rat r = r" shows "rnd_rat (2 * r) = 2 * r"
proof (cases "r = 0")
  case False
  let ?m = "round_even (r / pow2 (dexp r))"
  have r: "r = of_int ?m * pow2 (dexp r)" using assms False by (simp add: rnd_rat_def)
  have "2 * r = of_int ?m * pow2 (dexp r + 1)"
    using r by (simp add: pow2_add) (simp add: pow2_def)
  moreover have "- 1074 \<le> dexp r + 1" by (simp add: dexp_def)
  ultimately show ?thesis using rnd_rat_exact [OF rnd_rat_mantissa [of r], of "dexp r + 1"] by metis
qed simp

definition mid_of :: "rat \<Rightarrow> rat \<Rightarrow> rat" where
  "mid_of a b = rnd_rat (rnd_rat (a + b) / 2)"

lemma dexp_le: "0 < x \<Longrightarrow> x \<le> pow2 K \<Longrightarrow> 0 \<le> K \<Longrightarrow> dexp x \<le> K - 52"
proof -
  assume x: "0 < x" "x \<le> pow2 K" and K: "0 \<le> K"
  have "ilog2 x < K + 1"
    using x pow2_strict [of K "K + 1"] by (intro ilog2_less) linarith+
  then show ?thesis using x K by (simp add: dexp_def)
qed

lemma mid_ok:
  assumes "rnd_rat a = a" and "rnd_rat b = b" and "0 \<le> a" and "a \<le> b" and "b \<le> pow2 K"
    and K: "0 \<le> K" "K \<le> 1000"
  shows "dlit (1 / 2) * (Fin a + Fin b) = Fin (mid_of a b)"
    and "a \<le> mid_of a b" and "mid_of a b \<le> b" and "rnd_rat (mid_of a b) = mid_of a b"
    and "\<bar>mid_of a b - (a + b) / 2\<bar> \<le> pow2 (K - 52)"
proof -
  let ?s = "rnd_rat (a + b)"
  have s: "2 * a \<le> ?s" "?s \<le> 2 * b"
    using rnd_rat_mono [of "2 * a" "a + b"] rnd_rat_mono [of "a + b" "2 * b"] assms(1-4)
    by (simp_all add: rnd_rat_double)
  have m: "a \<le> mid_of a b" "mid_of a b \<le> b"
    using rnd_rat_mono [of a "?s / 2"] rnd_rat_mono [of "?s / 2" b] s assms(1,2)
    by (simp_all add: mid_of_def)
  show "a \<le> mid_of a b" "mid_of a b \<le> b" by (fact m)+
  show "rnd_rat (mid_of a b) = mid_of a b" by (simp add: mid_of_def rnd_rat_idem)
  have p: "pow2 K \<le> pow2 1000" "pow2 1001 \<le> pow2 1023" using K by (simp_all only: pow2_le)
  have p2: "2 * pow2 1000 = pow2 1001" using pow2_add [of 1 1000] by (simp add: pow2_def)
  have half: "dlit (1 / 2) = Fin (1 / 2)" by code_simp
  have "rnd (a + b) = Fin ?s" using assms(3-5) p p2 by (intro rnd_Fin) linarith
  moreover have "rnd (?s / 2) = Fin (mid_of a b)"
    unfolding mid_of_def using s assms(3-5) p p2 by (intro rnd_Fin) linarith
  ultimately show "dlit (1 / 2) * (Fin a + Fin b) = Fin (mid_of a b)"
    by (simp add: half dbl_simps)
  show "\<bar>mid_of a b - (a + b) / 2\<bar> \<le> pow2 (K - 52)"
  proof (cases "b = 0")
    case True
    then show ?thesis using assms(3,4) by (simp add: mid_of_def)
  next
    case False
    then have pos: "0 < a + b" "a + b \<le> pow2 (K + 1)" "0 \<le> ?s / 2" "?s / 2 \<le> pow2 K"
      using assms(3-5) s by (simp_all add: pow2_add) (simp_all add: pow2_def)
    have "\<bar>?s - (a + b)\<bar> \<le> pow2 (dexp (a + b)) / 2" by (rule rnd_rat_error)
    also have "\<dots> \<le> pow2 (K - 51) / 2"
      using dexp_le [OF pos(1,2)] K by simp
    also have "pow2 (K - 51) = 2 * pow2 (K - 52)" using pow2_add [of 1 "K - 52"] by (simp add: pow2_def)
    finally have e1: "\<bar>?s - (a + b)\<bar> \<le> pow2 (K - 52)" by simp
    have e2: "\<bar>mid_of a b - ?s / 2\<bar> \<le> pow2 (K - 52) / 2"
    proof (cases "?s = 0")
      case True
      then show ?thesis by (simp add: mid_of_def)
    next
      case False
      then have "dexp (?s / 2) \<le> K - 52" using pos K by (intro dexp_le) linarith+
      then show ?thesis
        by (intro order_trans [OF rnd_rat_error [of "?s / 2", folded mid_of_def]]) simp
    qed
    have "\<bar>mid_of a b - (a + b) / 2\<bar> \<le> \<bar>mid_of a b - ?s / 2\<bar> + \<bar>?s - (a + b)\<bar> / 2"
      by (simp add: abs_if field_simps)
    also have "\<dots> \<le> pow2 (K - 52) / 2 + pow2 (K - 52) / 2"
      using e1 e2 by (intro add_mono) simp_all
    finally show ?thesis by simp
  qed
qed


lemma bisect_inv:
  assumes "rnd_rat a = a" and "rnd_rat b = b" and "0 \<le> a" and "a \<le> b" and "b \<le> pow2 K"
    and "0 \<le> K" and "K \<le> 1000"
  shows "\<exists>a' b'. bisect n below (Fin a) (Fin b) = (Fin a', Fin b')
    \<and> rnd_rat a' = a' \<and> rnd_rat b' = b' \<and> a \<le> a' \<and> a' \<le> b' \<and> b' \<le> b
    \<and> (a' = a \<or> below (Fin a')) \<and> (b' = b \<or> \<not> below (Fin b'))
    \<and> b' - a' \<le> (b - a) / 2 ^ n + 2 * pow2 (K - 52) - 2 * pow2 (K - 52) / 2 ^ n"
  using assms
proof (induction n arbitrary: a b)
  case 0
  then show ?case by simp
next
  case (Suc n)
  define m where "m = mid_of a b"
  define u where "u = pow2 (K - 52)"
  note M = mid_ok [OF Suc.prems, folded m_def]
  have w: "m - a \<le> (b - a) / 2 + u" "b - m \<le> (b - a) / 2 + u"
    using M(5) unfolding u_def by (simp_all add: abs_if field_simps split: if_splits)
  have shrink: "v / 2 ^ n + 2 * u - 2 * u / 2 ^ n \<le> (b - a) / 2 ^ Suc n + 2 * u - 2 * u / 2 ^ Suc n"
    if "v \<le> (b - a) / 2 + u" for v
  proof -
    have "v / 2 ^ n \<le> ((b - a) / 2 + u) / 2 ^ n" using that by (intro divide_right_mono) auto
    also have "\<dots> = (b - a) / 2 ^ Suc n + u / 2 ^ n" by (simp add: add_divide_distrib)
    finally show ?thesis by simp
  qed
  show ?case
  proof (cases "below (Fin m)")
    case True
    then have "bisect (Suc n) below (Fin a) (Fin b) = bisect n below (Fin m) (Fin b)"
      by (simp add: M(1) Let_def)
    moreover have "0 \<le> m" using M(2) Suc.prems(3) by linarith
    ultimately obtain a' b' where "bisect (Suc n) below (Fin a) (Fin b) = (Fin a', Fin b')"
      "rnd_rat a' = a'" "rnd_rat b' = b'" "m \<le> a'" "a' \<le> b'" "b' \<le> b"
      "a' = m \<or> below (Fin a')" "b' = b \<or> \<not> below (Fin b')"
      "b' - a' \<le> (b - m) / 2 ^ n + 2 * u - 2 * u / 2 ^ n"
      using Suc.IH [OF M(4) Suc.prems(2) _ M(3) Suc.prems(5-7)] unfolding u_def by auto
    then show ?thesis using True M(2) shrink [OF w(2)] unfolding u_def [symmetric]
      by (intro exI [of _ a'] exI [of _ b'] conjI) auto
  next
    case False
    then have "bisect (Suc n) below (Fin a) (Fin b) = bisect n below (Fin a) (Fin m)"
      by (simp add: M(1) Let_def)
    moreover have "m \<le> pow2 K" using M(3) Suc.prems(5) by linarith
    ultimately obtain a' b' where "bisect (Suc n) below (Fin a) (Fin b) = (Fin a', Fin b')"
      "rnd_rat a' = a'" "rnd_rat b' = b'" "a \<le> a'" "a' \<le> b'" "b' \<le> m"
      "a' = a \<or> below (Fin a')" "b' = m \<or> \<not> below (Fin b')"
      "b' - a' \<le> (m - a) / 2 ^ n + 2 * u - 2 * u / 2 ^ n"
      using Suc.IH [OF Suc.prems(1) M(4) Suc.prems(3) M(2) _ Suc.prems(6,7)] unfolding u_def by auto
    then show ?thesis using False M(3) shrink [OF w(1)] unfolding u_def [symmetric]
      by (intro exI [of _ a'] exI [of _ b'] conjI) auto
  qed
qed


lemma mid_range:
  assumes "rnd_rat a = a" and "rnd_rat b = b" and "0 \<le> a" and "a \<le> b" and "b \<le> pow2 43"
  shows "\<exists>c. dlit (1 / 2) * (Fin a + Fin b) = Fin c \<and> a \<le> c \<and> c \<le> b \<and> rnd_rat c = c"
  using mid_ok [OF assms] by auto

lemma widen_val:
  assumes "rnd_rat h = h" and "0 \<le> h" and "h * 2 ^ g \<le> pow2 1000"
  shows "\<exists>k \<le> g. widen g neg s (Fin h) = Fin (h * 2 ^ k) \<and> rnd_rat (h * 2 ^ k) = h * 2 ^ k
    \<and> (neg (Fin (h * 2 ^ k)) = s \<longrightarrow> k = g)"
  using assms
proof (induction g arbitrary: h)
  case 0
  then show ?case by simp
next
  case (Suc g)
  show ?case
  proof (cases "neg (Fin h) = s")
    case True
    have r: "rnd_rat (2 * h) = 2 * h" by (rule rnd_rat_double [OF Suc.prems(1)])
    have "2 * h * 1 \<le> 2 * h * 2 ^ g" using Suc.prems(2) by (intro mult_left_mono) simp_all
    also have b: "2 * h * 2 ^ g \<le> pow2 1000" using Suc.prems(3) by (simp add: mult.commute mult.left_commute)
    also have "\<dots> \<le> pow2 1023" by (simp only: pow2_le)
    finally have "Fin h * dlit 2 = Fin (2 * h)"
      using Suc.prems(2) r by (simp add: dlit_vals dbl_simps rnd_Fin mult.commute)
    moreover obtain k where "k \<le> g" "widen g neg s (Fin (2 * h)) = Fin (2 * h * 2 ^ k)"
      "rnd_rat (2 * h * 2 ^ k) = 2 * h * 2 ^ k" "neg (Fin (2 * h * 2 ^ k)) = s \<longrightarrow> k = g"
      using Suc.IH [OF r _ b] Suc.prems(2) by auto
    ultimately show ?thesis using True
      by (intro exI [of _ "Suc k"]) (simp add: ac_simps)
  next
    case False
    then show ?thesis using Suc.prems by (intro exI [of _ 0]) simp
  qed
qed

lemma llround_range:
  assumes "0 \<le> r" and "r \<le> of_int n" and "n < 2 ^ 63"
  shows "0 \<le> llround (Fin r)" and "llround (Fin r) \<le> n" and "llround (Fin r) = \<lfloor>r + 1 / 2\<rfloor>"
proof -
  have "0 \<le> \<lfloor>r + 1 / 2\<rfloor>" using assms by simp
  moreover have "\<lfloor>r + 1 / 2\<rfloor> < n + 1" using assms(2) by (simp only: floor_less_iff)
  ultimately show "0 \<le> llround (Fin r)" "llround (Fin r) \<le> n" "llround (Fin r) = \<lfloor>r + 1 / 2\<rfloor>"
    using assms by (simp_all add: fits_def int_range_def)
qed

section \<open>What the solver returns\<close>

text \<open>Both solvers return a bracketed value; the bracket is at the resolution of the doubles.\<close>

definition ndec_bracket :: "(double \<Rightarrow> double) \<Rightarrow> rat \<Rightarrow> rat \<Rightarrow> rat \<Rightarrow> bool" where
  "ndec_bracket f lo n hi \<longleftrightarrow> 0 \<le> lo \<and> lo \<le> n \<and> n \<le> hi \<and> hi \<le> 1000000 \<and> hi - lo \<le> 1 / 2 ^ 30
     \<and> (lo = 0 \<or> f (Fin lo) < dlit 0) \<and> (hi = 1000000 \<or> \<not> f (Fin hi) < dlit 0)"

lemma ndec_result:
  fixes ctx P m hw
  defines "f \<equiv> ffn_minus_gpua (llround (dbl P * ctx)) P m hw"
  shows "(dlit 0 < f (dlit 0) \<and> ndec_ffn_eq_gpua ctx P m hw = Fin 0)
    \<or> (\<not> dlit 0 < f (dlit 0)
        \<and> (\<exists>lo n hi. ndec_ffn_eq_gpua ctx P m hw = Fin n \<and> ndec_bracket f lo n hi))"
proof (cases "dlit 0 < f (dlit 0)")
  case True
  then show ?thesis by (simp add: ndec_ffn_eq_gpua_def f_def Let_def dlit_vals)
next
  case False
  have e: "rnd_rat (1000000) = 1000000" using rnd_rat_of_int [of "1000000"] by simp
  have p: "(1000000 :: rat) \<le> pow2 20" "pow2 20 \<le> pow2 43" by (simp_all add: pow2_def)
  obtain lo hi where B: "bisect 200 (\<lambda>mid. f mid < dlit 0) (Fin 0) (Fin (1000000)) = (Fin lo, Fin hi)"
    "rnd_rat lo = lo" "rnd_rat hi = hi" "0 \<le> lo" "lo \<le> hi" "hi \<le> 1000000"
    "lo = 0 \<or> f (Fin lo) < dlit 0" "hi = 1000000 \<or> \<not> f (Fin hi) < dlit 0"
    and w: "hi - lo \<le> 1000000 / 2 ^ 200 + 2 * pow2 (- 32) - 2 * pow2 (- 32) / 2 ^ 200"
    using bisect_inv [OF rnd_rat_0 e _ _ p(1), of 200 "\<lambda>mid. f mid < dlit 0"] by auto
  have "(1000000 :: rat) / 2 ^ 200 + 2 * pow2 (- 32) - 2 * pow2 (- 32) / 2 ^ 200 \<le> 1 / 2 ^ 30"
    by code_simp
  with w have w': "hi - lo \<le> 1 / 2 ^ 30" by (rule order_trans)
  obtain n where "dlit (1 / 2) * (Fin lo + Fin hi) = Fin n" "lo \<le> n" "n \<le> hi"
    using mid_range [OF B(2-5)] B(6) p by auto
  then have "ndec_ffn_eq_gpua ctx P m hw = Fin n"
    using False B(1) by (simp add: ndec_ffn_eq_gpua_def f_def [symmetric] Let_def dlit_vals)
  moreover have "ndec_bracket f lo n hi"
    using B w' \<open>lo \<le> n\<close> \<open>n \<le> hi\<close> by (simp add: ndec_bracket_def)
  ultimately show ?thesis using False by blast
qed

lemma ndec_range: "\<exists>n. ndec_ffn_eq_gpua ctx P m hw = Fin n \<and> 0 \<le> n \<and> n \<le> 1000000"
  using ndec_result [of P ctx m hw] by (auto simp: ndec_bracket_def)

definition ctx_bracket :: "(double \<Rightarrow> bool) \<Rightarrow> rat \<Rightarrow> rat \<Rightarrow> rat \<Rightarrow> bool" where
  "ctx_bracket neg lo c hi \<longleftrightarrow> 1000 \<le> lo \<and> lo \<le> c \<and> c \<le> hi \<and> hi \<le> 400000 * 2 ^ 24 \<and> hi - lo \<le> 1 / 128
     \<and> neg (Fin lo) = neg (Fin 1000) \<and> (hi = 400000 * 2 ^ 24 \<or> neg (Fin hi) \<noteq> neg (Fin 1000))"

lemma derive_ctx_result:
  fixes P m hw
  defines "neg \<equiv> \<lambda>c. balance_residual c P m hw < dlit 0"
  shows "\<exists>lo c hi. derive_ctx P m hw = Fin c \<and> ctx_bracket neg lo c hi"
proof -
  have lits: "dlit 1000 = Fin 1000" "dlit 400000 = Fin 400000" by code_simp+
  have e: "rnd_rat 400000 = 400000" "rnd_rat 1000 = 1000"
    using rnd_rat_of_int [of 400000] rnd_rat_of_int [of 1000] by simp_all
  have p: "(400000 :: rat) * 2 ^ 24 \<le> pow2 43" "pow2 43 \<le> pow2 1000"
    by (simp add: pow2_def) (simp only: pow2_le)
  then have p': "(400000 :: rat) * 2 ^ 24 \<le> pow2 1000" by (rule order_trans)
  let ?s = "neg (Fin 1000)"
  obtain k where k: "k \<le> 24" "widen 24 neg ?s (Fin 400000) = Fin (400000 * 2 ^ k)"
    "rnd_rat (400000 * 2 ^ k) = 400000 * 2 ^ k" "neg (Fin (400000 * 2 ^ k)) = ?s \<longrightarrow> k = 24"
    using widen_val [OF e(1) _ p', of neg ?s] by auto
  let ?h = "400000 * 2 ^ k :: rat"
  have "(2 :: rat) ^ k \<le> 2 ^ 24" "1 \<le> (2 :: rat) ^ k"
    using power_increasing [OF k(1), of "2 :: rat"] by simp_all
  then have h: "1000 \<le> ?h" "?h \<le> 400000 * 2 ^ 24" by linarith+
  obtain lo hi where B: "bisect 200 (\<lambda>mid. neg mid = ?s) (Fin 1000) (Fin ?h) = (Fin lo, Fin hi)"
    "rnd_rat lo = lo" "rnd_rat hi = hi" "1000 \<le> lo" "lo \<le> hi" "hi \<le> ?h"
    "neg (Fin lo) = ?s" "hi = ?h \<or> neg (Fin hi) \<noteq> ?s"
    and w: "hi - lo \<le> (?h - 1000) / 2 ^ 200 + 2 * pow2 (- 9) - 2 * pow2 (- 9) / 2 ^ 200"
    using bisect_inv [OF e(2) k(3) _ h(1), of 43 200 "\<lambda>mid. neg mid = ?s"] h p by auto
  have "(?h - 1000) / 2 ^ 200 \<le> 400000 * 2 ^ 24 / 2 ^ 200" using h by (intro divide_right_mono) auto
  moreover have "(400000 * 2 ^ 24 / 2 ^ 200 :: rat) + 2 * pow2 (- 9) - 2 * pow2 (- 9) / 2 ^ 200 \<le> 1 / 128"
    by code_simp
  ultimately have w': "hi - lo \<le> 1 / 128" using w by linarith
  obtain c where "dlit (1 / 2) * (Fin lo + Fin hi) = Fin c" "lo \<le> c" "c \<le> hi"
    using mid_range [OF B(2,3) _ B(5)] B(4,6) h p by auto
  moreover have "hi = 400000 * 2 ^ 24 \<or> neg (Fin hi) \<noteq> ?s" using B(8) k(4) by auto
  ultimately have "ctx_bracket neg lo c hi" using B w' h by (simp add: ctx_bracket_def)
  moreover have "derive_ctx P m hw = Fin c"
    using B(1) k(2) \<open>dlit (1 / 2) * (Fin lo + Fin hi) = Fin c\<close>
    by (simp add: derive_ctx_def neg_def [symmetric] Let_def lits)
  ultimately show ?thesis by blast
qed

section \<open>Properties\<close>

lemma round_count:
  "\<exists>r. ndec_ffn_eq_gpua ctx P m hw = Fin r \<and> 0 \<le> r \<and> r \<le> 1000000
     \<and> narrow32 (llround (ndec_ffn_eq_gpua ctx P m hw)) = \<lfloor>r + 1 / 2\<rfloor> \<and> 0 \<le> \<lfloor>r + 1 / 2\<rfloor> \<and> \<lfloor>r + 1 / 2\<rfloor> \<le> 1000000"
proof -
  obtain r where r: "ndec_ffn_eq_gpua ctx P m hw = Fin r" "0 \<le> r" "r \<le> of_int 1000000" using ndec_range [of ctx P m hw] by auto
  note l = llround_range [OF r(2,3)]
  then have "int_range 32 \<lfloor>r + 1 / 2\<rfloor>" by (simp add: int_range_def)
  then show ?thesis using r l by (intro exI [of _ r]) simp
qed

lemma target_range:
  assumes "0 \<le> n" and "n \<le> 1000000" and "0 \<le> c" and "c \<le> 400000 * 2 ^ 24"
  shows "0 \<le> llround (dbl n * Fin c) \<and> llround (dbl n * Fin c) \<le> 1000000 * (400000 * 2 ^ 24)"
proof -
  let ?M = "1000000 * (400000 * 2 ^ 24) :: int"
  have n: "dbl n = Fin (of_int n)" using assms(1,2) by (simp add: dbl_exact)
  have "rat_of_int n \<le> of_int 1000000" "0 \<le> rat_of_int n" using assms(1,2) by (simp_all only: of_int_le_iff of_int_0_le_iff)
  then have b: "0 \<le> of_int n * c" "of_int n * c \<le> rat_of_int ?M"
    using mult_mono [of "rat_of_int n" 1000000 c "400000 * 2 ^ 24"] assms(3,4) by simp_all
  have "rnd_rat (rat_of_int ?M) = of_int ?M" by code_simp
  moreover have "rnd_rat (of_int n * c) \<le> rnd_rat (rat_of_int ?M)" by (rule rnd_rat_mono [OF b(2)])
  moreover have "0 \<le> rnd_rat (of_int n * c)" by (rule rnd_rat_nonneg [OF b(1)])
  moreover have "\<bar>of_int n * c\<bar> \<le> pow2 1023"
  proof -
    have "rat_of_int ?M \<le> pow2 63" by (simp add: pow2_def)
    moreover have "pow2 63 \<le> pow2 1023" by (simp only: pow2_le)
    ultimately show ?thesis using b by linarith
  qed
  ultimately obtain r where r: "dbl n * Fin c = Fin r" "0 \<le> r" "r \<le> of_int ?M"
    by (simp add: n dbl_simps rnd_Fin)
  show ?thesis unfolding r(1) using llround_range [OF r(2,3)] by simp
qed

text \<open>Whatever the model, the hardware, the prefill knob and the options, the derived point is in
  range: a decode count from 0 to 1,000,000, a balance context from 1,000 up to the widened
  bracket, a KV target that fits 64 bits, and pools and bounds that follow from the count: no
  conversion in the derivation is undefined for them and none of them overflows.\<close>
theorem derive_bounds:
  assumes "op = derive_operating_point m hw P opts"
  shows "(\<exists>c. ctx_balance op = Fin c \<and> 1000 \<le> c \<and> c \<le> 400000 * 2 ^ 24)
    \<and> 0 \<le> decode_count_target op \<and> decode_count_target op \<le> 1000000
    \<and> 0 \<le> kv_operating_target op \<and> kv_operating_target op < 2 ^ 63
    \<and> node_min op = 2 * decode_count_target op \<and> node_max op = node_min op + opt_node_max_surplus opts
    \<and> decode_pool op = 2 * decode_count_target op + opt_decode_surplus opts
    \<and> ffn_batch op = decode_count_target op + P \<and> balance_time_us op = t_ffn_us (ffn_batch op) m hw"
proof -
  obtain lo c hi where c: "derive_ctx P m hw = Fin c" "ctx_bracket (\<lambda>c. balance_residual c P m hw < dlit 0) lo c hi"
    using derive_ctx_result by blast
  then have cb: "1000 \<le> c" "c \<le> 400000 * 2 ^ 24" by (auto simp: ctx_bracket_def)
  obtain r :: rat where n: "narrow32 (llround (ndec_ffn_eq_gpua (Fin c) P m hw)) = \<lfloor>r + 1 / 2\<rfloor>"
    "0 \<le> \<lfloor>r + 1 / 2\<rfloor>" "\<lfloor>r + 1 / 2\<rfloor> \<le> 1000000" using round_count [of "Fin c" P m hw] by blast
  have "0 \<le> llround (dbl \<lfloor>r + 1 / 2\<rfloor> * Fin c) \<and> llround (dbl \<lfloor>r + 1 / 2\<rfloor> * Fin c) \<le> 1000000 * (400000 * 2 ^ 24)"
    using cb by (intro target_range n(2,3)) simp_all
  then show ?thesis using c(1) cb n by (simp add: assms derive_operating_point_def Let_def)
qed

text \<open>The derived point of the deployment.\<close>

theorem derive_bounds_witness:
  "0 \<le> decode_count_target (derive_operating_point llama70b b200 128 default_options)
   \<and> decode_pool (derive_operating_point llama70b b200 128 default_options)
      = 2 * decode_count_target (derive_operating_point llama70b b200 128 default_options) + 25"
  using derive_bounds [OF refl, of llama70b b200 128 default_options] by (simp add: default_options_def)

text \<open>C31: The derived context balances the resources: it lies in an interval of at most 1/128 token at whose
  ends the residual \<open>t_pim - t_ffn\<close> has different signs, unless 24 doublings of the bracket
  found no change of sign; and the decode count is the rounded end of such a search for
  \<open>t_ffn = t_gpu_a\<close> at this context, of width 2^-30, or 0 where the GPU never catches up.\<close>
theorem derive_balances:
  assumes "op = derive_operating_point m hw P opts"
  shows "\<exists>lo c hi. ctx_balance op = Fin c
    \<and> ctx_bracket (\<lambda>c. balance_residual c P m hw < dlit 0) lo c hi
    \<and> (let f = ffn_minus_gpua (llround (dbl P * Fin c)) P m hw
       in if dlit 0 < f (dlit 0) then decode_count_target op = 0
          else \<exists>nlo n nhi. ndec_bracket f nlo n nhi \<and> decode_count_target op = \<lfloor>n + 1 / 2\<rfloor>)"
proof -
  obtain lo c hi where c: "derive_ctx P m hw = Fin c" "ctx_bracket (\<lambda>c. balance_residual c P m hw < dlit 0) lo c hi"
    using derive_ctx_result by blast
  obtain r where n: "ndec_ffn_eq_gpua (Fin c) P m hw = Fin r"
    "narrow32 (llround (ndec_ffn_eq_gpua (Fin c) P m hw)) = \<lfloor>r + 1 / 2\<rfloor>" using round_count [of "Fin c" P m hw] by auto
  have op: "ctx_balance op = Fin c" "decode_count_target op = \<lfloor>r + 1 / 2\<rfloor>"
    using c(1) n by (simp_all add: assms derive_operating_point_def Let_def)
  have half: "\<lfloor>1 / 2 :: rat\<rfloor> = 0" by (rule floor_unique) simp_all
  let ?f = "ffn_minus_gpua (llround (dbl P * Fin c)) P m hw"
  have "if dlit 0 < ?f (dlit 0) then \<lfloor>r + 1 / 2\<rfloor> = 0
      else \<exists>nlo n nhi. ndec_bracket ?f nlo n nhi \<and> \<lfloor>r + 1 / 2\<rfloor> = \<lfloor>n + 1 / 2\<rfloor>"
    using ndec_result [of P "Fin c" m hw] n(1) half by auto
  with c op show ?thesis by (auto simp: Let_def)
qed

theorem derive_balances_witness:
  "\<exists>lo c hi. ctx_balance (derive_operating_point llama70b b200 128 default_options) = Fin c
    \<and> ctx_bracket (\<lambda>c. balance_residual c 128 llama70b b200 < dlit 0) lo c hi"
  using derive_balances [OF refl, of llama70b b200 128 default_options] by blast

text \<open>The HBM capacity of the deployment comes out of the JEDEC figures as the double nearest to
  4.096 TB at 16 dies, and 3.072 TB at 12 dies; so it is for every option but the height.\<close>
theorem hbm_capacity_deployment:
  "hbm_capacity b200 (opts\<lparr>opt_hbm_stack_height := 16\<rparr>) = dlit (4096 / 1000)
   \<and> hbm_capacity b200 (opts\<lparr>opt_hbm_stack_height := 12\<rparr>) = dlit (3072 / 1000)"
proof -
  have "hbm_capacity b200 (default_options\<lparr>opt_hbm_stack_height := 16\<rparr>) = dlit (4096 / 1000)"
    "hbm_capacity b200 (default_options\<lparr>opt_hbm_stack_height := 12\<rparr>) = dlit (3072 / 1000)" by code_simp+
  then show ?thesis by (simp add: hbm_capacity_def)
qed

end
