(* ===== verification/Steering.thy ===== *)
theory Steering
  imports Spec_Model
begin

text \<open>
  \<open>core/steering.cpp\<close>: the greedy selections of a node. A decode batch takes decoders until
  the count or the KV target is reached, first the aged ones (longest wait first), then the
  one closest to the running ideal; a prefill batch hands out its token budget one token at
  a time by the same rule on depths. \<open>sel = -1\<close> of the source is \<open>None\<close>.
\<close>

section \<open>The model\<close>

record Decoder =
  kv_length :: int
  wait :: int

record PrefillReq =
  pr_prompt :: int
  pr_processed :: int
  pr_wait :: int

subsection \<open>Decode batches\<close>

definition decode_forced :: "Decoder list \<Rightarrow> OperatingPoint \<Rightarrow> bool list \<Rightarrow> nat option" where
  "decode_forced pool op used =
     scan_best (\<lambda>i. \<not> used ! i \<and> age_cap op \<le> wait (pool ! i)) (\<lambda>i. wait (pool ! i)) (>) (- 1) (length pool)"

definition decode_ideal :: "OperatingPoint \<Rightarrow> int \<Rightarrow> int \<Rightarrow> double" where
  "decode_ideal op S n = dbl (kv_operating_target op - S) / dbl (decode_count_target op - n)"

definition decode_near :: "Decoder list \<Rightarrow> OperatingPoint \<Rightarrow> bool list \<Rightarrow> int \<Rightarrow> int \<Rightarrow> nat option" where
  "decode_near pool op used S n =
     scan_best (\<lambda>i. \<not> used ! i) (\<lambda>i. \<bar>dbl (kv_length (pool ! i)) - decode_ideal op S n\<bar>) (<)
       (dlit (10 ^ 18)) (length pool)"

definition decode_pick :: "Decoder list \<Rightarrow> OperatingPoint \<Rightarrow> bool list \<Rightarrow> int \<Rightarrow> int \<Rightarrow> nat option" where
  "decode_pick pool op used S n =
     (case decode_forced pool op used of
        Some sel \<Rightarrow> Some sel
      | None \<Rightarrow> decode_near pool op used S n)"

function steer_decode_loop ::
  "Decoder list \<Rightarrow> OperatingPoint \<Rightarrow> bool list \<Rightarrow> int \<Rightarrow> int \<Rightarrow> nat list \<times> bool list" where
  "steer_decode_loop pool op used S n =
     (if n < decode_count_target op \<and> S < kv_operating_target op
      then (case decode_pick pool op used S n of
              None \<Rightarrow> ([], used)
            | Some sel \<Rightarrow>
                (case steer_decode_loop pool op (used[sel := True]) (S + kv_length (pool ! sel)) (n + 1) of
                   (selected, used') \<Rightarrow> (sel # selected, used')))
      else ([], used))"
  by pat_completeness auto
termination
  by (relation "measure (\<lambda>(pool, op, used, S, n). nat (decode_count_target op - n))") auto

declare steer_decode_loop.simps [simp del]

definition steer_decode_set :: "Decoder list \<Rightarrow> bool list \<Rightarrow> OperatingPoint \<Rightarrow> nat list \<times> bool list" where
  "steer_decode_set pool used op = steer_decode_loop pool op used 0 0"

subsection \<open>Prefill chunks\<close>

definition prefill_forced :: "PrefillReq list \<Rightarrow> OperatingPoint \<Rightarrow> int list \<Rightarrow> nat option" where
  "prefill_forced pool op chunk =
     scan_best (\<lambda>i. age_cap op \<le> pr_wait (pool ! i) \<and> chunk ! i = 0
         \<and> pr_processed (pool ! i) + chunk ! i < pr_prompt (pool ! i))
       (\<lambda>i. pr_wait (pool ! i)) (>) (- 1) (length pool)"

definition prefill_ideal :: "OperatingPoint \<Rightarrow> int \<Rightarrow> int \<Rightarrow> double" where
  "prefill_ideal op W T = dbl (prefill_kv_work_target op - W) / dbl (prefill_tokens op - T)"

definition prefill_near :: "PrefillReq list \<Rightarrow> OperatingPoint \<Rightarrow> int list \<Rightarrow> int \<Rightarrow> int \<Rightarrow> nat option" where
  "prefill_near pool op chunk W T =
     scan_best (\<lambda>i. \<not> pr_prompt (pool ! i) \<le> pr_processed (pool ! i) + chunk ! i)
       (\<lambda>i. \<bar>dbl (pr_processed (pool ! i) + chunk ! i + 1) - prefill_ideal op W T\<bar>) (<)
       (dlit (10 ^ 18)) (length pool)"

definition prefill_pick :: "PrefillReq list \<Rightarrow> OperatingPoint \<Rightarrow> int list \<Rightarrow> int \<Rightarrow> int \<Rightarrow> nat option" where
  "prefill_pick pool op chunk W T =
     (case prefill_forced pool op chunk of
        Some sel \<Rightarrow> Some sel
      | None \<Rightarrow> prefill_near pool op chunk W T)"

text \<open>The loop returns its whole state: the chunks, the work \<open>W\<close> and the tokens \<open>T\<close> given out.\<close>

function steer_prefill_loop ::
  "PrefillReq list \<Rightarrow> OperatingPoint \<Rightarrow> int list \<Rightarrow> int \<Rightarrow> int \<Rightarrow> int list \<times> int \<times> int" where
  "steer_prefill_loop pool op chunk W T =
     (if T < prefill_tokens op
      then (case prefill_pick pool op chunk W T of
              None \<Rightarrow> (chunk, W, T)
            | Some sel \<Rightarrow>
                let chunk' = chunk[sel := chunk ! sel + 1]
                in steer_prefill_loop pool op chunk' (W + pr_processed (pool ! sel) + chunk' ! sel) (T + 1))
      else (chunk, W, T))"
  by pat_completeness auto
termination
  by (relation "measure (\<lambda>(pool, op, chunk, W, T). nat (prefill_tokens op - T))") auto

declare steer_prefill_loop.simps [simp del]

definition steer_prefill_chunks :: "PrefillReq list \<Rightarrow> OperatingPoint \<Rightarrow> int list" where
  "steer_prefill_chunks pool op = fst (steer_prefill_loop pool op (replicate (length pool) 0) 0 0)"

subsection \<open>Ageing\<close>

definition age_update :: "Decoder list \<Rightarrow> nat list \<Rightarrow> Decoder list" where
  "age_update pool selected =
     (let is_sel = fold (\<lambda>idx m. m[idx := True]) selected (replicate (length pool) False)
      in map (\<lambda>i. if is_sel ! i then (pool ! i)\<lparr>wait := 0\<rparr> else (pool ! i)\<lparr>wait := wait (pool ! i) + 1\<rparr>)
           [0..<length pool])"

subsection \<open>The two batches of a round\<close>

text \<open>
  Every caller composes a round the same way: a mask of unused decoders, one batch, and a
  second one over the shared mask when the pool holds two full batches. The result is the
  first batch, the second one if there was one, and the mask.
\<close>

definition compose_round :: "Decoder list \<Rightarrow> OperatingPoint \<Rightarrow> nat list \<times> nat list option \<times> bool list" where
  "compose_round pool op =
     (case steer_decode_set pool (replicate (length pool) False) op of
        (p1, used) \<Rightarrow>
          if 2 * decode_count_target op \<le> int (length pool)
          then (case steer_decode_set pool used op of (p2, used) \<Rightarrow> (p1, Some p2, used))
          else (p1, None, used))"

section \<open>Decode batches: one selection\<close>

definition eligible :: "Decoder list \<Rightarrow> bool list \<Rightarrow> nat \<Rightarrow> bool" where
  "eligible pool used i \<longleftrightarrow> i < length pool \<and> \<not> used ! i"

definition aged :: "Decoder list \<Rightarrow> OperatingPoint \<Rightarrow> nat \<Rightarrow> bool" where
  "aged pool op i \<longleftrightarrow> age_cap op \<le> wait (pool ! i)"

text \<open>Waiting times are never negative: they start at 0 and are reset or counted up.\<close>

definition waits_ok :: "Decoder list \<Rightarrow> bool" where
  "waits_ok pool \<longleftrightarrow> (\<forall>q \<in> set pool. 0 \<le> wait q)"

lemma decode_pick_eligible: "decode_pick pool op used S n = Some i \<Longrightarrow> eligible pool used i"
  by (auto simp: decode_pick_def decode_forced_def decode_near_def eligible_def
      split: option.splits dest: int_gt.scan_Some dbl_lt.scan_Some)

lemma decode_forced_None:
  "waits_ok pool \<Longrightarrow> decode_forced pool op used = None \<longleftrightarrow> (\<forall>i. eligible pool used i \<longrightarrow> \<not> aged pool op i)"
proof -
  assume "waits_ok pool"
  then have "- 1 < wait (pool ! j)" if "j < length pool" for j
    using that nth_mem [OF that] by (auto simp: waits_ok_def intro: less_le_trans [of _ 0])
  then show ?thesis unfolding decode_forced_def int_gt.scan_None
    by (auto simp: eligible_def aged_def)
qed

lemma decode_pick_oldest:
  assumes "decode_pick pool op used S n = Some i" and "eligible pool used j" and "aged pool op j" and "waits_ok pool"
  shows "aged pool op i" and "wait (pool ! j) \<le> wait (pool ! i)"
proof -
  have "decode_forced pool op used \<noteq> None"
    using assms(2-4) by (auto simp: decode_forced_None)
  then have "decode_forced pool op used = Some i"
    using assms(1) by (auto simp: decode_pick_def)
  from int_gt.scan_Some [OF this [unfolded decode_forced_def]] assms(2,3)
  show "aged pool op i" and "wait (pool ! j) \<le> wait (pool ! i)"
    by (auto simp: aged_def eligible_def not_less)
qed

lemma decode_pick_nearest:
  assumes "decode_pick pool op used S n = Some i" and "\<And>j. eligible pool used j \<Longrightarrow> \<not> aged pool op j"
    and "waits_ok pool" and "eligible pool used j"
  shows "\<not> \<bar>dbl (kv_length (pool ! j)) - decode_ideal op S n\<bar> < \<bar>dbl (kv_length (pool ! i)) - decode_ideal op S n\<bar>"
proof -
  have "decode_near pool op used S n = Some i"
    using assms(1) decode_forced_None [OF assms(3), of op used] assms(2)
    by (simp add: decode_pick_def)
  from dbl_lt.scan_Some(4) [OF this [unfolded decode_near_def]] assms(4)
  show ?thesis by (simp add: eligible_def)
qed

section \<open>Decode batches: the loop\<close>

lemma steer_decode_loop_unfold:
  "steer_decode_loop pool op used S n =
     (if n < decode_count_target op \<and> S < kv_operating_target op
      then (case decode_pick pool op used S n of
              None \<Rightarrow> ([], used)
            | Some i \<Rightarrow> (i # fst (steer_decode_loop pool op (used[i := True]) (S + kv_length (pool ! i)) (n + 1)),
                snd (steer_decode_loop pool op (used[i := True]) (S + kv_length (pool ! i)) (n + 1))))
      else ([], used))"
  by (subst steer_decode_loop.simps) (simp split: option.splits prod.splits)

text \<open>
  A batch as a list of stages: before the k-th selection the first k are marked, counted
  and summed.
\<close>

definition mark :: "nat list \<Rightarrow> bool list \<Rightarrow> bool list" where
  "mark sel used = fold (\<lambda>i u. u[i := True]) sel used"

lemma mark_simps [simp]: "mark [] used = used" "mark (i # sel) used = mark sel (used[i := True])"
  by (simp_all add: mark_def)

lemma length_mark [simp]: "length (mark sel used) = length used"
  by (induction sel arbitrary: used) auto

lemma mark_nth: "i < length used \<Longrightarrow> mark sel used ! i \<longleftrightarrow> used ! i \<or> i \<in> set sel"
proof (induction sel arbitrary: used)
  case (Cons a sel)
  then show ?case using Cons.IH [of "used[a := True]"] by (cases "i = a") auto
qed simp

definition kv_sum :: "Decoder list \<Rightarrow> nat list \<Rightarrow> int" where
  "kv_sum pool sel = (\<Sum>i \<leftarrow> sel. kv_length (pool ! i))"

lemma kv_sum_simps [simp]:
  "kv_sum pool [] = 0" "kv_sum pool (i # sel) = kv_length (pool ! i) + kv_sum pool sel"
  by (simp_all add: kv_sum_def)

lemma steer_loop_induct [consumes 1, case_names stop none pick]:
  assumes "steer_decode_loop pool op used S n = (sel, used')"
    and "\<And>used S n. \<not> (n < decode_count_target op \<and> S < kv_operating_target op) \<Longrightarrow> P used S n [] used"
    and "\<And>used S n. n < decode_count_target op \<Longrightarrow> S < kv_operating_target op \<Longrightarrow>
      decode_pick pool op used S n = None \<Longrightarrow> P used S n [] used"
    and "\<And>used S n i sel used'. n < decode_count_target op \<Longrightarrow> S < kv_operating_target op \<Longrightarrow>
      decode_pick pool op used S n = Some i \<Longrightarrow>
      P (used[i := True]) (S + kv_length (pool ! i)) (n + 1) sel used' \<Longrightarrow> P used S n (i # sel) used'"
  shows "P used S n sel used'"
  using assms(1)
proof (induction "nat (decode_count_target op - n)" arbitrary: used S n sel used' rule: less_induct)
  case less
  show ?case
  proof (cases "n < decode_count_target op \<and> S < kv_operating_target op")
    case False
    then show ?thesis
      using less.prems assms(2) [OF False] by (auto simp: steer_decode_loop_unfold [of pool op used S n])
  next
    case True
    show ?thesis
    proof (cases "decode_pick pool op used S n")
      case None
      then show ?thesis using True less.prems assms(3) [of n S used]
        by (auto simp: steer_decode_loop_unfold [of pool op used S n])
    next
      case (Some i)
      obtain sel2 u2 where r: "steer_decode_loop pool op (used[i := True]) (S + kv_length (pool ! i)) (n + 1) = (sel2, u2)"
        by fastforce
      with less.prems True Some have e: "sel = i # sel2" "used' = u2"
        by (simp_all add: steer_decode_loop_unfold [of pool op used S n])
      have "P (used[i := True]) (S + kv_length (pool ! i)) (n + 1) sel2 u2"
        using True by (intro less.hyps [OF _ r]) auto
      with True Some show ?thesis unfolding e by (intro assms(4)) auto
    qed
  qed
qed

text \<open>The stages of a batch.\<close>

lemma steer_loop_stages:
  assumes "steer_decode_loop pool op used S n = (sel, used')"
  shows "used' = mark sel used
    \<and> (\<forall>k < length sel. n + int k < decode_count_target op \<and> S + kv_sum pool (take k sel) < kv_operating_target op
         \<and> decode_pick pool op (mark (take k sel) used) (S + kv_sum pool (take k sel)) (n + int k) = Some (sel ! k))
    \<and> (n + int (length sel) < decode_count_target op \<and> S + kv_sum pool sel < kv_operating_target op
         \<longrightarrow> decode_pick pool op used' (S + kv_sum pool sel) (n + int (length sel)) = None)"
  using assms
proof (induction rule: steer_loop_induct)
  case (stop used S n)
  then show ?case by auto
next
  case (none used S n)
  then show ?case by auto
next
  case (pick used S n i sel used')
  then show ?case by (auto simp: less_Suc_eq_0_disj algebra_simps)
qed

lemma steer_loop_sel:
  assumes "steer_decode_loop pool op used S n = (sel, used')" and "length used = length pool"
  shows "distinct sel \<and> (\<forall>i \<in> set sel. eligible pool used i)"
  using assms
proof (induction rule: steer_loop_induct)
  case (pick used S n i sel used')
  have e: "eligible pool used i" using decode_pick_eligible [OF pick.hyps(3)] .
  with pick have "\<forall>j \<in> set sel. eligible pool (used[i := True]) j" "distinct sel" by simp_all
  with e pick.prems show ?case
    by (auto simp: eligible_def nth_list_update split: if_splits)
qed auto


lemma mark_eligible: "length used = length pool \<Longrightarrow> eligible pool (mark sel used) j \<longleftrightarrow> eligible pool used j \<and> j \<notin> set sel"
  by (auto simp: eligible_def mark_nth)

lemma steer_loop_no_overtake:
  assumes "steer_decode_loop pool op used S n = (sel, used')" and "length used = length pool"
    and "waits_ok pool" and "eligible pool used' j" and "aged pool op j" and "i \<in> set sel"
  shows "aged pool op i \<and> wait (pool ! j) \<le> wait (pool ! i)"
proof -
  note st = steer_loop_stages [OF assms(1)]
  obtain k where k: "k < length sel" "sel ! k = i" using assms(6) by (auto simp: in_set_conv_nth)
  from st k have "decode_pick pool op (mark (take k sel) used) (S + kv_sum pool (take k sel)) (n + int k) = Some i"
    by auto
  moreover from st assms(2,4) have "eligible pool (mark (take k sel) used) j"
    by (auto simp: mark_eligible dest: in_set_takeD)
  ultimately show ?thesis using decode_pick_oldest assms(3,5) by blast
qed

lemma steer_loop_nonempty:
  assumes "steer_decode_loop pool op used S n = (sel, used')"
    and "n < decode_count_target op" and "S < kv_operating_target op"
    and "eligible pool used j" and "aged pool op j" and "waits_ok pool"
  shows "sel \<noteq> []"
proof
  assume "sel = []"
  with steer_loop_stages [OF assms(1)] assms(2,3) have "decode_pick pool op used S n = None" by auto
  then have "decode_forced pool op used = None" by (simp add: decode_pick_def split: option.splits)
  with assms(4-6) show False by (auto simp: decode_forced_None)
qed

section \<open>Decode batches: the distances are below the initial bound\<close>

text \<open>Lengths and targets up to \<open>2^58\<close>, counts of a 32-bit integer.\<close>

definition decode_range :: "Decoder list \<Rightarrow> OperatingPoint \<Rightarrow> bool" where
  "decode_range pool op \<longleftrightarrow> (\<forall>q \<in> set pool. 0 \<le> kv_length q \<and> kv_length q \<le> 2 ^ 58)
     \<and> kv_operating_target op \<le> 2 ^ 58 \<and> decode_count_target op < 2 ^ 31"

lemma decode_pick_None:
  assumes "decode_pick pool op used S n = None" and "decode_range pool op"
    and "n < decode_count_target op" and "S < kv_operating_target op" and "0 \<le> S" and "0 \<le> n"
  shows "\<not> eligible pool used j"
proof
  assume j: "eligible pool used j"
  then have L: "0 \<le> kv_length (pool ! j)" "kv_length (pool ! j) \<le> 2 ^ 58"
    using assms(2) by (auto simp: decode_range_def eligible_def)
  have "\<bar>dbl (kv_length (pool ! j)) - decode_ideal op S n\<bar> < dlit (10 ^ 18)"
    unfolding decode_ideal_def using assms L by (intro dist_bound) (auto simp: decode_range_def)
  moreover have "decode_near pool op used S n = None"
    using assms(1) by (simp add: decode_pick_def split: option.splits)
  ultimately show False using j by (auto simp: decode_near_def dbl_lt.scan_None eligible_def)
qed

lemma kv_sum_nonneg:
  assumes "decode_range pool op" and "\<forall>i \<in> set sel. i < length pool" shows "0 \<le> kv_sum pool sel"
  using assms(2)
proof (induction sel)
  case (Cons i sel)
  then have "0 \<le> kv_length (pool ! i)" using assms(1) by (auto simp: decode_range_def)
  with Cons show ?case by simp
qed simp


section \<open>Prefill chunks\<close>

lemma prefill_pick_ok:
  "prefill_pick pool op chunk W T = Some i \<Longrightarrow>
     i < length pool \<and> pr_processed (pool ! i) + chunk ! i < pr_prompt (pool ! i)"
  by (auto simp: prefill_pick_def prefill_forced_def prefill_near_def not_le
      split: option.splits dest: int_gt.scan_Some dbl_lt.scan_Some)

definition pf_waiting :: "PrefillReq list \<Rightarrow> OperatingPoint \<Rightarrow> int list \<Rightarrow> nat \<Rightarrow> bool" where
  "pf_waiting pool op chunk i \<longleftrightarrow> i < length pool \<and> age_cap op \<le> pr_wait (pool ! i) \<and> chunk ! i = 0
     \<and> pr_processed (pool ! i) < pr_prompt (pool ! i)"

definition pf_waits_ok :: "PrefillReq list \<Rightarrow> bool" where
  "pf_waits_ok pool \<longleftrightarrow> (\<forall>q \<in> set pool. 0 \<le> pr_wait q)"

lemma prefill_pick_oldest:
  assumes "prefill_pick pool op chunk W T = Some i" and "pf_waiting pool op chunk j" and "pf_waits_ok pool"
  shows "pf_waiting pool op chunk i" and "pr_wait (pool ! j) \<le> pr_wait (pool ! i)"
proof -
  have "0 \<le> pr_wait (pool ! j)" using assms(2,3) by (auto simp: pf_waiting_def pf_waits_ok_def)
  then have "prefill_forced pool op chunk \<noteq> None"
    using assms(2) by (auto simp: prefill_forced_def int_gt.scan_None pf_waiting_def intro!: exI [of _ j])
  then have "prefill_forced pool op chunk = Some i"
    using assms(1) by (auto simp: prefill_pick_def)
  from int_gt.scan_Some [OF this [unfolded prefill_forced_def]] assms(2)
  show "pf_waiting pool op chunk i" and "pr_wait (pool ! j) \<le> pr_wait (pool ! i)"
    by (auto simp: pf_waiting_def not_less)
qed

lemma prefill_loop_induct [consumes 1, case_names stop none pick]:
  assumes "steer_prefill_loop pool op chunk W T = res"
    and "\<And>chunk W T. \<not> T < prefill_tokens op \<Longrightarrow> P chunk W T (chunk, W, T)"
    and "\<And>chunk W T. T < prefill_tokens op \<Longrightarrow> prefill_pick pool op chunk W T = None \<Longrightarrow> P chunk W T (chunk, W, T)"
    and "\<And>chunk W T i res. T < prefill_tokens op \<Longrightarrow> prefill_pick pool op chunk W T = Some i \<Longrightarrow>
      P (chunk[i := chunk ! i + 1]) (W + pr_processed (pool ! i) + chunk[i := chunk ! i + 1] ! i) (T + 1) res \<Longrightarrow>
      P chunk W T res"
  shows "P chunk W T res"
  using assms(1)
proof (induction "nat (prefill_tokens op - T)" arbitrary: chunk W T rule: less_induct)
  case less
  note unf = steer_prefill_loop.simps [of pool op chunk W T]
  consider "\<not> T < prefill_tokens op" | "T < prefill_tokens op" "prefill_pick pool op chunk W T = None"
    | i where "T < prefill_tokens op" "prefill_pick pool op chunk W T = Some i" by fastforce
  then show ?case
  proof cases
    case 1
    then show ?thesis using less.prems assms(2) [OF 1] by (auto simp: unf)
  next
    case 2
    then show ?thesis using less.prems assms(3) [OF 2] by (auto simp: unf)
  next
    case 3
    then have r: "steer_prefill_loop pool op (chunk[i := chunk ! i + 1])
        (W + pr_processed (pool ! i) + chunk[i := chunk ! i + 1] ! i) (T + 1) = res"
      using less.prems by (simp add: unf Let_def)
    show ?thesis by (rule assms(4) [OF 3 less.hyps [OF _ r]]) (use 3 in auto)
  qed
qed

text \<open>The work of a chunk: the depths \<open>processed + 1, ..., processed + chunk\<close> added up.\<close>

definition pf_work :: "PrefillReq list \<Rightarrow> int list \<Rightarrow> int" where
  "pf_work pool chunk =
     (\<Sum>i<length pool. chunk ! i * pr_processed (pool ! i) + chunk ! i * (chunk ! i + 1) div 2)"

definition pf_tokens :: "PrefillReq list \<Rightarrow> int list \<Rightarrow> int" where
  "pf_tokens pool chunk = (\<Sum>i<length pool. chunk ! i)"

definition pf_inv :: "PrefillReq list \<Rightarrow> int list \<Rightarrow> int \<Rightarrow> int \<Rightarrow> bool" where
  "pf_inv pool chunk W T \<longleftrightarrow> length chunk = length pool
     \<and> (\<forall>i<length pool. 0 \<le> chunk ! i
          \<and> (chunk ! i \<noteq> 0 \<longrightarrow> pr_processed (pool ! i) + chunk ! i \<le> pr_prompt (pool ! i)))
     \<and> T = pf_tokens pool chunk \<and> W = pf_work pool chunk"

lemma triangle_Suc: "(c + 1) * (c + 2) div 2 = c * (c + 1) div 2 + (c + 1 :: int)"
proof -
  have "(c + 1) * (c + 2) = c * (c + 1) + (c + 1) * 2" by (simp add: algebra_simps)
  moreover have "(c * (c + 1) + (c + 1) * 2) div 2 = (c + 1) + c * (c + 1) div 2"
    by (rule div_mult_self1) simp
  ultimately show ?thesis by simp
qed

lemma pf_inv_step:
  assumes "pf_inv pool chunk W T" and "prefill_pick pool op chunk W T = Some i"
  shows "pf_inv pool (chunk[i := chunk ! i + 1])
     (W + pr_processed (pool ! i) + chunk[i := chunk ! i + 1] ! i) (T + 1)"
proof -
  have i: "i < length pool" "i < length chunk"
    "pr_processed (pool ! i) + chunk ! i < pr_prompt (pool ! i)"
    using prefill_pick_ok [OF assms(2)] assms(1) by (auto simp: pf_inv_def)
  have "pf_tokens pool (chunk[i := chunk ! i + 1]) = pf_tokens pool chunk + 1"
    using sum_update [of i "length pool" chunk "\<lambda>_ c. c"] i assms(1)
    by (simp add: pf_tokens_def pf_inv_def)
  moreover have "pf_work pool (chunk[i := chunk ! i + 1]) = pf_work pool chunk + pr_processed (pool ! i) + (chunk ! i + 1)"
    using sum_update [of i "length pool" chunk "\<lambda>i c. c * pr_processed (pool ! i) + c * (c + 1) div 2"]
      i assms(1) triangle_Suc [of "chunk ! i"]
    by (simp add: pf_work_def pf_inv_def distrib_right add.assoc)
  ultimately show ?thesis using assms(1) i by (auto simp: pf_inv_def nth_list_update)
qed

lemma prefill_loop_inv:
  assumes "steer_prefill_loop pool op chunk W T = (chunk', W', T')" and "pf_inv pool chunk W T"
    and "T \<le> max 0 (prefill_tokens op)"
  shows "pf_inv pool chunk' W' T' \<and> T' \<le> max 0 (prefill_tokens op)"
proof -
  have "pf_inv pool chunk W T \<longrightarrow> T \<le> max 0 (prefill_tokens op) \<longrightarrow>
      (case res of (chunk', W', T') \<Rightarrow> pf_inv pool chunk' W' T' \<and> T' \<le> max 0 (prefill_tokens op))"
    if "steer_prefill_loop pool op chunk W T = res" for res
    using that
  proof (induction rule: prefill_loop_induct)
    case (pick chunk W T i res)
    then show ?case using pf_inv_step [of pool chunk W T op i] by auto
  qed auto
  from this [OF assms(1)] assms(2,3) show ?thesis by simp
qed

lemma pf_inv_start: "pf_inv pool (replicate (length pool) 0) 0 0"
  by (simp add: pf_inv_def pf_tokens_def pf_work_def)

lemma prefill_loop_end:
  assumes "steer_prefill_loop pool op chunk W T = (chunk', W', T')"
  shows "prefill_tokens op \<le> T' \<or> prefill_pick pool op chunk' W' T' = None"
proof -
  have "case res of (chunk', W', T') \<Rightarrow> prefill_tokens op \<le> T' \<or> prefill_pick pool op chunk' W' T' = None"
    if "steer_prefill_loop pool op chunk W T = res" for res
    using that by (induction rule: prefill_loop_induct) (auto split: prod.splits)
  from this [OF assms] show ?thesis by simp
qed

text \<open>While an aged request has no token yet, every token goes to one that waits at least as long.\<close>

lemma prefill_loop_spread:
  assumes "steer_prefill_loop pool op chunk W T = (chunk', W', T')" and "length chunk = length pool"
    and "pf_waits_ok pool" and "pf_waiting pool op chunk' j" and "\<forall>i<length pool. 0 \<le> chunk ! i"
  shows "pf_waiting pool op chunk j \<and> (\<forall>i<length pool. chunk' ! i = chunk ! i
    \<or> (chunk ! i = 0 \<and> chunk' ! i = 1 \<and> pf_waiting pool op chunk i \<and> pr_wait (pool ! j) \<le> pr_wait (pool ! i)))"
proof -
  have "length chunk = length pool \<longrightarrow> (\<forall>i<length pool. 0 \<le> chunk ! i) \<longrightarrow> pf_waiting pool op (fst res) j \<longrightarrow>
    pf_waiting pool op chunk j \<and> (\<forall>i<length pool. fst res ! i = chunk ! i
    \<or> (chunk ! i = 0 \<and> fst res ! i = 1 \<and> pf_waiting pool op chunk i \<and> pr_wait (pool ! j) \<le> pr_wait (pool ! i)))"
    if "steer_prefill_loop pool op chunk W T = res" for res
    using that
  proof (induction rule: prefill_loop_induct)
    case (pick chunk W T i res)
    show ?case
    proof (intro impI)
      assume len: "length chunk = length pool" and nn: "\<forall>i<length pool. 0 \<le> chunk ! i"
        and w: "pf_waiting pool op (fst res) j"
      let ?c = "chunk[i := chunk ! i + 1]"
      have i: "i < length pool" using prefill_pick_ok [OF pick.hyps(2)] by simp
      have nn': "\<forall>k<length pool. 0 \<le> ?c ! k" using nn len i by (auto simp: nth_list_update)
      have IH: "pf_waiting pool op ?c j" "\<forall>k<length pool. fst res ! k = ?c ! k
        \<or> (?c ! k = 0 \<and> fst res ! k = 1 \<and> pf_waiting pool op ?c k \<and> pr_wait (pool ! j) \<le> pr_wait (pool ! k))"
        using pick.IH len nn' w by simp_all
      have ij: "i \<noteq> j" using IH(1) i len nn by (auto simp: pf_waiting_def)
      then have j: "pf_waiting pool op chunk j" using IH(1) by (simp add: pf_waiting_def)
      from prefill_pick_oldest [OF pick.hyps(2) j assms(3)]
      have wi: "pf_waiting pool op chunk i" "pr_wait (pool ! j) \<le> pr_wait (pool ! i)" .
      have "fst res ! k = chunk ! k \<or> (chunk ! k = 0 \<and> fst res ! k = 1 \<and> pf_waiting pool op chunk k
        \<and> pr_wait (pool ! j) \<le> pr_wait (pool ! k))" if k: "k < length pool" for k
      proof (cases "k = i")
        case True
        have "chunk ! i = 0" using wi(1) by (simp add: pf_waiting_def)
        moreover have "fst res ! i = chunk ! i + 1" using IH(2) i len \<open>chunk ! i = 0\<close> by auto
        ultimately show ?thesis using True wi by simp
      next
        case False
        then have "pf_waiting pool op ?c k \<longleftrightarrow> pf_waiting pool op chunk k" by (simp add: pf_waiting_def)
        moreover have "?c ! k = chunk ! k" using False by simp
        ultimately show ?thesis using IH(2) [rule_format, OF k] by simp
      qed
      with j show "pf_waiting pool op chunk j \<and> (\<forall>k<length pool. fst res ! k = chunk ! k
        \<or> (chunk ! k = 0 \<and> fst res ! k = 1 \<and> pf_waiting pool op chunk k \<and> pr_wait (pool ! j) \<le> pr_wait (pool ! k)))"
        by blast
    qed
  qed auto
  from this [OF assms(1)] assms(2,4,5) show ?thesis by simp
qed


lemma prefill_near_None:
  assumes "prefill_pick pool op chunk W T = None" and "T < prefill_tokens op" and "i < length pool"
    and "\<bar>pr_processed (pool ! i) + chunk ! i + 1\<bar> \<le> 2 ^ 58"
    and "\<bar>prefill_kv_work_target op - W\<bar> \<le> 2 ^ 58" and "prefill_tokens op - T < 2 ^ 31"
  shows "pr_prompt (pool ! i) \<le> pr_processed (pool ! i) + chunk ! i"
proof (rule ccontr)
  assume "\<not> ?thesis"
  moreover have "prefill_near pool op chunk W T = None"
    using assms(1) by (simp add: prefill_pick_def split: option.splits)
  ultimately have "\<not> \<bar>dbl (pr_processed (pool ! i) + chunk ! i + 1) - prefill_ideal op W T\<bar> < dlit (10 ^ 18)"
    using assms(3) by (auto simp: prefill_near_def dbl_lt.scan_None)
  moreover have "\<bar>dbl (pr_processed (pool ! i) + chunk ! i + 1) - prefill_ideal op W T\<bar> < dlit (10 ^ 18)"
    unfolding prefill_ideal_def using assms by (intro dist_bound) auto
  ultimately show False by simp
qed

text \<open>Prompts and token counts of 32-bit integers, a budget of at most \<open>2^20\<close> tokens.\<close>

definition prefill_range :: "PrefillReq list \<Rightarrow> OperatingPoint \<Rightarrow> bool" where
  "prefill_range pool op \<longleftrightarrow> (\<forall>q \<in> set pool. 0 \<le> pr_processed q \<and> pr_processed q < 2 ^ 31 \<and> pr_prompt q < 2 ^ 31)
     \<and> prefill_tokens op \<le> 2 ^ 20 \<and> 0 \<le> prefill_kv_work_target op \<and> prefill_kv_work_target op \<le> 2 ^ 57"

lemma pf_chunk_lt:
  assumes "prefill_range pool op" and "pf_inv pool chunk W T" and "i < length pool"
  shows "0 \<le> pr_processed (pool ! i)" and "pr_processed (pool ! i) + chunk ! i < 2 ^ 31" and "0 \<le> chunk ! i"
  using assms nth_mem [OF assms(3)] unfolding prefill_range_def pf_inv_def
  by (cases "chunk ! i = 0"; fastforce)+

lemma pf_work_bound:
  assumes "prefill_range pool op" and "pf_inv pool chunk W T"
  shows "0 \<le> W" and "W \<le> T * 2 ^ 31"
proof -
  have t: "0 \<le> chunk ! i * pr_processed (pool ! i) + chunk ! i * (chunk ! i + 1) div 2
      \<and> chunk ! i * pr_processed (pool ! i) + chunk ! i * (chunk ! i + 1) div 2 \<le> chunk ! i * 2 ^ 31"
    if i: "i < length pool" for i
  proof -
    let ?c = "chunk ! i" and ?p = "pr_processed (pool ! i)"
    note b = pf_chunk_lt [OF assms i]
    have "?c * (?c + 1) \<le> ?c * ?c * 2" using b(3) by (cases "?c = 0") (auto simp: distrib_left)
    then have "?c * (?c + 1) div 2 \<le> ?c * ?c" by linarith
    moreover have "?c * ?p + ?c * ?c \<le> ?c * 2 ^ 31"
      using mult_left_mono [of "?p + ?c" "2 ^ 31" ?c] b by (simp add: distrib_left)
    moreover have "0 \<le> ?c * ?p" "0 \<le> ?c * (?c + 1)" using b by simp_all
    ultimately show ?thesis by linarith
  qed
  have W: "W = pf_work pool chunk" and T: "T = (\<Sum>i<length pool. chunk ! i)"
    using assms(2) by (simp_all add: pf_inv_def pf_tokens_def)
  show "0 \<le> W" unfolding W pf_work_def using t by (intro sum_nonneg) auto
  show "W \<le> T * 2 ^ 31"
    unfolding W T pf_work_def sum_distrib_right using t by (intro sum_mono) auto
qed

section \<open>Ageing\<close>

lemma fold_mark: "fold (\<lambda>idx m. m[idx := True]) sel used = mark sel used"
  by (simp add: mark_def)

lemma age_update_nth:
  "i < length pool \<Longrightarrow> age_update pool sel ! i =
     (if i \<in> set sel then (pool ! i)\<lparr>wait := 0\<rparr> else (pool ! i)\<lparr>wait := wait (pool ! i) + 1\<rparr>)"
  by (simp add: age_update_def fold_mark mark_nth Let_def)

lemma length_age_update [simp]: "length (age_update pool sel) = length pool"
  by (simp add: age_update_def Let_def)

section \<open>A round\<close>

lemma compose_round_mask:
  assumes "compose_round pool op = (p1, p2, used)"
  shows "length used = length pool"
    and "i < length pool \<Longrightarrow> used ! i \<longleftrightarrow> i \<in> set p1 \<or> (case p2 of None \<Rightarrow> False | Some p \<Rightarrow> i \<in> set p)"
proof -
  obtain q1 u1 where r1: "steer_decode_set pool (replicate (length pool) False) op = (q1, u1)" by fastforce
  obtain q2 u2 where r2: "steer_decode_set pool u1 op = (q2, u2)" by fastforce
  have u: "u1 = mark q1 (replicate (length pool) False)" "u2 = mark q2 u1"
    using steer_loop_stages [OF r1 [unfolded steer_decode_set_def]]
      steer_loop_stages [OF r2 [unfolded steer_decode_set_def]] by simp_all
  have "(p1, p2, used) = (if 2 * decode_count_target op \<le> int (length pool) then (q1, Some q2, u2) else (q1, None, u1))"
    using assms by (auto simp: compose_round_def r1 r2)
  with u show "length used = length pool"
    and "i < length pool \<Longrightarrow> used ! i \<longleftrightarrow> i \<in> set p1 \<or> (case p2 of None \<Rightarrow> False | Some p \<Rightarrow> i \<in> set p)"
    by (auto simp: mark_nth split: if_splits)
qed

text \<open>If an aged decoder is left out of a round, the round took at least one that is as old.\<close>

lemma compose_round_oldest:
  assumes "compose_round pool op = (p1, p2, used)" and "waits_ok pool"
    and "0 < decode_count_target op" and "0 < kv_operating_target op"
    and "j < length pool" and "\<not> used ! j" and "age_cap op \<le> wait (pool ! j)"
  shows "\<exists>i < length pool. used ! i \<and> wait (pool ! j) \<le> wait (pool ! i)"
proof -
  let ?u0 = "replicate (length pool) False"
  obtain q1 u1 where r1: "steer_decode_set pool ?u0 op = (q1, u1)" by fastforce
  note run = r1 [unfolded steer_decode_set_def]
  have p1: "p1 = q1" using assms(1) by (auto simp: compose_round_def r1 split: if_splits prod.splits)
  have m: "\<And>i. i < length pool \<Longrightarrow> i \<in> set q1 \<Longrightarrow> used ! i"
    using compose_round_mask(2) [OF assms(1)] p1 by auto
  have u1: "u1 = mark q1 ?u0" using steer_loop_stages [OF run] by simp
  have "j \<notin> set q1" using m assms(5,6) by auto
  then have e: "eligible pool ?u0 j" "eligible pool u1 j"
    using assms(5) by (auto simp: eligible_def u1 mark_nth)
  have "q1 \<noteq> []"
    using steer_loop_nonempty [OF run _ _ e(1)] assms(2-4,7) by (simp add: aged_def)
  then obtain i where i: "i \<in> set q1" by (cases q1) auto
  have "i < length pool" using steer_loop_sel [OF run] i by (auto simp: eligible_def)
  moreover have "wait (pool ! j) \<le> wait (pool ! i)"
    using steer_loop_no_overtake [OF run _ assms(2) e(2) _ i] assms(7) by (simp add: aged_def)
  ultimately show ?thesis using m i by blast
qed

text \<open>So of the decoders that have waited \<open>t\<close> rounds or more, a round leaves fewer behind.\<close>

lemma compose_round_older:
  assumes "compose_round pool op = (p1, p2, used)" and "waits_ok pool"
    and "0 < decode_count_target op" and "0 < kv_operating_target op" and "age_cap op \<le> t"
  shows "card {i. i < length pool \<and> \<not> used ! i \<and> t \<le> wait (pool ! i)}
    \<le> card {i. i < length pool \<and> t \<le> wait (pool ! i)} - 1"
    (is "card ?B \<le> card ?A - 1")
proof (cases "?B = {}")
  case True
  then show ?thesis by (metis card.empty le0)
next
  case False
  then obtain j where j: "j < length pool" "\<not> used ! j" "t \<le> wait (pool ! j)" by auto
  then obtain i where "i < length pool" "used ! i" "wait (pool ! j) \<le> wait (pool ! i)"
    using compose_round_oldest [OF assms(1-4)] assms(5) by (meson order_trans)
  with j have i: "i \<in> ?A" "i \<notin> ?B" by auto
  have fin: "finite ?A" by simp
  have "?B \<subseteq> ?A - {i}" using i by auto
  then have "card ?B \<le> card (?A - {i})" using fin by (intro card_mono) auto
  also have "\<dots> = card ?A - 1" using i fin by (intro card_Diff_singleton)
  finally show ?thesis .
qed

section \<open>Properties\<close>

text \<open>A small operating point and pool for the witnesses: two decoders per batch, 200 tokens.\<close>

definition small_op :: OperatingPoint where
  "small_op = \<lparr>ctx_balance = dlit 100, decode_count_target = 2, kv_operating_target = 200,
     prefill_tokens = 4, prefill_kv_work_target = 40, ffn_batch = 6, balance_time_us = dlit 25,
     decode_pool = 5, prefill_pool = 3, age_cap = 5, idle_band = dlit (1 / 10), node_max = 5,
     node_min = 4, edge_band = dlit 10, node_footprint_cap = 600, instance_a_tb = dlit 1,
     hbm_capacity_tb = dlit 4, hbm_fits = True\<rparr>"

definition small_pool :: "Decoder list" where
  "small_pool = [\<lparr>kv_length = 90, wait = 0\<rparr>, \<lparr>kv_length = 250, wait = 7\<rparr>, \<lparr>kv_length = 120, wait = 2\<rparr>,
     \<lparr>kv_length = 60, wait = 6\<rparr>, \<lparr>kv_length = 100, wait = 1\<rparr>]"

definition small_prefill :: "PrefillReq list" where
  "small_prefill = [\<lparr>pr_prompt = 20, pr_processed = 9, pr_wait = 0\<rparr>,
     \<lparr>pr_prompt = 3, pr_processed = 2, pr_wait = 9\<rparr>, \<lparr>pr_prompt = 30, pr_processed = 0, pr_wait = 1\<rparr>]"

text \<open>A decode batch selects distinct decoders that were not used before, marks exactly
  these as used, and never takes more than \<open>decode_count_target\<close> of them.\<close>
theorem steer_decode_set_selects:
  assumes "length used = length pool" and "steer_decode_set pool used op = (sel, used')"
  shows "distinct sel \<and> (\<forall>i \<in> set sel. i < length pool \<and> \<not> used ! i)
    \<and> length used' = length used
    \<and> (\<forall>i < length pool. used' ! i \<longleftrightarrow> used ! i \<or> i \<in> set sel)
    \<and> int (length sel) \<le> max 0 (decode_count_target op)"
proof -
  note run = assms(2) [unfolded steer_decode_set_def]
  note st = steer_loop_stages [OF run]
  have "int (length sel) \<le> max 0 (decode_count_target op)"
    using st by (cases sel) (auto dest: spec [of _ "length sel - 1"])
  with steer_loop_sel [OF run assms(1)] st assms(1) show ?thesis
    by (auto simp: eligible_def mark_nth)
qed


theorem steer_decode_set_selects_witness:
  "steer_decode_set small_pool [False, False, True, False, False] small_op = ([1], [False, True, True, False, False])
   \<and> distinct [1 :: nat] \<and> int (length [1 :: nat]) \<le> max 0 (decode_count_target small_op)"
proof -
  have run: "steer_decode_set small_pool [False, False, True, False, False] small_op
      = ([1], [False, True, True, False, False])"
    by code_simp
  have "length [False, False, True, False, False] = length small_pool" by code_simp
  from steer_decode_set_selects [OF this run] run show ?thesis by simp
qed

text \<open>C27: No overtaking. If a decoder that has waited \<open>age_cap\<close> rounds or more is left out of
  a batch, every decoder of that batch was aged too and had waited at least as long.\<close>
theorem steer_decode_set_no_overtake:
  assumes "length used = length pool" and "waits_ok pool" and "steer_decode_set pool used op = (sel, used')"
    and "j < length pool" and "\<not> used' ! j" and "age_cap op \<le> wait (pool ! j)" and "i \<in> set sel"
  shows "age_cap op \<le> wait (pool ! i) \<and> wait (pool ! j) \<le> wait (pool ! i)"
  using steer_loop_no_overtake [OF assms(3) [unfolded steer_decode_set_def] assms(1,2) _ _ assms(7), of j] assms(4-6)
  by (simp add: eligible_def aged_def)

theorem steer_decode_set_no_overtake_witness:
  "steer_decode_set small_pool (replicate 5 False) small_op = ([1], [False, True, False, False, False])
   \<and> wait (small_pool ! 3) \<le> wait (small_pool ! 1)"
proof -
  have run: "steer_decode_set small_pool (replicate 5 False) small_op = ([1], [False, True, False, False, False])"
    and len: "length (replicate 5 False) = length small_pool" and w: "waits_ok small_pool"
    and j: "3 < length small_pool" "\<not> [False, True, False, False, False] ! 3" "age_cap small_op \<le> wait (small_pool ! 3)"
    by code_simp+
  have "1 \<in> set [1 :: nat]" by simp
  from steer_decode_set_no_overtake [OF len w run j this] run show ?thesis by simp
qed

text \<open>C28: Greedy choice. When no unused decoder has aged, every selection is one whose length is
  nearest, in the program's double arithmetic, to the ideal computed from what is still to
  be filled: the remaining KV over the remaining slots.\<close>
theorem steer_decode_set_nearest:
  assumes "length used = length pool" and "waits_ok pool" and "steer_decode_set pool used op = (sel, used')"
    and "\<And>i. i < length pool \<Longrightarrow> \<not> used ! i \<Longrightarrow> wait (pool ! i) < age_cap op"
    and "k < length sel" and "j < length pool" and "\<not> used ! j" and "j \<notin> set (take k sel)"
  shows "\<not> \<bar>dbl (kv_length (pool ! j)) - decode_ideal op (kv_sum pool (take k sel)) (int k)\<bar>
         < \<bar>dbl (kv_length (pool ! (sel ! k))) - decode_ideal op (kv_sum pool (take k sel)) (int k)\<bar>"
proof -
  have "decode_pick pool op (mark (take k sel) used) (kv_sum pool (take k sel)) (int k) = Some (sel ! k)"
    using steer_loop_stages [OF assms(3) [unfolded steer_decode_set_def]] assms(5) by simp
  moreover have el: "eligible pool (mark (take k sel) used) i \<longleftrightarrow> i < length pool \<and> \<not> used ! i \<and> i \<notin> set (take k sel)" for i
    by (auto simp: mark_eligible [OF assms(1)]) (auto simp: eligible_def)
  ultimately show ?thesis
    using assms(4,6-8) by (intro decode_pick_nearest [OF _ _ assms(2)]) (auto simp: el aged_def not_le)
qed

definition young_pool :: "Decoder list" where
  "young_pool = map (\<lambda>q. q\<lparr>wait := 0\<rparr>) small_pool"

theorem steer_decode_set_nearest_witness:
  "steer_decode_set young_pool (replicate 5 False) small_op = ([4, 0], [True, False, False, False, True])
   \<and> \<not> \<bar>dbl 90 - dlit 100\<bar> < \<bar>dbl 100 - dlit 100\<bar>"
proof -
  have run: "steer_decode_set young_pool (replicate 5 False) small_op = ([4, 0], [True, False, False, False, True])"
    and len: "length (replicate 5 False) = length young_pool" and w: "waits_ok young_pool"
    and d: "decode_ideal small_op 0 0 = dlit 100" "kv_length (young_pool ! 0) = 90"
      "kv_length (young_pool ! 4) = 100" "\<forall>q \<in> set young_pool. wait q < age_cap small_op" "length young_pool = 5"
    by code_simp+
  have "\<not> \<bar>dbl (kv_length (young_pool ! 0)) - decode_ideal small_op (kv_sum young_pool (take 0 [4, 0])) (int 0)\<bar>
       < \<bar>dbl (kv_length (young_pool ! ([4, 0] ! 0))) - decode_ideal small_op (kv_sum young_pool (take 0 [4, 0])) (int 0)\<bar>"
    by (rule steer_decode_set_nearest [OF len w run]) (use d in auto)
  with run show ?thesis by (simp add: d kv_sum_def)
qed

text \<open>Completeness. A batch stops only because it is full, because it reached the KV
  target, or because no unused decoder is left; and its KV sum stays within one decoder of
  the target, so the 64-bit accumulator cannot overflow.\<close>
theorem steer_decode_set_complete:
  assumes "length used = length pool" and "decode_range pool op" and "steer_decode_set pool used op = (sel, used')"
  shows "(decode_count_target op \<le> int (length sel) \<or> kv_operating_target op \<le> kv_sum pool sel
          \<or> (\<forall>i < length pool. used' ! i))
    \<and> 0 \<le> kv_sum pool sel \<and> kv_sum pool sel < 2 ^ 59"
proof -
  note run = assms(3) [unfolded steer_decode_set_def]
  note st = steer_loop_stages [OF run]
  have idx: "\<forall>i \<in> set sel. i < length pool"
    using steer_loop_sel [OF run assms(1)] by (simp add: eligible_def)
  have nn: "0 \<le> kv_sum pool sel" by (rule kv_sum_nonneg [OF assms(2) idx])
  have "kv_sum pool sel < 2 ^ 59"
  proof (cases sel rule: rev_cases)
    case (snoc ys y)
    then have "kv_sum pool ys < kv_operating_target op" using st by (auto dest: spec [of _ "length ys"])
    moreover have "kv_length (pool ! y) \<le> 2 ^ 58" "kv_operating_target op \<le> 2 ^ 58"
      using assms(2) idx snoc by (auto simp: decode_range_def)
    ultimately show ?thesis by (simp add: snoc kv_sum_def)
  qed simp
  moreover have "decode_count_target op \<le> int (length sel) \<or> kv_operating_target op \<le> kv_sum pool sel
      \<or> (\<forall>i < length pool. used' ! i)"
    using decode_pick_None [OF _ assms(2) _ _ nn, of used' "int (length sel)"] st
    by (auto simp: eligible_def not_le)
  ultimately show ?thesis using nn by simp
qed

theorem steer_decode_set_complete_witness:
  "steer_decode_set young_pool (replicate 5 False) small_op = ([4, 0], [True, False, False, False, True])
   \<and> kv_sum young_pool [4, 0] < 2 ^ 59"
proof -
  have run: "steer_decode_set young_pool (replicate 5 False) small_op = ([4, 0], [True, False, False, False, True])"
    and len: "length (replicate 5 False) = length young_pool" and r: "decode_range young_pool small_op"
    by code_simp+
  from steer_decode_set_complete [OF len r run] run show ?thesis by simp
qed


text \<open>The two batches of a round share the mask, so they are disjoint.\<close>
theorem steer_decode_set_disjoint:
  assumes "length used = length pool"
    and "steer_decode_set pool used op = (sel1, used1)" and "steer_decode_set pool used1 op = (sel2, used2)"
  shows "set sel1 \<inter> set sel2 = {} \<and> distinct (sel1 @ sel2)
    \<and> (\<forall>i < length pool. used2 ! i \<longleftrightarrow> used ! i \<or> i \<in> set (sel1 @ sel2))"
proof -
  note run1 = assms(2) [unfolded steer_decode_set_def] and run2 = assms(3) [unfolded steer_decode_set_def]
  have u1: "used1 = mark sel1 used" and u2: "used2 = mark sel2 used1"
    using steer_loop_stages [OF run1] steer_loop_stages [OF run2] by simp_all
  have len: "length used1 = length pool" using u1 assms(1) by simp
  from steer_loop_sel [OF run1 assms(1)] steer_loop_sel [OF run2 len] show ?thesis
    using assms(1) by (auto simp: u1 u2 mark_eligible mark_nth)
qed

theorem steer_decode_set_disjoint_witness:
  "steer_decode_set young_pool (replicate 5 False) small_op = ([4, 0], [True, False, False, False, True])
   \<and> steer_decode_set young_pool [True, False, False, False, True] small_op = ([2, 3], [True, False, True, True, True])
   \<and> distinct ([4, 0] @ [2, 3 :: nat])"
proof -
  have run: "steer_decode_set young_pool (replicate 5 False) small_op = ([4, 0], [True, False, False, False, True])"
    "steer_decode_set young_pool [True, False, False, False, True] small_op = ([2, 3], [True, False, True, True, True])"
    and len: "length (replicate 5 False) = length young_pool"
    by code_simp+
  from steer_decode_set_disjoint [OF len run] run show ?thesis by simp
qed

text \<open>Prefill chunks. One chunk per request, none beyond its prompt, and together no more
  tokens than the budget.\<close>
theorem steer_prefill_chunks_budget:
  "length (steer_prefill_chunks pool op) = length pool
   \<and> (\<forall>i < length pool. 0 \<le> steer_prefill_chunks pool op ! i
        \<and> steer_prefill_chunks pool op ! i \<le> max 0 (pr_prompt (pool ! i) - pr_processed (pool ! i)))
   \<and> pf_tokens pool (steer_prefill_chunks pool op) \<le> max 0 (prefill_tokens op)"
proof -
  obtain c W T where run: "steer_prefill_loop pool op (replicate (length pool) 0) 0 0 = (c, W, T)"
    using prod_cases3 by blast
  have inv: "pf_inv pool c W T \<and> T \<le> max 0 (prefill_tokens op)"
    by (rule prefill_loop_inv [OF run pf_inv_start]) simp
  then have "c ! i \<le> max 0 (pr_prompt (pool ! i) - pr_processed (pool ! i))" if "i < length pool" for i
    using that by (cases "c ! i = 0") (fastforce simp: pf_inv_def)+
  with inv show ?thesis by (simp add: steer_prefill_chunks_def run pf_inv_def)
qed

theorem steer_prefill_chunks_budget_witness:
  "steer_prefill_chunks small_prefill small_op = [3, 1, 0] \<and> pf_tokens small_prefill [3, 1, 0] \<le> 4"
proof -
  have e: "steer_prefill_chunks small_prefill small_op = [3, 1, 0]" "max 0 (prefill_tokens small_op) = 4"
    by code_simp+
  from steer_prefill_chunks_budget [of small_prefill small_op] show ?thesis by (simp add: e)
qed

text \<open>The work the loop accumulates token by token is the closed form that the lifecycle
  driver recomputes from the chunks: \<open>chunk * processed + chunk * (chunk + 1) / 2\<close> per
  request; and the tokens it counts are the sum of the chunks.\<close>
theorem steer_prefill_work:
  assumes "steer_prefill_loop pool op (replicate (length pool) 0) 0 0 = (chunk, W, T)"
  shows "W = (\<Sum>i<length pool. chunk ! i * pr_processed (pool ! i) + chunk ! i * (chunk ! i + 1) div 2)
    \<and> T = (\<Sum>i<length pool. chunk ! i)"
  using prefill_loop_inv [OF assms pf_inv_start] by (simp add: pf_inv_def pf_work_def pf_tokens_def)

theorem steer_prefill_work_witness:
  "steer_prefill_loop small_prefill small_op [0, 0, 0] 0 0 = ([3, 1, 0], 36, 4)
   \<and> (36 :: int) = (\<Sum>i<length small_prefill. [3, 1, 0] ! i * pr_processed (small_prefill ! i)
        + [3, 1, 0] ! i * ([3, 1, 0] ! i + 1) div 2)"
proof -
  have r: "steer_prefill_loop small_prefill small_op (replicate (length small_prefill) 0) 0 0 = ([3, 1, 0], 36, 4)"
    and e: "replicate (length small_prefill) (0 :: int) = [0, 0, 0]"
    by code_simp+
  from steer_prefill_work [OF r] r [unfolded e] show ?thesis by simp
qed

text \<open>No token is withheld: the chunks add up to the whole budget unless every request has
  its full prompt.\<close>
theorem steer_prefill_exhausts:
  assumes "prefill_range pool op"
  shows "prefill_tokens op \<le> pf_tokens pool (steer_prefill_chunks pool op)
    \<or> (\<forall>i < length pool. pr_prompt (pool ! i) \<le> pr_processed (pool ! i) + steer_prefill_chunks pool op ! i)"
proof -
  obtain c W T where run: "steer_prefill_loop pool op (replicate (length pool) 0) 0 0 = (c, W, T)"
    using prod_cases3 by blast
  have inv: "pf_inv pool c W T" "T \<le> max 0 (prefill_tokens op)"
    using prefill_loop_inv [OF run pf_inv_start] by simp_all
  have T: "T = pf_tokens pool c" "0 \<le> T"
    using inv by (auto simp: pf_inv_def pf_tokens_def intro: sum_nonneg)
  have b: "prefill_tokens op \<le> 2 ^ 20" "0 \<le> prefill_kv_work_target op" "prefill_kv_work_target op \<le> 2 ^ 57"
    using assms by (simp_all add: prefill_range_def)
  have "pr_prompt (pool ! i) \<le> pr_processed (pool ! i) + c ! i"
    if lt: "T < prefill_tokens op" and i: "i < length pool" for i
  proof (rule prefill_near_None [OF _ lt i])
    show "prefill_pick pool op c W T = None" using prefill_loop_end [OF run] lt by simp
    show "\<bar>pr_processed (pool ! i) + c ! i + 1\<bar> \<le> 2 ^ 58" using pf_chunk_lt [OF assms inv(1) i] by simp
    have "W \<le> 2 ^ 20 * 2 ^ 31" using pf_work_bound(2) [OF assms inv(1)] lt b(1) by simp
    then show "\<bar>prefill_kv_work_target op - W\<bar> \<le> 2 ^ 58"
      using pf_work_bound(1) [OF assms inv(1)] b by (simp add: abs_le_iff)
    show "prefill_tokens op - T < 2 ^ 31" using b T by simp
  qed
  then show ?thesis by (auto simp: steer_prefill_chunks_def run T(1) not_le)
qed

theorem steer_prefill_exhausts_witness:
  "steer_prefill_chunks small_prefill small_op = [3, 1, 0]
   \<and> prefill_tokens small_op \<le> pf_tokens small_prefill [3, 1, 0]"
proof -
  have r: "prefill_range small_prefill small_op"
    and e: "steer_prefill_chunks small_prefill small_op = [3, 1, 0]"
      "\<not> (\<forall>i < length small_prefill. pr_prompt (small_prefill ! i) \<le> pr_processed (small_prefill ! i) + [3, 1, 0] ! i)"
    by code_simp+
  from steer_prefill_exhausts [OF r] e show ?thesis by simp
qed

text \<open>C37: The age spread. If a request that has waited \<open>age_cap\<close> rounds or more and still has
  prompt to process gets no token, every token went to such a request that waited at least
  as long, one token each.\<close>
theorem steer_prefill_spread:
  assumes "\<forall>q \<in> set pool. 0 \<le> pr_wait q" and "j < length pool" and "age_cap op \<le> pr_wait (pool ! j)"
    and "pr_processed (pool ! j) < pr_prompt (pool ! j)" and "steer_prefill_chunks pool op ! j = 0"
    and "i < length pool" and "steer_prefill_chunks pool op ! i \<noteq> 0"
  shows "steer_prefill_chunks pool op ! i = 1 \<and> age_cap op \<le> pr_wait (pool ! i)
    \<and> pr_wait (pool ! j) \<le> pr_wait (pool ! i)"
proof -
  obtain c W T where run: "steer_prefill_loop pool op (replicate (length pool) 0) 0 0 = (c, W, T)"
    using prod_cases3 by blast
  have e: "steer_prefill_chunks pool op = c" by (simp add: steer_prefill_chunks_def run)
  have "pf_waiting pool op c j" using assms(2-5) by (simp add: pf_waiting_def e)
  from prefill_loop_spread [OF run _ _ this] assms(1,6,7) show ?thesis
    by (auto simp: e pf_waits_ok_def pf_waiting_def)
qed

theorem steer_prefill_spread_witness:
  "steer_prefill_chunks (small_prefill[0 := (small_prefill ! 0)\<lparr>pr_wait := 6\<rparr>]) (small_op\<lparr>prefill_tokens := 1\<rparr>) = [0, 1, 0]
   \<and> pr_wait (small_prefill ! 0) \<le> pr_wait (small_prefill ! 1)"
proof -
  let ?p = "small_prefill[0 := (small_prefill ! 0)\<lparr>pr_wait := 6\<rparr>]" and ?o = "small_op\<lparr>prefill_tokens := 1\<rparr>"
  have e: "steer_prefill_chunks ?p ?o = [0, 1, 0]" by code_simp
  have h: "\<forall>q \<in> set ?p. 0 \<le> pr_wait q" "0 < length ?p" "age_cap ?o \<le> pr_wait (?p ! 0)"
    "pr_processed (?p ! 0) < pr_prompt (?p ! 0)" "steer_prefill_chunks ?p ?o ! 0 = 0"
    "1 < length ?p" "steer_prefill_chunks ?p ?o ! 1 \<noteq> 0"
    "pr_wait (?p ! 1) = pr_wait (small_prefill ! 1)" "pr_wait (small_prefill ! 0) \<le> pr_wait (?p ! 0)"
    by code_simp+
  from steer_prefill_spread [OF h(1-7)] e h(8,9) show ?thesis by linarith
qed

text \<open>The age update resets the selected decoders and ages every other one by a round; the
  lengths are untouched.\<close>
theorem age_update_correct:
  "length (age_update pool sel) = length pool \<and> (\<forall>i < length pool.
     kv_length (age_update pool sel ! i) = kv_length (pool ! i)
     \<and> wait (age_update pool sel ! i) = (if i \<in> set sel then 0 else wait (pool ! i) + 1))"
  by (simp add: age_update_nth)


theorem age_update_correct_witness:
  "wait (age_update small_pool [1] ! 1) = 0 \<and> wait (age_update small_pool [1] ! 3) = 7"
proof -
  have e: "length small_pool = 5" "wait (small_pool ! 3) = 6" by code_simp+
  from age_update_correct [of small_pool "[1]"] show ?thesis by (simp add: e)
qed

end
