(* ===== verification/Request_Source.thy ===== *)
theory Request_Source
  imports Cxx_Double
begin

text \<open>
  \<open>core/request_source.h\<close>: the abstract source from which the schedulers take every new
  request. The virtual method \<open>pull_near\<close> becomes a parameter \<open>pull\<close> of the schedulers'
  operations, a function from the state of the source to the request and the new state.
  The locales state the contract of the interface and what a source of finitely many
  requests promises besides; the runtime's queue and the workload emulation interpret them.
\<close>

record PulledRequest =
  req_prompt :: int
  req_dtot :: int

definition no_request :: PulledRequest where
  "no_request = \<lparr>req_prompt = - 1, req_dtot = 0\<rparr>"

lemma no_request_prompt [simp]: "req_prompt no_request = - 1"
  by (simp add: no_request_def)

text \<open>A request that is there (\<open>prompt >= 0\<close>) fits the room it was asked for.\<close>

locale request_source =
  fixes pull :: "'s \<Rightarrow> double \<Rightarrow> int \<Rightarrow> PulledRequest \<times> 's"
  assumes pull_fits: "pull s ideal room = (r, s') \<Longrightarrow> 0 \<le> req_prompt r \<Longrightarrow> req_prompt r \<le> room"

text \<open>
  A source that holds finitely many requests hands each out once: the request leaves the
  stock. A negative answer leaves it as it is, unless the stock itself holds a malformed
  request of negative length, which is then dropped.
\<close>

locale stocked_source = request_source pull
  for pull :: "'s \<Rightarrow> double \<Rightarrow> int \<Rightarrow> PulledRequest \<times> 's" +
  fixes stock :: "'s \<Rightarrow> PulledRequest multiset"
  assumes pull_some: "pull s ideal room = (r, s') \<Longrightarrow> 0 \<le> req_prompt r \<Longrightarrow> stock s = add_mset r (stock s')"
    and pull_none: "pull s ideal room = (r, s') \<Longrightarrow> \<not> 0 \<le> req_prompt r \<Longrightarrow>
      stock s' = stock s \<or> (\<exists>x. req_prompt x < 0 \<and> stock s = add_mset x (stock s'))"
begin

lemma pull_none_valid:
  assumes "pull s ideal room = (r, s')" and "\<not> 0 \<le> req_prompt r" and "\<forall>x \<in># stock s. 0 \<le> req_prompt x"
  shows "stock s' = stock s"
  using pull_none [OF assms(1,2)] assms(3) by auto

lemma pull_valid:
  assumes "pull s ideal room = (r, s')" and "\<forall>x \<in># stock s. 0 \<le> req_prompt x"
  shows "\<forall>x \<in># stock s'. 0 \<le> req_prompt x"
  using assms pull_some [OF assms(1)] pull_none_valid [OF assms(1)]
  by (cases "0 \<le> req_prompt r") auto

end

end
