(* ===== verification/Node_Scheduler.thy ===== *)
theory Node_Scheduler
  imports Steering Request_Source
begin

text \<open>
  \<open>core/node_scheduler.cpp\<close>: the resident decode pool of one node. The object's fields are a
  record, its source of requests is the parameter \<open>pull\<close> with an explicit state, and the
  operating point, constant over the object's life, is a parameter. The lemmas: the pool
  never grows in a round, every admitted request is retired or resident, nothing waits for
  longer than the age cap and the size of the pool, and a node whose requests are finite
  drains.
\<close>

section \<open>The model\<close>

record NodeDecoder =
  nd_prompt :: int
  nd_dtot :: int
  nd_dec :: int
  nd_wait :: int

definition live_kv :: "NodeDecoder \<Rightarrow> int" where
  "live_kv q = nd_prompt q + nd_dec q"

record 's NodeScheduler =
  pool :: "NodeDecoder list"
  src :: 's

definition node_cap_room :: "OperatingPoint \<Rightarrow> int" where
  "node_cap_room op = decode_pool op * to_ll (ctx_balance op) * 4"

definition sum_live_kv :: "NodeDecoder list \<Rightarrow> int" where
  "sum_live_kv p = fold (\<lambda>q s. s + live_kv q) p 0"

definition mean_live_kv :: "NodeDecoder list \<Rightarrow> double" where
  "mean_live_kv p = (if p = [] then dlit 0 else dbl (sum_live_kv p) / dbl (int (length p)))"

text \<open>A pulled request becomes a decoder with no progress; a missing one is skipped.\<close>

definition admit :: "PulledRequest \<Rightarrow> NodeDecoder list \<Rightarrow> NodeDecoder list" where
  "admit r p = (if 0 \<le> req_prompt r
     then p @ [\<lparr>nd_prompt = req_prompt r, nd_dtot = req_dtot r, nd_dec = 0, nd_wait = 0\<rparr>] else p)"

definition admit_centered ::
  "OperatingPoint \<Rightarrow> ('s \<Rightarrow> double \<Rightarrow> int \<Rightarrow> PulledRequest \<times> 's) \<Rightarrow> 's NodeScheduler \<Rightarrow> 's NodeScheduler" where
  "admit_centered op pull nd =
     (let live_sum = sum_live_kv (pool nd);
          cnt = int (length (pool nd));
          ideal = ctx_balance op * dbl (cnt + 1) - dbl live_sum;
          ideal = (if ideal < dlit 1000 then dlit 1000 else ideal)
      in case pull (src nd) ideal (node_cap_room op) of
           (r, s) \<Rightarrow> \<lparr>pool = admit r (pool nd), src = s\<rparr>)"

definition as_decoders :: "NodeDecoder list \<Rightarrow> Decoder list" where
  "as_decoders p = map (\<lambda>q. \<lparr>kv_length = live_kv q, wait = nd_wait q\<rparr>) p"

definition compose_decode_batch ::
  "OperatingPoint \<Rightarrow> NodeDecoder list \<Rightarrow> bool list \<Rightarrow> nat list \<times> bool list" where
  "compose_decode_batch op p used = steer_decode_set (as_decoders p) used op"

definition round_used :: "OperatingPoint \<Rightarrow> NodeDecoder list \<Rightarrow> bool list" where
  "round_used op p =
     (case compose_decode_batch op p (replicate (length p) False) of
        (p1, used) \<Rightarrow>
          if 2 * decode_count_target op \<le> int (length p)
          then (case compose_decode_batch op p used of (p2, used) \<Rightarrow> used)
          else used)"

definition advance :: "bool list \<Rightarrow> NodeDecoder list \<Rightarrow> NodeDecoder list" where
  "advance used p = map (\<lambda>i. if used ! i then (p ! i)\<lparr>nd_dec := nd_dec (p ! i) + 1, nd_wait := 0\<rparr>
      else (p ! i)\<lparr>nd_wait := nd_wait (p ! i) + 1\<rparr>) [0..<length p]"

definition finished :: "NodeDecoder \<Rightarrow> bool" where
  "finished q \<longleftrightarrow> nd_dtot q \<le> nd_dec q"

fun heal_holes ::
  "OperatingPoint \<Rightarrow> ('s \<Rightarrow> double \<Rightarrow> int \<Rightarrow> PulledRequest \<times> 's) \<Rightarrow> int list \<Rightarrow> NodeDecoder list \<Rightarrow> 's
   \<Rightarrow> NodeDecoder list \<times> 's" where
  "heal_holes op pull [] p s = (p, s)"
| "heal_holes op pull (hole # holes) p s =
     (case pull s (dbl hole) (node_cap_room op) of
        (r, s') \<Rightarrow> heal_holes op pull holes (admit r p) s')"

definition advance_round ::
  "OperatingPoint \<Rightarrow> ('s \<Rightarrow> double \<Rightarrow> int \<Rightarrow> PulledRequest \<times> 's) \<Rightarrow> 's NodeScheduler \<Rightarrow> int \<times> 's NodeScheduler" where
  "advance_round op pull nd =
     (let used = round_used op (pool nd);
          p1 = advance used (pool nd);
          holes = map nd_prompt (filter finished p1);
          keep = filter (\<lambda>q. \<not> finished q) p1
      in case heal_holes op pull holes keep (src nd) of
           (p2, s) \<Rightarrow> (int (length holes), \<lparr>pool = p2, src = s\<rparr>))"

section \<open>Healing\<close>

lemma length_as_decoders [simp]: "length (as_decoders p) = length p"
  by (simp add: as_decoders_def)

lemma length_advance [simp]: "length (advance used p) = length p"
  by (simp add: advance_def)

text \<open>Healing appends at most one fresh decoder per hole.\<close>

definition fresh :: "NodeDecoder \<Rightarrow> bool" where
  "fresh q \<longleftrightarrow> nd_dec q = 0 \<and> nd_wait q = 0 \<and> 0 \<le> nd_prompt q"

lemma heal_holes_appends:
  "heal_holes op pull holes p s = (p', s') \<Longrightarrow>
     \<exists>new. p' = p @ new \<and> length new \<le> length holes \<and> (\<forall>q \<in> set new. fresh q)"
proof (induction holes arbitrary: p s)
  case (Cons h hs)
  obtain r s1 where r: "pull s (dbl h) (node_cap_room op) = (r, s1)" by fastforce
  with Cons.prems have "heal_holes op pull hs (admit r p) s1 = (p', s')" by simp
  from Cons.IH [OF this] show ?case
    by (cases "0 \<le> req_prompt r") (force simp: admit_def fresh_def)+
qed simp

lemma advance_round_unfold:
  assumes "advance_round op pull nd = (c, nd')"
  shows "c = int (length (filter finished (advance (round_used op (pool nd)) (pool nd))))"
    and "heal_holes op pull (map nd_prompt (filter finished (advance (round_used op (pool nd)) (pool nd))))
      (filter (\<lambda>q. \<not> finished q) (advance (round_used op (pool nd)) (pool nd))) (src nd) = (pool nd', src nd')"
  using assms by (auto simp: advance_round_def Let_def split: prod.splits)

section \<open>Bounded waiting\<close>

definition older :: "int \<Rightarrow> NodeDecoder list \<Rightarrow> nat" where
  "older t p = length (filter (\<lambda>q. t \<le> nd_wait q) p)"

lemma older_le: "older t p \<le> length p"
  by (simp add: older_def)

text \<open>
  The invariant: of a pool of at most \<open>N\<close> decoders, at most \<open>N - k\<close> have waited
  \<open>age_cap + k\<close> rounds or more. Each round with an aged decoder left over takes one that is
  at least as old, so the bound moves one step for each round of waiting.
\<close>

definition wait_inv :: "nat \<Rightarrow> OperatingPoint \<Rightarrow> NodeDecoder list \<Rightarrow> bool" where
  "wait_inv N op p \<longleftrightarrow> length p \<le> N \<and> (\<forall>q \<in> set p. 0 \<le> nd_wait q)
     \<and> (\<forall>k. older (age_cap op + int k) p \<le> N - k)"

lemma wait_inv_bound:
  assumes "wait_inv N op p" and "q \<in> set p" shows "nd_wait q < age_cap op + int N"
proof (rule ccontr)
  assume "\<not> ?thesis"
  then have "filter (\<lambda>q. age_cap op + int N \<le> nd_wait q) p \<noteq> []"
    using assms(2) by (auto simp: filter_empty_conv not_less)
  then have "0 < older (age_cap op + int N) p" by (simp add: older_def)
  moreover have "older (age_cap op + int N) p \<le> N - N" using assms(1) unfolding wait_inv_def by blast
  ultimately show False by simp
qed

lemma wait_inv_start: "length p \<le> N \<Longrightarrow> 0 \<le> age_cap op \<Longrightarrow> \<forall>q \<in> set p. nd_wait q = 0 \<Longrightarrow> wait_inv N op p"
proof -
  assume a: "length p \<le> N" "0 \<le> age_cap op" "\<forall>q \<in> set p. nd_wait q = 0"
  have "older (age_cap op + int k) p \<le> N - k" for k
  proof (cases k)
    case 0
    then show ?thesis using a(1) older_le [of "age_cap op" p] by simp
  next
    case (Suc k')
    then show ?thesis using a by (auto simp: older_def filter_empty_conv)
  qed
  with a show ?thesis by (simp add: wait_inv_def)
qed

lemma round_used_compose:
  "compose_round (as_decoders p) op = (p1, p2, used) \<Longrightarrow> round_used op p = used"
  by (auto simp: compose_round_def round_used_def compose_decode_batch_def split: prod.splits if_splits)

lemma older_card: "older t p = card {i. i < length p \<and> t \<le> nd_wait (p ! i)}"
  by (simp add: older_def length_filter_conv_card)

lemma waits_ok_as_decoders: "waits_ok (as_decoders p) \<longleftrightarrow> (\<forall>q \<in> set p. 0 \<le> nd_wait q)"
  by (auto simp: waits_ok_def as_decoders_def)

lemma advance_nth:
  "i < length p \<Longrightarrow> advance used p ! i =
     (if used ! i then (p ! i)\<lparr>nd_dec := nd_dec (p ! i) + 1, nd_wait := 0\<rparr>
      else (p ! i)\<lparr>nd_wait := nd_wait (p ! i) + 1\<rparr>)"
  by (simp add: advance_def)

lemma advance_older:
  assumes "\<forall>q \<in> set p. 0 \<le> nd_wait q" and "0 < decode_count_target op" and "0 < kv_operating_target op"
    and "age_cap op \<le> t" and "0 \<le> t"
  shows "older (t + 1) (advance (round_used op p) p) \<le> older t p - 1"
proof -
  obtain p1 p2 used where c: "compose_round (as_decoders p) op = (p1, p2, used)" using prod_cases3 by blast
  have "{i. i < length p \<and> t + 1 \<le> nd_wait (advance used p ! i)}
      = {i. i < length (as_decoders p) \<and> \<not> used ! i \<and> t \<le> wait (as_decoders p ! i)}"
    using assms(5) by (auto simp: advance_nth as_decoders_def split: if_splits)
  moreover have "{i. i < length p \<and> t \<le> nd_wait (p ! i)} = {i. i < length (as_decoders p) \<and> t \<le> wait (as_decoders p ! i)}"
    by (auto simp: as_decoders_def)
  ultimately show ?thesis
    using compose_round_older [OF c _ assms(2,3,4)] assms(1)
    by (simp add: older_card round_used_compose [OF c] waits_ok_as_decoders)
qed

lemma advance_waits: "\<forall>q \<in> set p. 0 \<le> nd_wait q \<Longrightarrow> q \<in> set (advance used p) \<Longrightarrow> 0 \<le> nd_wait q"
  by (auto simp: advance_def)

lemma older_filter: "older t (filter P p) \<le> older t p"
  unfolding older_def by (induction p) auto

text \<open>What a round keeps of the pool, with newcomers up to the bound.\<close>

lemma wait_inv_refill:
  assumes "wait_inv N op p" and "0 < decode_count_target op" and "0 < kv_operating_target op" and "0 \<le> age_cap op"
    and "p' = filter (\<lambda>q. \<not> finished q) (advance (round_used op p) p) @ new" and "\<forall>q \<in> set new. nd_wait q = 0"
    and "length p' \<le> N"
  shows "wait_inv N op p'"
proof -
  let ?a = "advance (round_used op p) p"
  let ?keep = "filter (\<lambda>q. \<not> finished q) ?a"
  have nn: "\<forall>q \<in> set p. 0 \<le> nd_wait q" using assms(1) by (simp add: wait_inv_def)
  have "older (age_cap op + int k) p' \<le> N - k" for k
  proof (cases k)
    case 0
    then show ?thesis using assms(7) older_le [of "age_cap op" p'] by simp
  next
    case (Suc j)
    have "older (age_cap op + int k) new = 0"
      using assms(4,6) Suc by (auto simp: older_def filter_empty_conv)
    then have "older (age_cap op + int k) p' = older (age_cap op + int k) ?keep"
      using assms(5) by (simp add: older_def)
    also have "\<dots> \<le> older (age_cap op + int j + 1) ?a"
      using older_filter [of "age_cap op + int k" _ ?a] Suc by (simp add: algebra_simps)
    also have "\<dots> \<le> older (age_cap op + int j) p - 1"
      using assms(4) by (intro advance_older [OF nn assms(2,3)]) simp_all
    also have "\<dots> \<le> N - k" using assms(1) Suc by (auto simp: wait_inv_def dest: spec [of _ j])
    finally show ?thesis .
  qed
  moreover have "\<forall>q \<in> set p'. 0 \<le> nd_wait q"
    using assms(5,6) advance_waits [OF nn] by auto
  ultimately show ?thesis using assms(7) by (auto simp: wait_inv_def)
qed

lemma wait_inv_round:
  assumes "wait_inv N op (pool nd)" and "0 < decode_count_target op" and "0 < kv_operating_target op"
    and "0 \<le> age_cap op" and "advance_round op pull nd = (c, nd')"
  shows "wait_inv N op (pool nd') \<and> length (pool nd') \<le> length (pool nd)"
proof -
  let ?a = "advance (round_used op (pool nd)) (pool nd)"
  obtain new where new: "pool nd' = filter (\<lambda>q. \<not> finished q) ?a @ new" "length new \<le> length (filter finished ?a)"
    "\<forall>q \<in> set new. fresh q"
    using heal_holes_appends [OF advance_round_unfold(2) [OF assms(5)]] by auto
  have len: "length (pool nd') \<le> length (pool nd)"
    using new(1,2) sum_length_filter_compl [of finished ?a] by simp
  moreover have "length (pool nd) \<le> N" using assms(1) by (simp add: wait_inv_def)
  ultimately show ?thesis
    using wait_inv_refill [OF assms(1-4) new(1)] new(3) by (simp add: fresh_def)
qed

section \<open>Conservation\<close>

definition as_request :: "NodeDecoder \<Rightarrow> PulledRequest" where
  "as_request q = \<lparr>req_prompt = nd_prompt q, req_dtot = nd_dtot q\<rparr>"

definition requests :: "NodeDecoder list \<Rightarrow> PulledRequest multiset" where
  "requests p = mset (map as_request p)"

lemma requests_append [simp]: "requests (p @ q) = requests p + requests q"
  by (simp add: requests_def)

lemma requests_admit: "requests (admit r p) = (if 0 \<le> req_prompt r then add_mset r (requests p) else requests p)"
  by (simp add: admit_def requests_def as_request_def)

lemma requests_split: "requests p = requests (filter P p) + requests (filter (\<lambda>q. \<not> P q) p)"
  by (induction p) (auto simp: requests_def)

lemma size_requests: "size (requests p) = length p"
  unfolding requests_def by (simp only: size_mset length_map)

lemma requests_advance: "requests (advance used p) = requests p"
proof -
  have "map as_request (advance used p) = map as_request p"
    by (rule nth_equalityI) (simp_all add: advance_nth as_request_def)
  then show ?thesis by (simp add: requests_def)
qed

section \<open>Progress\<close>

text \<open>
  The work left in a pool: one unit for each token to decode and one for each decoder. A round
  of a pool that is not empty takes at least one unit away, as it selects at least one decoder.
\<close>

definition token_work :: "int \<Rightarrow> int \<Rightarrow> nat" where
  "token_work tot d = nat (tot - d) + 1"

definition pool_work :: "NodeDecoder list \<Rightarrow> nat" where
  "pool_work p = sum_list (map (\<lambda>q. token_work (nd_dtot q) (nd_dec q)) p)"

definition stock_work :: "PulledRequest multiset \<Rightarrow> nat" where
  "stock_work S = (\<Sum>r \<in># S. token_work (req_dtot r) 0)"

lemma pool_work_admit:
  "pool_work (admit r p) = (if 0 \<le> req_prompt r then pool_work p + token_work (req_dtot r) 0 else pool_work p)"
  by (simp add: pool_work_def admit_def)

lemma pool_work_filter:
  "pool_work (filter P p) = (\<Sum>i<length p. if P (p ! i) then token_work (nd_dtot (p ! i)) (nd_dec (p ! i)) else 0)"
proof (induction p rule: rev_induct)
  case (snoc x xs)
  have "(\<Sum>i<length xs. if P ((xs @ [x]) ! i) then token_work (nd_dtot ((xs @ [x]) ! i)) (nd_dec ((xs @ [x]) ! i)) else 0)
      = (\<Sum>i<length xs. if P (xs ! i) then token_work (nd_dtot (xs ! i)) (nd_dec (xs ! i)) else 0)"
    by (rule sum.cong) (simp_all add: nth_append)
  with snoc show ?case by (simp add: pool_work_def)
qed (simp add: pool_work_def)

lemma pool_work_sum: "pool_work p = (\<Sum>i<length p. token_work (nd_dtot (p ! i)) (nd_dec (p ! i)))"
  using pool_work_filter [of "\<lambda>_. True" p] by simp

lemma advance_work:
  assumes "i < length p" and "used ! i"
  shows "pool_work (filter (\<lambda>q. \<not> finished q) (advance used p)) < pool_work p"
proof -
  let ?w = "\<lambda>q. token_work (nd_dtot q) (nd_dec q)"
  let ?c = "\<lambda>j. if \<not> finished (advance used p ! j) then ?w (advance used p ! j) else 0"
  have "(\<Sum>j<length p. ?c j) < (\<Sum>j<length p. ?w (p ! j))"
  proof (rule sum_strict_mono_ex1)
    show "\<forall>j\<in>{..<length p}. ?c j \<le> ?w (p ! j)"
      by (auto simp: advance_nth token_work_def finished_def)
    have "?c i < ?w (p ! i)"
      using assms by (auto simp: advance_nth token_work_def finished_def)
    with assms(1) show "\<exists>j\<in>{..<length p}. ?c j < ?w (p ! j)" by (intro bexI [of _ i]) simp_all
  qed simp
  then show ?thesis unfolding pool_work_filter pool_work_sum [of p] by simp
qed

text \<open>The values a request and an operating point have in the code: C++ \<open>int\<close>s.\<close>

definition request_ok :: "PulledRequest \<Rightarrow> bool" where
  "request_ok r \<longleftrightarrow> 0 \<le> req_prompt r \<and> req_prompt r < 2 ^ 31 \<and> req_dtot r < 2 ^ 31"

definition op_ok :: "OperatingPoint \<Rightarrow> bool" where
  "op_ok op \<longleftrightarrow> 0 < decode_count_target op \<and> decode_count_target op < 2 ^ 31
     \<and> 0 < kv_operating_target op \<and> kv_operating_target op \<le> 2 ^ 58 \<and> 0 \<le> age_cap op"

definition pool_ok :: "NodeDecoder list \<Rightarrow> bool" where
  "pool_ok p \<longleftrightarrow> (\<forall>q \<in> set p. request_ok (as_request q) \<and> 0 \<le> nd_dec q \<and> nd_dec q < 2 ^ 31)"

lemma pool_ok_range: "pool_ok p \<Longrightarrow> op_ok op \<Longrightarrow> decode_range (as_decoders p) op"
  by (fastforce simp: pool_ok_def op_ok_def decode_range_def as_decoders_def live_kv_def request_ok_def as_request_def)

lemma round_used_some:
  assumes "pool_ok p" and "op_ok op" and "p \<noteq> []"
  shows "\<exists>i < length p. round_used op p ! i"
proof -
  let ?u = "replicate (length p) False"
  obtain p1 u1 where r1: "steer_decode_set (as_decoders p) ?u op = (p1, u1)" by fastforce
  obtain q1 q2 used where c: "compose_round (as_decoders p) op = (q1, q2, used)" using prod_cases3 by blast
  have q1: "q1 = p1" using c r1 by (auto simp: compose_round_def split: if_splits prod.splits)
  note st = steer_loop_stages [OF r1 [unfolded steer_decode_set_def]]
  have "p1 \<noteq> []"
  proof
    assume "p1 = []"
    with st assms(2) have "decode_pick (as_decoders p) op ?u 0 0 = None" by (auto simp: op_ok_def)
    then have "\<not> eligible (as_decoders p) ?u 0"
      using assms(2) decode_pick_None [OF _ pool_ok_range [OF assms(1,2)]] by (simp add: op_ok_def)
    with assms(3) show False by (simp add: eligible_def)
  qed
  then obtain i where i: "i \<in> set p1" by (cases p1) auto
  then have "i < length p"
    using steer_loop_sel [OF r1 [unfolded steer_decode_set_def]] by (simp add: eligible_def)
  with i show ?thesis using compose_round_mask(2) [OF c, of i] q1 round_used_compose [OF c] by auto
qed

lemma advance_dec:
  assumes "pool_ok p" and "q \<in> set (advance used p)" and "\<not> finished q"
  shows "0 \<le> nd_dec q \<and> nd_dec q < 2 ^ 31"
proof -
  obtain i where i: "i < length p" "q = advance used p ! i" using assms(2) by (auto simp: in_set_conv_nth)
  have "0 \<le> nd_dec (p ! i) \<and> nd_dec (p ! i) < 2 ^ 31 \<and> nd_dtot (p ! i) < 2 ^ 31"
    using assms(1) nth_mem [OF i(1)] by (simp add: pool_ok_def request_ok_def as_request_def)
  with i assms(3) show ?thesis by (auto simp: advance_nth finished_def split: if_splits)
qed

definition node_ok :: "('s \<Rightarrow> PulledRequest multiset) \<Rightarrow> 's NodeScheduler \<Rightarrow> bool" where
  "node_ok stk nd \<longleftrightarrow> pool_ok (pool nd) \<and> (\<forall>x \<in># stk (src nd). request_ok x)"

definition node_work :: "('s \<Rightarrow> PulledRequest multiset) \<Rightarrow> 's NodeScheduler \<Rightarrow> nat" where
  "node_work stk nd = pool_work (pool nd) + stock_work (stk (src nd))"

context stocked_source
begin

lemma heal_conserves:
  assumes "heal_holes op pull holes p s = (p', s')" and "\<forall>x \<in># stock s. 0 \<le> req_prompt x"
  shows "requests p' + stock s' = requests p + stock s \<and> (\<forall>x \<in># stock s'. 0 \<le> req_prompt x)"
  using assms
proof (induction holes arbitrary: p s)
  case (Cons h hs)
  obtain r s1 where r: "pull s (dbl h) (node_cap_room op) = (r, s1)" by fastforce
  with Cons.prems have h: "heal_holes op pull hs (admit r p) s1 = (p', s')" by simp
  have "requests (admit r p) + stock s1 = requests p + stock s"
    using pull_some [OF r] pull_none_valid [OF r _ Cons.prems(2)] by (simp add: requests_admit)
  with Cons.IH [OF h pull_valid [OF r Cons.prems(2)]] show ?case by simp
qed simp

text \<open>A round moves requests from the stock to the pool and from the pool to the finished ones.\<close>

lemma round_conserves:
  assumes "advance_round op pull nd = (c, nd')" and "\<forall>x \<in># stock (src nd). 0 \<le> req_prompt x"
  shows "\<exists>done. requests (pool nd) + stock (src nd) = requests (pool nd') + stock (src nd') + done
    \<and> int (size done) = c \<and> (\<forall>x \<in># stock (src nd'). 0 \<le> req_prompt x)"
proof -
  let ?a = "advance (round_used op (pool nd)) (pool nd)"
  note h = heal_conserves [OF advance_round_unfold(2) [OF assms(1)] assms(2)]
  have "requests (pool nd) = requests (filter finished ?a) + requests (filter (\<lambda>q. \<not> finished q) ?a)"
    using requests_split [of ?a finished] by (simp add: requests_advance)
  moreover have "int (size (requests (filter finished ?a))) = c"
    using advance_round_unfold(1) [OF assms(1)] by (simp only: size_requests)
  ultimately show ?thesis using h
    by (intro exI [of _ "requests (filter finished ?a)"]) (simp add: add.commute add.left_commute)
qed

lemma admit_conserves:
  assumes "admit_centered op pull nd = nd'" and "\<forall>x \<in># stock (src nd). 0 \<le> req_prompt x"
  shows "requests (pool nd') + stock (src nd') = requests (pool nd) + stock (src nd)
    \<and> (\<forall>x \<in># stock (src nd'). 0 \<le> req_prompt x)"
proof -
  obtain ideal r s where r: "pull (src nd) ideal (node_cap_room op) = (r, s)"
    and nd': "nd' = \<lparr>pool = admit r (pool nd), src = s\<rparr>"
    using assms(1) by (fastforce simp: admit_centered_def Let_def split: prod.splits)
  show ?thesis
    using pull_some [OF r] pull_none_valid [OF r _ assms(2)] pull_valid [OF r assms(2)]
    by (simp add: nd' requests_admit)
qed

lemma heal_work:
  assumes "heal_holes op pull holes p s = (p', s')" and "\<forall>x \<in># stock s. 0 \<le> req_prompt x"
  shows "pool_work p' + stock_work (stock s') = pool_work p + stock_work (stock s)"
  using assms
proof (induction holes arbitrary: p s)
  case (Cons h hs)
  obtain r s1 where r: "pull s (dbl h) (node_cap_room op) = (r, s1)" by fastforce
  with Cons.prems have h: "heal_holes op pull hs (admit r p) s1 = (p', s')" by simp
  have "pool_work (admit r p) + stock_work (stock s1) = pool_work p + stock_work (stock s)"
    using pull_some [OF r] pull_none_valid [OF r _ Cons.prems(2)] by (simp add: pool_work_admit stock_work_def)
  with Cons.IH [OF h pull_valid [OF r Cons.prems(2)]] show ?case by simp
qed simp

lemma round_progress:
  assumes "advance_round op pull nd = (c, nd')" and "node_ok stock nd" and "op_ok op"
  shows "node_ok stock nd' \<and> (pool nd \<noteq> [] \<longrightarrow> node_work stock nd' < node_work stock nd)"
proof -
  let ?a = "advance (round_used op (pool nd)) (pool nd)"
  have v: "\<forall>x \<in># stock (src nd). 0 \<le> req_prompt x" and p: "pool_ok (pool nd)"
    using assms(2) by (auto simp: node_ok_def request_ok_def)
  note heal = advance_round_unfold(2) [OF assms(1)]
  obtain gone where gone: "requests (pool nd) + stock (src nd) = requests (pool nd') + stock (src nd') + gone"
    using round_conserves [OF assms(1) v] by blast
  have all: "\<forall>x \<in># requests (pool nd) + stock (src nd). request_ok x"
    using assms(2) by (auto simp: node_ok_def pool_ok_def requests_def)
  then have all': "\<forall>x \<in># requests (pool nd') + stock (src nd'). request_ok x"
    unfolding gone by auto
  obtain new where new: "pool nd' = filter (\<lambda>q. \<not> finished q) ?a @ new" "\<forall>q \<in> set new. fresh q"
    using heal_holes_appends [OF heal] by blast
  have "node_ok stock nd'"
    using all' new advance_dec [OF p, of _ "round_used op (pool nd)"]
    by (auto simp: node_ok_def pool_ok_def requests_def fresh_def)
  moreover have "node_work stock nd' < node_work stock nd" if "pool nd \<noteq> []"
    using advance_work [of _ "pool nd" "round_used op (pool nd)"] round_used_some [OF p assms(3) that] heal_work [OF heal v]
    by (auto simp: node_work_def)
  ultimately show ?thesis by blast
qed

end

subsection \<open>Runs of a node\<close>

text \<open>A node starts empty, admits requests and advances, in any order. The index counts the admissions.\<close>

inductive node_run ::
  "OperatingPoint \<Rightarrow> ('s \<Rightarrow> double \<Rightarrow> int \<Rightarrow> PulledRequest \<times> 's) \<Rightarrow> nat \<Rightarrow> 's NodeScheduler \<Rightarrow> bool"
  for op pull where
  start: "node_run op pull 0 \<lparr>pool = [], src = s\<rparr>"
| admitted: "node_run op pull n nd \<Longrightarrow> node_run op pull (Suc n) (admit_centered op pull nd)"
| advanced: "node_run op pull n nd \<Longrightarrow> advance_round op pull nd = (c, nd') \<Longrightarrow> node_run op pull n nd'"

lemma wait_inv_admit:
  assumes "wait_inv N op p" and "0 \<le> age_cap op" shows "wait_inv (Suc N) op (admit r p)"
proof -
  let ?d = "\<lparr>nd_prompt = req_prompt r, nd_dtot = req_dtot r, nd_dec = 0, nd_wait = 0\<rparr>"
  have k: "older (age_cap op + int k) (p @ [?d]) \<le> Suc N - k" for k
  proof (cases k)
    case 0
    have "older (age_cap op) p \<le> N" using assms(1) older_le [of "age_cap op" p] by (simp add: wait_inv_def)
    with 0 show ?thesis by (simp add: older_def)
  next
    case (Suc j)
    moreover have "older (age_cap op + int k) p \<le> N - k" using assms(1) unfolding wait_inv_def by blast
    ultimately show ?thesis using assms(2) by (simp add: older_def)
  qed
  have "older (age_cap op + int k) p \<le> Suc N - k" for k
  proof -
    have "older (age_cap op + int k) p \<le> N - k" using assms(1) unfolding wait_inv_def by blast
    then show ?thesis by simp
  qed
  with k assms(1) show ?thesis by (auto simp: wait_inv_def admit_def)
qed

lemma node_run_inv:
  assumes "node_run op pull n nd" and "op_ok op" shows "wait_inv n op (pool nd)"
  using assms
proof induction
  case (start s)
  then show ?case by (intro wait_inv_start) (simp_all add: op_ok_def)
next
  case (admitted n nd)
  then show ?case by (auto simp: admit_centered_def Let_def op_ok_def intro: wait_inv_admit split: prod.splits)
next
  case (advanced n nd c nd')
  then show ?case using wait_inv_round [of n op nd pull c nd'] by (simp add: op_ok_def)
qed

text \<open>C25: In every state that a node reaches by admissions and rounds in any order, whatever
  the source of its requests returns, the pool holds at most one decoder for each admission,
  and no decoder has waited for \<open>age_cap + n\<close> rounds or more, where \<open>n\<close> is the number of
  admissions: steering starves no decoder.\<close>
theorem node_run_bounded_wait:
  assumes "node_run op pull n nd" and "op_ok op"
  shows "length (pool nd) \<le> n \<and> (\<forall>q \<in> set (pool nd). 0 \<le> nd_wait q \<and> nd_wait q < age_cap op + int n)"
  using node_run_inv [OF assms] wait_inv_bound by (auto simp: wait_inv_def)

end
