(* ===== verification/Runtime.thy ===== *)
theory Runtime
  imports Node_Scheduler Derive
begin

text \<open>
  \<open>runtime/runtime.cpp\<close>: the queue of waiting requests, the implementation of the request
  source that serves real traffic, and the runtime that fills a node from it. The queue
  interprets the contract of a stocked source, so what the node scheduler promises about
  conservation and progress holds of the runtime.
\<close>

section \<open>The queue\<close>

record QueueSource =
  queue :: "PulledRequest list"

definition enqueue :: "int \<Rightarrow> int \<Rightarrow> QueueSource \<Rightarrow> QueueSource" where
  "enqueue p d s = s\<lparr>queue := queue s @ [\<lparr>req_prompt = p, req_dtot = d\<rparr>]\<rparr>"

definition waiting :: "QueueSource \<Rightarrow> int" where
  "waiting s = int (length (queue s))"

definition queue_best :: "PulledRequest list \<Rightarrow> double \<Rightarrow> int \<Rightarrow> nat option" where
  "queue_best q ideal room =
     scan_first (\<lambda>i. \<not> room < req_prompt (q ! i)) (\<lambda>i. \<bar>dbl (req_prompt (q ! i)) - ideal\<bar>) (<) (length q)"

definition queue_pull_near :: "QueueSource \<Rightarrow> double \<Rightarrow> int \<Rightarrow> PulledRequest \<times> QueueSource" where
  "queue_pull_near s ideal room =
     (case queue_best (queue s) ideal room of
        None \<Rightarrow> (no_request, s)
      | Some best \<Rightarrow>
          (queue s ! best, s\<lparr>queue := take best (queue s) @ drop (Suc best) (queue s)\<rparr>))"

lemma queue_best_Some:
  assumes "queue_best q ideal room = Some i"
  shows "i < length q" and "req_prompt (q ! i) \<le> room"
    and "\<And>j. j < length q \<Longrightarrow> req_prompt (q ! j) \<le> room \<Longrightarrow>
      \<not> \<bar>dbl (req_prompt (q ! j)) - ideal\<bar> < \<bar>dbl (req_prompt (q ! i)) - ideal\<bar>"
  using dbl_lt.scan1_Some [OF assms [unfolded queue_best_def]] by auto

lemma queue_best_None: "queue_best q ideal room = None \<longleftrightarrow> (\<forall>r \<in> set q. room < req_prompt r)"
  unfolding queue_best_def dbl_lt.scan1_None by (simp add: all_set_conv_all_nth)

lemma mset_remove_nth: "i < length xs \<Longrightarrow> mset xs = add_mset (xs ! i) (mset (take i xs @ drop (Suc i) xs))"
  by (subst id_take_nth_drop [of i xs]) auto

interpretation queue_source: stocked_source queue_pull_near "\<lambda>s. mset (queue s)"
proof unfold_locales
  fix s ideal room r s'
  assume pull: "queue_pull_near s ideal room = (r, s')"
  { assume "0 \<le> req_prompt r"
    then show "req_prompt r \<le> room"
      using pull by (auto simp: queue_pull_near_def dest: queue_best_Some split: option.splits) }
  { assume "0 \<le> req_prompt r"
    then show "mset (queue s) = add_mset r (mset (queue s'))"
      using pull mset_remove_nth [of _ "queue s"] queue_best_Some(1) [of "queue s" ideal room]
      by (auto simp: queue_pull_near_def split: option.splits) }
  { assume "\<not> 0 \<le> req_prompt r"
    then show "mset (queue s') = mset (queue s)
        \<or> (\<exists>x. req_prompt x < 0 \<and> mset (queue s) = add_mset x (mset (queue s')))"
      using pull mset_remove_nth [of _ "queue s"] queue_best_Some(1) [of "queue s" ideal room]
      by (auto simp: queue_pull_near_def split: option.splits) }
qed

section \<open>The runtime\<close>

text \<open>The node of the runtime refers to its queue: the state of the node's source is the queue.\<close>

record PulsRuntime =
  rt_op :: OperatingPoint
  rt_node :: "QueueSource NodeScheduler"

definition make_runtime :: "ModelSpec \<Rightarrow> HwSpec \<Rightarrow> int \<Rightarrow> PulsRuntime" where
  "make_runtime model hw prefill =
     \<lparr>rt_op = derive_operating_point model hw prefill default_options,
      rt_node = \<lparr>pool = [], src = \<lparr>queue = []\<rparr>\<rparr>\<rparr>"

function warm_fill_loop ::
  "OperatingPoint \<Rightarrow> int \<Rightarrow> int \<Rightarrow> QueueSource NodeScheduler \<Rightarrow> QueueSource NodeScheduler" where
  "warm_fill_loop op budget guard nd =
     (if int (length (pool nd)) < decode_pool op \<and> 0 < waiting (src nd) \<and> guard < budget
      then (let nd' = admit_centered op queue_pull_near nd
            in if length (pool nd') = length (pool nd) then nd'
               else warm_fill_loop op budget (guard + 1) nd')
      else nd)"
  by pat_completeness auto
termination
  by (relation "measure (\<lambda>(op, budget, guard, nd). nat (budget - guard))") auto

declare warm_fill_loop.simps [simp del]

definition warm_fill :: "PulsRuntime \<Rightarrow> PulsRuntime" where
  "warm_fill rt =
     (let budget = decode_pool (rt_op rt) + waiting (src (rt_node rt)) + 4
      in rt\<lparr>rt_node := warm_fill_loop (rt_op rt) budget 0 (rt_node rt)\<rparr>)"

definition runtime_round :: "PulsRuntime \<Rightarrow> int \<times> PulsRuntime" where
  "runtime_round rt =
     (case advance_round (rt_op rt) queue_pull_near (rt_node rt) of
        (c, nd) \<Rightarrow> (c, rt\<lparr>rt_node := nd\<rparr>))"

text \<open>The demonstration: a fixed list of requests around the balance point, two rounds.\<close>

definition demo_requests :: "OperatingPoint \<Rightarrow> PulledRequest list" where
  "demo_requests op =
     (let c = to_i32 (ctx_balance op)
      in map (\<lambda>k. \<lparr>req_prompt = cdiv c 2 + int (k mod 5) * cdiv c 4, req_dtot = 1 + int (k mod 2)\<rparr>)
           [0..<nat (decode_pool op + 20)])"

definition run_runtime_demo :: "int \<times> int \<times> PulsRuntime" where
  "run_runtime_demo =
     (let rt = make_runtime llama70b b200 128;
          q = fold (\<lambda>r s. enqueue (req_prompt r) (req_dtot r) s) (demo_requests (rt_op rt)) (src (rt_node rt));
          rt = warm_fill (rt\<lparr>rt_node := (rt_node rt)\<lparr>src := q\<rparr>\<rparr>)
      in case runtime_round rt of (d1, rt) \<Rightarrow> case runtime_round rt of (d2, rt) \<Rightarrow> (d1, d2, rt))"

section \<open>Filling the node\<close>

lemma admit_centered_cases:
  assumes "admit_centered op queue_pull_near nd = nd'" and "\<forall>r \<in> set (queue (src nd)). 0 \<le> req_prompt r"
  shows "(length (pool nd') = length (pool nd) + 1 \<and> length (queue (src nd)) = length (queue (src nd')) + 1)
    \<or> (nd' = nd \<and> (\<forall>r \<in> set (queue (src nd)). node_cap_room op < req_prompt r))"
proof -
  obtain ideal r s where r: "queue_pull_near (src nd) ideal (node_cap_room op) = (r, s)"
    and nd': "nd' = \<lparr>pool = admit r (pool nd), src = s\<rparr>"
    using assms(1) by (fastforce simp: admit_centered_def Let_def split: prod.splits)
  show ?thesis
  proof (cases "queue_best (queue (src nd)) ideal (node_cap_room op)")
    case None
    with r nd' show ?thesis
      using queue_best_None by (auto simp: queue_pull_near_def admit_def)
  next
    case (Some b)
    note b = queue_best_Some(1) [OF Some]
    with r Some assms(2) show ?thesis by (auto simp: nd' queue_pull_near_def admit_def)
  qed
qed

abbreviation queued :: "QueueSource \<Rightarrow> PulledRequest multiset" where
  "queued s \<equiv> mset (queue s)"

definition resident_and_waiting :: "QueueSource NodeScheduler \<Rightarrow> PulledRequest multiset" where
  "resident_and_waiting nd = requests (pool nd) + mset (queue (src nd))"

lemma warm_fill_loop_result:
  assumes "\<forall>r \<in> set (queue (src nd)). 0 \<le> req_prompt r"
    and "int (length (queue (src nd))) < budget - guard"
    and "nd' = warm_fill_loop op budget guard nd"
  shows "resident_and_waiting nd' = resident_and_waiting nd
    \<and> (int (length (pool nd')) \<le> max (int (length (pool nd))) (decode_pool op))
    \<and> (decode_pool op \<le> int (length (pool nd')) \<or> (\<forall>r \<in> set (queue (src nd')). node_cap_room op < req_prompt r))"
  using assms
proof (induction op budget guard nd arbitrary: nd' rule: warm_fill_loop.induct)
  case (1 op budget guard nd)
  let ?go = "int (length (pool nd)) < decode_pool op \<and> 0 < waiting (src nd) \<and> guard < budget"
  let ?n = "admit_centered op queue_pull_near nd"
  have cons: "resident_and_waiting ?n = resident_and_waiting nd" and valid: "\<forall>r \<in> set (queue (src ?n)). 0 \<le> req_prompt r"
    using queue_source.admit_conserves [of op nd ?n] 1(2) by (simp_all add: resident_and_waiting_def)
  show ?case
  proof (cases ?go)
    case False
    with 1(3,4) show ?thesis by (auto simp: warm_fill_loop.simps [of op budget guard nd] waiting_def)
  next
    case go: True
    show ?thesis
    proof (cases "length (pool ?n) = length (pool nd)")
      case True
      with go 1(4) have nd': "nd' = ?n" by (simp add: warm_fill_loop.simps [of op budget guard nd] Let_def)
      from True admit_centered_cases [of op nd ?n] 1(2) cons go show ?thesis by (auto simp: nd')
    next
      case False
      with go 1(4) have nd': "nd' = warm_fill_loop op budget (guard + 1) ?n"
        by (simp add: warm_fill_loop.simps [of op budget guard nd] Let_def)
      from False admit_centered_cases [of op nd ?n] 1(2)
      have len: "length (pool ?n) = length (pool nd) + 1" "length (queue (src nd)) = length (queue (src ?n)) + 1" by auto
      from 1(1) [OF go refl False valid _ nd'] len 1(3) cons go show ?thesis by auto
    qed
  qed
qed

section \<open>Properties\<close>

definition demo_queue :: QueueSource where
  "demo_queue = \<lparr>queue = [\<lparr>req_prompt = 90, req_dtot = 2\<rparr>, \<lparr>req_prompt = 5000, req_dtot = 1\<rparr>,
     \<lparr>req_prompt = 120, req_dtot = 1\<rparr>, \<lparr>req_prompt = 70, req_dtot = 3\<rparr>]\<rparr>"

definition demo_node :: "QueueSource NodeScheduler" where
  "demo_node = \<lparr>pool = [\<lparr>nd_prompt = 100, nd_dtot = 2, nd_dec = 1, nd_wait = 0\<rparr>,
     \<lparr>nd_prompt = 110, nd_dtot = 9, nd_dec = 0, nd_wait = 6\<rparr>], src = demo_queue\<rparr>"

lemma demo_valid: "\<forall>r \<in> set (queue demo_queue). 0 \<le> req_prompt r" "node_ok queued demo_node" "op_ok small_op"
  by (simp_all add: demo_queue_def node_ok_def demo_node_def pool_ok_def request_ok_def as_request_def
      op_ok_def small_op_def)

text \<open>The queue hands out a request whose length is nearest to the ideal among those that
  fit the room, removes exactly this one and keeps the order of the others; it answers with
  no request, and keeps the queue, if and only if no request fits.\<close>
theorem queue_pull_near_nearest:
  assumes "queue_pull_near s ideal room = (r, s')"
  shows "(\<exists>i < length (queue s). r = queue s ! i \<and> req_prompt r \<le> room
       \<and> (\<forall>x \<in> set (queue s). req_prompt x \<le> room \<longrightarrow>
            \<not> \<bar>dbl (req_prompt x) - ideal\<bar> < \<bar>dbl (req_prompt r) - ideal\<bar>)
       \<and> queue s' = take i (queue s) @ drop (Suc i) (queue s))
    \<or> (r = no_request \<and> s' = s \<and> (\<forall>x \<in> set (queue s). room < req_prompt x))"
proof (cases "queue_best (queue s) ideal room")
  case None
  with assms show ?thesis using queue_best_None by (auto simp: queue_pull_near_def)
next
  case (Some i)
  note b = queue_best_Some [OF Some]
  have "\<forall>x \<in> set (queue s). req_prompt x \<le> room \<longrightarrow>
      \<not> \<bar>dbl (req_prompt x) - ideal\<bar> < \<bar>dbl (req_prompt (queue s ! i)) - ideal\<bar>"
    using b(3) by (simp add: all_set_conv_all_nth)
  with Some assms b(1,2) show ?thesis by (intro disjI1 exI [of _ i]) (auto simp: queue_pull_near_def)
qed

theorem queue_pull_near_nearest_witness:
  "queue_pull_near demo_queue (dlit 110) 1000 = (\<lparr>req_prompt = 120, req_dtot = 1\<rparr>,
     \<lparr>queue = [\<lparr>req_prompt = 90, req_dtot = 2\<rparr>, \<lparr>req_prompt = 5000, req_dtot = 1\<rparr>, \<lparr>req_prompt = 70, req_dtot = 3\<rparr>]\<rparr>)
   \<and> \<not> \<bar>dbl 90 - dlit 110\<bar> < \<bar>dbl 120 - dlit 110\<bar>"
proof -
  have run: "queue_pull_near demo_queue (dlit 110) 1000 = (\<lparr>req_prompt = 120, req_dtot = 1\<rparr>,
     \<lparr>queue = [\<lparr>req_prompt = 90, req_dtot = 2\<rparr>, \<lparr>req_prompt = 5000, req_dtot = 1\<rparr>, \<lparr>req_prompt = 70, req_dtot = 3\<rparr>]\<rparr>)"
    by code_simp
  from queue_pull_near_nearest [OF this] run show ?thesis by (auto simp: demo_queue_def no_request_def)
qed

text \<open>Filling a node loses and invents no request, overfills nothing, and stops only when the
  pool has reached \<open>decode_pool\<close> or no waiting request fits (in particular, none waits): the
  loop's guard is never what stops it.\<close>
theorem warm_fill_fills:
  assumes "\<forall>r \<in> set (queue (src (rt_node rt))). 0 \<le> req_prompt r" and "0 \<le> decode_pool (rt_op rt)"
  shows "resident_and_waiting (rt_node (warm_fill rt)) = resident_and_waiting (rt_node rt)
    \<and> int (length (pool (rt_node (warm_fill rt)))) \<le> max (int (length (pool (rt_node rt)))) (decode_pool (rt_op rt))
    \<and> (decode_pool (rt_op rt) \<le> int (length (pool (rt_node (warm_fill rt))))
       \<or> (\<forall>r \<in> set (queue (src (rt_node (warm_fill rt)))). node_cap_room (rt_op rt) < req_prompt r))"
  using assms(2) by (simp add: warm_fill_def Let_def waiting_def)
    (rule warm_fill_loop_result [OF assms(1) _ refl], simp)

theorem warm_fill_fills_witness:
  "resident_and_waiting (rt_node (warm_fill \<lparr>rt_op = small_op, rt_node = demo_node\<rparr>)) = resident_and_waiting demo_node
   \<and> length (pool (rt_node (warm_fill \<lparr>rt_op = small_op, rt_node = demo_node\<rparr>))) = 5"
proof -
  have "length (pool (rt_node (warm_fill \<lparr>rt_op = small_op, rt_node = demo_node\<rparr>))) = 5" by code_simp
  then show ?thesis
    using warm_fill_fills [of "\<lparr>rt_op = small_op, rt_node = demo_node\<rparr>"] demo_valid(1)
    by (simp add: demo_node_def small_op_def)
qed

text \<open>C33: A round of the runtime conserves requests: those resident or waiting before are those
  resident or waiting after and as many finished ones as the round reports; the pool does not
  grow.\<close>
theorem runtime_round_conserves:
  assumes "runtime_round rt = (c, rt')" and "\<forall>r \<in> set (queue (src (rt_node rt))). 0 \<le> req_prompt r"
  shows "\<exists>done. resident_and_waiting (rt_node rt) = resident_and_waiting (rt_node rt') + done \<and> int (size done) = c
    \<and> length (pool (rt_node rt')) \<le> length (pool (rt_node rt))"
proof -
  from assms(1) obtain nd where nd: "advance_round (rt_op rt) queue_pull_near (rt_node rt) = (c, nd)" "rt' = rt\<lparr>rt_node := nd\<rparr>"
    by (auto simp: runtime_round_def split: prod.splits)
  have "length (pool nd) \<le> length (pool (rt_node rt))"
    using heal_holes_appends [OF advance_round_unfold(2) [OF nd(1)]]
      sum_length_filter_compl [of finished "advance (round_used (rt_op rt) (pool (rt_node rt))) (pool (rt_node rt))"]
    by auto
  with queue_source.round_conserves [OF nd(1)] assms(2) nd(2) show ?thesis
    by (auto simp: resident_and_waiting_def)
qed

theorem runtime_round_conserves_witness:
  "\<exists>done. resident_and_waiting demo_node
     = resident_and_waiting (rt_node (snd (runtime_round \<lparr>rt_op = small_op, rt_node = demo_node\<rparr>))) + done
     \<and> int (size done) = 1"
proof -
  have "fst (runtime_round \<lparr>rt_op = small_op, rt_node = demo_node\<rparr>) = 1" by code_simp
  then obtain rt' where run: "runtime_round \<lparr>rt_op = small_op, rt_node = demo_node\<rparr> = (1, rt')"
    by (metis prod.collapse)
  from runtime_round_conserves [OF run] demo_valid(1) run show ?thesis by (auto simp: demo_node_def)
qed

text \<open>C26: The runtime drains. When no further request is enqueued, enough rounds, at most the
  number of tokens left to decode and of requests, empty the pool: every request that was
  admitted finishes.\<close>
theorem runtime_drains:
  assumes "node_ok queued (rt_node rt)" and "op_ok (rt_op rt)"
  shows "\<exists>n \<le> node_work queued (rt_node rt). pool (rt_node (((snd \<circ> runtime_round) ^^ n) rt)) = []"
  using assms
proof (induction "node_work queued (rt_node rt)" arbitrary: rt rule: less_induct)
  case less
  show ?case
  proof (cases "pool (rt_node rt) = []")
    case True
    then show ?thesis by (intro exI [of _ 0]) simp
  next
    case False
    obtain c nd where nd: "advance_round (rt_op rt) queue_pull_near (rt_node rt) = (c, nd)" by fastforce
    let ?rt = "rt\<lparr>rt_node := nd\<rparr>"
    have step: "snd (runtime_round rt) = ?rt" by (simp add: runtime_round_def nd)
    from queue_source.round_progress [OF nd less.prems] False
    have lt: "node_work queued (rt_node ?rt) < node_work queued (rt_node rt)" and ok: "node_ok queued (rt_node ?rt)"
      by simp_all
    from less.hyps [OF lt ok] less.prems(2) obtain n where
      n: "n \<le> node_work queued (rt_node ?rt)" "pool (rt_node (((snd \<circ> runtime_round) ^^ n) ?rt)) = []" by auto
    have "((snd \<circ> runtime_round) ^^ Suc n) rt = ((snd \<circ> runtime_round) ^^ n) ?rt"
      by (simp only: funpow_Suc_right o_apply step)
    with n lt show ?thesis by (intro exI [of _ "Suc n"]) simp
  qed
qed

theorem runtime_drains_witness:
  "\<exists>n \<le> 23. pool (rt_node (((snd \<circ> runtime_round) ^^ n) \<lparr>rt_op = small_op, rt_node = demo_node\<rparr>)) = []"
proof -
  have "node_work queued demo_node = 23"
    by (simp add: node_work_def pool_work_def stock_work_def token_work_def demo_node_def demo_queue_def)
  then show ?thesis
    using runtime_drains [of "\<lparr>rt_op = small_op, rt_node = demo_node\<rparr>"] demo_valid(2,3) by simp
qed

text \<open>The bounded wait of \<open>node_run_bounded_wait\<close> at a run of the queue's node.\<close>
theorem node_run_bounded_wait_witness:
  "filter (\<lambda>q. \<not> (0 \<le> nd_wait q \<and> nd_wait q < 6)) (pool (snd (advance_round small_op queue_pull_near
     (admit_centered small_op queue_pull_near \<lparr>pool = [], src = demo_queue\<rparr>)))) = []"
proof -
  let ?nd = "admit_centered small_op queue_pull_near \<lparr>pool = [], src = demo_queue\<rparr>"
  have "node_run small_op queue_pull_near 1 (snd (advance_round small_op queue_pull_near ?nd))"
    using node_run.advanced [OF node_run.admitted [OF node_run.start]] by (metis One_nat_def prod.collapse)
  from node_run_bounded_wait [OF this demo_valid(3)] show ?thesis by (simp add: small_op_def filter_empty_conv)
qed

text \<open>Long decoders: each reaches the KV target alone, so that a batch takes one of them.\<close>

definition fair_op :: OperatingPoint where
  "fair_op = small_op\<lparr>age_cap := 1\<rparr>"

definition long_queue :: QueueSource where
  "long_queue = \<lparr>queue = replicate 7 \<lparr>req_prompt = 250, req_dtot = 100\<rparr>\<rparr>"

fun node_script :: "nat \<Rightarrow> nat \<Rightarrow> QueueSource NodeScheduler \<Rightarrow> QueueSource NodeScheduler" where
  "node_script (Suc a) n nd = node_script a n (admit_centered fair_op queue_pull_near nd)"
| "node_script 0 (Suc n) nd = node_script 0 n (snd (advance_round fair_op queue_pull_near nd))"
| "node_script 0 0 nd = nd"

lemma node_script_run: "node_run fair_op queue_pull_near k nd \<Longrightarrow> node_run fair_op queue_pull_near (k + a) (node_script a n nd)"
proof (induction a n nd arbitrary: k rule: node_script.induct)
  case (1 a n nd)
  from "1.IH" [OF node_run.admitted [OF "1.prems"]] show ?case by simp
next
  case (2 n nd)
  from "2.IH" [OF node_run.advanced [OF "2.prems" surjective_pairing]] show ?case by simp
qed simp

text \<open>The age cap alone is no bound on the wait: seven decoders that each fill a batch alone
  leave one of them waiting for more than \<open>age_cap + 1\<close> rounds. The bound that holds grows with
  the pool.\<close>
theorem age_cap_exceeded:
  "\<exists>nd q. node_run fair_op queue_pull_near 7 nd \<and> q \<in> set (pool nd) \<and> age_cap fair_op + 1 < nd_wait q"
proof -
  let ?nd = "node_script 7 3 \<lparr>pool = [], src = long_queue\<rparr>"
  have "node_run fair_op queue_pull_near 7 ?nd" using node_script_run [OF node_run.start, of 7 3] by simp
  moreover have "list_ex (\<lambda>q. age_cap fair_op + 1 < nd_wait q) (pool ?nd)" by code_simp
  ultimately show ?thesis by (auto simp: list_ex_iff)
qed

end
