(* ===== verification/Global_Scheduler.thy ===== *)
theory Global_Scheduler
  imports Runtime
begin

text \<open>
  \<open>core/global_scheduler.cpp\<close>: the layer above the nodes. The gate sheds the longest requests
  until the mean of the rest is in reach of the balance point, the cold start distributes
  the rest greedily over the nodes, healing refills the holes of a node one by one, and the
  on-point check composes disjoint batches from the lengths of a node. The random order of
  the arrivals (\<open>std::shuffle\<close> over \<open>std::mt19937\<close>, whose result the standard leaves to the
  implementation) is the parameter \<open>shuffle\<close>.
\<close>

section \<open>The model\<close>

record ClusterNode =
  cn_lengths :: "int list"
  cn_total :: int

definition node_count :: "ClusterNode \<Rightarrow> int" where
  "node_count nd = int (length (cn_lengths nd))"

definition node_mean :: "ClusterNode \<Rightarrow> double" where
  "node_mean nd = (if cn_lengths nd = [] then dlit 0 else dbl (cn_total nd) / dbl (node_count nd))"

definition node_admit :: "int \<Rightarrow> ClusterNode \<Rightarrow> ClusterNode" where
  "node_admit len nd = \<lparr>cn_lengths = cn_lengths nd @ [len], cn_total = cn_total nd + len\<rparr>"

subsection \<open>The gate\<close>

record GateResult =
  kept :: "int list"
  edged :: "int list"

text \<open>The loop returns the number \<open>i\<close> of requests it sheds from the front.\<close>

fun gate_loop :: "double \<Rightarrow> int list \<Rightarrow> int \<Rightarrow> nat" where
  "gate_loop ceil [] tot = 0"
| "gate_loop ceil (x # xs) tot =
     (if ceil < dbl tot / dbl (int (length (x # xs))) then Suc (gate_loop ceil xs (tot - x)) else 0)"

definition gate :: "int list \<Rightarrow> OperatingPoint \<Rightarrow> GateResult" where
  "gate draw op =
     (let draw = rev (sort draw);
          tot = fold (\<lambda>x t. t + x) draw 0;
          i = gate_loop (ctx_balance op + edge_band op) draw tot
      in \<lparr>kept = drop i draw, edged = take i draw\<rparr>)"

subsection \<open>The cold start\<close>

definition cold_fits :: "OperatingPoint \<Rightarrow> int \<Rightarrow> ClusterNode \<Rightarrow> bool" where
  "cold_fits op len nd \<longleftrightarrow> \<not> (node_footprint_cap op < cn_total nd + len \<or> node_max op \<le> node_count nd)"

definition cold_dev :: "OperatingPoint \<Rightarrow> int \<Rightarrow> ClusterNode \<Rightarrow> double" where
  "cold_dev op len nd = \<bar>dbl (cn_total nd + len) / dbl (node_count nd + 1) - ctx_balance op\<bar>"

definition cold_best :: "OperatingPoint \<Rightarrow> int \<Rightarrow> ClusterNode list \<Rightarrow> nat option" where
  "cold_best op len nodes =
     scan_best (\<lambda>j. cold_fits op len (nodes ! j)) (\<lambda>j. cold_dev op len (nodes ! j)) (<) (dlit (10 ^ 18)) (length nodes)"

definition cold_place :: "OperatingPoint \<Rightarrow> int \<Rightarrow> ClusterNode list \<times> int \<Rightarrow> ClusterNode list \<times> int" where
  "cold_place op len st =
     (case st of (nodes, leftover) \<Rightarrow>
        (case cold_best op len nodes of
           None \<Rightarrow> (nodes, leftover + 1)
         | Some best \<Rightarrow> (nodes[best := node_admit len (nodes ! best)], leftover)))"

definition cold_start ::
  "(nat \<Rightarrow> int list \<Rightarrow> int list) \<Rightarrow> int list \<Rightarrow> ClusterNode list \<Rightarrow> OperatingPoint \<Rightarrow> nat \<Rightarrow> ClusterNode list \<times> int" where
  "cold_start shuffle lens nodes op seed = fold (cold_place op) (shuffle seed lens) (nodes, 0)"

subsection \<open>Healing\<close>

fun heal_loop ::
  "('s \<Rightarrow> double \<Rightarrow> int \<Rightarrow> PulledRequest \<times> 's) \<Rightarrow> OperatingPoint \<Rightarrow> int list \<Rightarrow> ClusterNode \<Rightarrow> 's \<Rightarrow> int
   \<Rightarrow> ClusterNode \<times> 's \<times> int" where
  "heal_loop pull op [] nd s pulls = (nd, s, pulls)"
| "heal_loop pull op (hole # departed) nd s pulls =
     (let cap_room = node_footprint_cap op - cn_total nd
      in if cap_room \<le> 0 then (nd, s, pulls)
         else (case pull s (dbl hole) cap_room of
                 (req, s') \<Rightarrow>
                   if req_prompt req < 0 then (nd, s', pulls)
                   else heal_loop pull op departed (node_admit (req_prompt req) nd) s' (pulls + 1)))"

definition heal_node ::
  "('s \<Rightarrow> double \<Rightarrow> int \<Rightarrow> PulledRequest \<times> 's) \<Rightarrow> ClusterNode \<Rightarrow> int list \<Rightarrow> OperatingPoint \<Rightarrow> 's
   \<Rightarrow> ClusterNode \<times> 's \<times> int" where
  "heal_node pull nd departed op s = heal_loop pull op departed nd s 0"

subsection \<open>The on-point check\<close>

fun scan_down :: "bool list \<Rightarrow> nat \<Rightarrow> nat option" where
  "scan_down used 0 = None"
| "scan_down used (Suc i) = (if used ! i then scan_down used i else Some i)"

function scan_up :: "bool list \<Rightarrow> nat \<Rightarrow> nat \<Rightarrow> nat option" where
  "scan_up used m i = (if i < m then if used ! i then scan_up used m (i + 1) else Some i else None)"
  by pat_completeness auto
termination
  by (relation "measure (\<lambda>(used, m, i). m - i)") auto

declare scan_up.simps [simp del]

definition lower_bound :: "int list \<Rightarrow> int \<Rightarrow> nat" where
  "lower_bound a x = length (takeWhile (\<lambda>y. y < x) a)"

definition onpoint_pick :: "int list \<Rightarrow> bool list \<Rightarrow> int \<Rightarrow> nat option" where
  "onpoint_pick a used ideal =
     (let pos = lower_bound a ideal
      in case (scan_down used pos, scan_up used (length a) pos) of
           (None, None) \<Rightarrow> None
         | (None, Some Rp) \<Rightarrow> Some Rp
         | (Some Lp, None) \<Rightarrow> Some Lp
         | (Some Lp, Some Rp) \<Rightarrow> Some (if ideal - a ! Lp \<le> a ! Rp - ideal then Lp else Rp))"

function onpoint_one ::
  "int list \<Rightarrow> OperatingPoint \<Rightarrow> bool list \<Rightarrow> int \<Rightarrow> int \<Rightarrow> nat list \<Rightarrow> nat list \<times> bool list \<times> int \<times> int" where
  "onpoint_one a op used S n pick =
     (if n < decode_count_target op \<and> S < kv_operating_target op
      then (case onpoint_pick a used (llround (dbl (kv_operating_target op - S) / dbl (decode_count_target op - n))) of
              None \<Rightarrow> (pick, used, S, n)
            | Some best \<Rightarrow> onpoint_one a op (used[best := True]) (S + a ! best) (n + 1) (pick @ [best]))
      else (pick, used, S, n))"
  by pat_completeness auto
termination
  by (relation "measure (\<lambda>(a, op, used, S, n, pick). nat (decode_count_target op - n))") auto

declare onpoint_one.simps [simp del]

definition on_point :: "OperatingPoint \<Rightarrow> int \<Rightarrow> int \<Rightarrow> bool" where
  "on_point op S n \<longleftrightarrow> n = decode_count_target op
     \<and> \<bar>dbl S - dbl (kv_operating_target op)\<bar> / dbl (kv_operating_target op) \<le> idle_band op"

fun onpoint_rounds :: "nat \<Rightarrow> int list \<Rightarrow> OperatingPoint \<Rightarrow> bool list \<Rightarrow> int \<Rightarrow> bool list \<times> int" where
  "onpoint_rounds 0 a op used got = (used, got)"
| "onpoint_rounds (Suc b) a op used got =
     (case onpoint_one a op used 0 0 [] of
        (pick, used', S, n) \<Rightarrow>
          if on_point op S n then onpoint_rounds b a op used' (got + 1)
          else (fold (\<lambda>i u. u[i := False]) pick used', got))"

definition onpoint_batches :: "ClusterNode \<Rightarrow> OperatingPoint \<Rightarrow> int \<Rightarrow> int" where
  "onpoint_batches nd op k =
     (if node_count nd < decode_count_target op then 0
      else snd (onpoint_rounds (nat k) (sort (cn_lengths nd)) op (replicate (length (cn_lengths nd)) False) 0))"

section \<open>The gate: what it sheds\<close>

lemma gate_loop_le: "gate_loop c xs tot \<le> length xs"
  by (induction xs arbitrary: tot) auto

lemma gate_loop_shed:
  "j < gate_loop c xs tot \<Longrightarrow> tot = sum_list xs \<Longrightarrow>
     c < dbl (sum_list (drop j xs)) / dbl (int (length (drop j xs)))"
proof (induction xs arbitrary: j tot)
  case (Cons x xs)
  then show ?case by (cases j) (auto split: if_splits)
qed simp

lemma gate_loop_stop:
  "tot = sum_list xs \<Longrightarrow> drop (gate_loop c xs tot) xs = []
     \<or> \<not> c < dbl (sum_list (drop (gate_loop c xs tot) xs)) / dbl (int (length (drop (gate_loop c xs tot) xs)))"
  by (induction xs arbitrary: tot) auto

lemma fold_sum: "fold (\<lambda>x t. t + x) xs a = a + sum_list (xs :: int list)"
  by (induction xs arbitrary: a) auto

section \<open>The cold start\<close>

text \<open>The invariant of a node: its total is the sum of its lengths and within both caps.\<close>

definition cn_ok :: "OperatingPoint \<Rightarrow> ClusterNode \<Rightarrow> bool" where
  "cn_ok op nd \<longleftrightarrow> cn_total nd = sum_list (cn_lengths nd) \<and> cn_total nd \<le> node_footprint_cap op
     \<and> node_count nd \<le> node_max op"

definition cluster_lengths :: "ClusterNode list \<Rightarrow> int multiset" where
  "cluster_lengths nodes = (\<Sum>nd \<leftarrow> nodes. mset (cn_lengths nd))"

lemma cluster_lengths_update:
  "j < length nodes \<Longrightarrow> cluster_lengths (nodes[j := node_admit len (nodes ! j)]) = add_mset len (cluster_lengths nodes)"
  by (induction nodes arbitrary: j) (auto simp: cluster_lengths_def node_admit_def split: nat.splits)

lemma cold_place_inv:
  assumes "cold_place op len (nodes, lo) = (nodes', lo')" and "\<forall>nd \<in> set nodes. cn_ok op nd"
  shows "(\<forall>nd \<in> set nodes'. cn_ok op nd) \<and> length nodes' = length nodes
    \<and> ((lo' = lo \<and> cluster_lengths nodes' = add_mset len (cluster_lengths nodes)) \<or> (lo' = lo + 1 \<and> nodes' = nodes))"
proof (cases "cold_best op len nodes")
  case None
  with assms show ?thesis by (simp add: cold_place_def)
next
  case (Some j)
  from dbl_lt.scan_Some(1,2) [OF this [unfolded cold_best_def]]
  have j: "j < length nodes" "cold_fits op len (nodes ! j)" by auto
  then have "cn_ok op (node_admit len (nodes ! j))"
    using assms(2) nth_mem [OF j(1)] by (auto simp: cn_ok_def node_admit_def cold_fits_def node_count_def)
  then have "\<forall>nd \<in> set (nodes[j := node_admit len (nodes ! j)]). cn_ok op nd"
    using assms(2) set_update_subset_insert by fastforce
  with assms(1) Some j show ?thesis by (auto simp: cold_place_def cluster_lengths_update)
qed

lemma cold_fold_inv:
  assumes "fold (cold_place op) lens (nodes, lo) = (nodes', lo')" and "\<forall>nd \<in> set nodes. cn_ok op nd"
  shows "(\<forall>nd \<in> set nodes'. cn_ok op nd) \<and> length nodes' = length nodes
    \<and> (\<exists>rest. cluster_lengths nodes' + rest = cluster_lengths nodes + mset lens \<and> int (size rest) = lo' - lo)"
  using assms
proof (induction lens arbitrary: nodes lo)
  case Nil
  then show ?case by (auto intro: exI [of _ "{#}"])
next
  case (Cons len lens)
  obtain nodes1 lo1 where p: "cold_place op len (nodes, lo) = (nodes1, lo1)" by fastforce
  note inv = cold_place_inv [OF p Cons.prems(2)]
  have "fold (cold_place op) lens (nodes1, lo1) = (nodes', lo')" using Cons.prems(1) p by simp
  from Cons.IH [OF this] inv obtain rest where rest:
    "\<forall>nd \<in> set nodes'. cn_ok op nd" "length nodes' = length nodes"
    "cluster_lengths nodes' + rest = cluster_lengths nodes1 + mset lens" "int (size rest) = lo' - lo1" by auto
  from inv have "(lo1 = lo \<and> cluster_lengths nodes1 = add_mset len (cluster_lengths nodes))
      \<or> (lo1 = lo + 1 \<and> nodes1 = nodes)" by blast
  then show ?case
  proof
    assume "lo1 = lo \<and> cluster_lengths nodes1 = add_mset len (cluster_lengths nodes)"
    with rest show ?thesis by (intro conjI exI [of _ rest]) auto
  next
    assume "lo1 = lo + 1 \<and> nodes1 = nodes"
    with rest show ?thesis by (intro conjI exI [of _ "add_mset len rest"]) auto
  qed
qed

text \<open>The values for which the selection's start value 1e18 excludes nothing.\<close>

definition cold_range :: "OperatingPoint \<Rightarrow> int \<Rightarrow> ClusterNode \<Rightarrow> bool" where
  "cold_range op len nd \<longleftrightarrow> below58 (ctx_balance op) \<and> \<bar>cn_total nd + len\<bar> \<le> 2 ^ 58 \<and> node_count nd + 1 < 2 ^ 31"

lemma cold_best_None:
  "cold_best op len nodes = None \<Longrightarrow> nd \<in> set nodes \<Longrightarrow> cold_range op len nd \<Longrightarrow> \<not> cold_fits op len nd"
proof
  assume none: "cold_best op len nodes = None" and nd: "nd \<in> set nodes" and r: "cold_range op len nd" and "cold_fits op len nd"
  obtain j where j: "j < length nodes" "nd = nodes ! j" using nd by (auto simp: in_set_conv_nth)
  have "cold_dev op len nd < dlit (10 ^ 18)"
    unfolding cold_dev_def using r by (intro below58_diff below58_quot) (auto simp: cold_range_def node_count_def)
  with none j \<open>cold_fits op len nd\<close> show False by (simp add: cold_best_def dbl_lt.scan_None)
qed

section \<open>Healing\<close>

lemma heal_loop_inv:
  assumes "request_source pull" and "heal_loop pull op departed nd s pulls = (nd', s', pulls')"
    and "cn_total nd = sum_list (cn_lengths nd)" and "cn_total nd \<le> node_footprint_cap op"
  shows "cn_total nd' = sum_list (cn_lengths nd') \<and> cn_total nd' \<le> node_footprint_cap op
    \<and> node_count nd' = node_count nd + (pulls' - pulls) \<and> pulls \<le> pulls' \<and> pulls' - pulls \<le> int (length departed)
    \<and> (\<exists>new. cn_lengths nd' = cn_lengths nd @ new \<and> (\<forall>x \<in> set new. 0 \<le> x))"
  using assms(2-)
proof (induction departed arbitrary: nd s pulls)
  case (Cons hole departed)
  let ?room = "node_footprint_cap op - cn_total nd"
  obtain req s1 where p: "pull s (dbl hole) ?room = (req, s1)" by fastforce
  show ?case
  proof (cases "?room \<le> 0 \<or> req_prompt req < 0")
    case True
    with Cons.prems p show ?thesis by (auto simp: Let_def split: if_splits)
  next
    case False
    let ?n = "node_admit (req_prompt req) nd"
    have run: "heal_loop pull op departed ?n s1 (pulls + 1) = (nd', s', pulls')"
      using Cons.prems(1) False p by (auto simp: Let_def)
    have "req_prompt req \<le> ?room" using request_source.pull_fits [OF assms(1) p] False by simp
    then have ok: "cn_total ?n = sum_list (cn_lengths ?n)" "cn_total ?n \<le> node_footprint_cap op"
      using Cons.prems(2) by (auto simp: node_admit_def)
    show ?thesis using Cons.IH [OF run ok] False by (auto simp: node_admit_def node_count_def)
  qed
qed auto

context stocked_source
begin

text \<open>Healing moves requests from the stock to the node.\<close>

lemma heal_loop_conserves:
  assumes "heal_loop pull op departed nd s pulls = (nd', s', pulls')" and "\<forall>x \<in># stock s. 0 \<le> req_prompt x"
  shows "mset (cn_lengths nd') + image_mset req_prompt (stock s') = mset (cn_lengths nd) + image_mset req_prompt (stock s)"
  using assms
proof (induction departed arbitrary: nd s pulls)
  case (Cons hole departed)
  let ?room = "node_footprint_cap op - cn_total nd"
  obtain req s1 where p: "pull s (dbl hole) ?room = (req, s1)" by fastforce
  show ?case
  proof (cases "?room \<le> 0 \<or> req_prompt req < 0")
    case True
    with Cons.prems p show ?thesis using pull_none_valid [OF p _ Cons.prems(2)] by (auto simp: Let_def split: if_splits)
  next
    case False
    then have run: "heal_loop pull op departed (node_admit (req_prompt req) nd) s1 (pulls + 1) = (nd', s', pulls')"
      using Cons.prems(1) p by (auto simp: Let_def)
    from Cons.IH [OF run pull_valid [OF p Cons.prems(2)]] pull_some [OF p] False
    show ?thesis by (simp add: node_admit_def)
  qed
qed auto

end

section \<open>The on-point check\<close>

lemma scan_down_Some: "scan_down used p = Some i \<Longrightarrow> i < p \<and> \<not> used ! i \<and> (\<forall>j. i < j \<and> j < p \<longrightarrow> used ! j)"
  by (induction p) (auto simp: less_Suc_eq split: if_splits)

lemma scan_down_None: "scan_down used p = None \<Longrightarrow> j < p \<Longrightarrow> used ! j"
  by (induction p) (auto simp: less_Suc_eq split: if_splits)

lemma scan_up_Some: "scan_up used m p = Some i \<Longrightarrow> p \<le> i \<and> i < m \<and> \<not> used ! i \<and> (\<forall>j. p \<le> j \<and> j < i \<longrightarrow> used ! j)"
proof (induction used m p rule: scan_up.induct)
  case (1 used m p)
  show ?case
  proof (cases "p < m \<and> used ! p")
    case True
    with 1(2) have "scan_up used m (p + 1) = Some i" by (simp add: scan_up.simps [of used m p])
    from 1(1) [OF _ _ this] True show ?thesis by (metis Suc_eq_plus1 Suc_leD not_less_eq_eq order_antisym)
  next
    case False
    with 1(2) show ?thesis by (auto simp: scan_up.simps [of used m p] split: if_splits)
  qed
qed

lemma scan_up_None: "scan_up used m p = None \<Longrightarrow> p \<le> j \<Longrightarrow> j < m \<Longrightarrow> used ! j"
proof (induction used m p rule: scan_up.induct)
  case (1 used m p)
  then have "p < m \<and> used ! p" by (auto simp: scan_up.simps [of used m p] split: if_splits)
  with 1 show ?case by (cases "j = p") (auto simp: scan_up.simps [of used m p])
qed

lemma lower_bound_le: "lower_bound a x \<le> length a"
  by (simp add: lower_bound_def length_takeWhile_le)

lemma lower_bound_less: "j < lower_bound a x \<Longrightarrow> a ! j < x"
  unfolding lower_bound_def by (metis nth_mem set_takeWhileD takeWhile_nth)

lemma lower_bound_ge: "sorted a \<Longrightarrow> lower_bound a x \<le> j \<Longrightarrow> j < length a \<Longrightarrow> x \<le> a ! j"
proof -
  assume a: "sorted a" "lower_bound a x \<le> j" "j < length a"
  then have "\<not> a ! lower_bound a x < x"
    unfolding lower_bound_def by (intro nth_length_takeWhile) auto
  moreover have "a ! lower_bound a x \<le> a ! j" using a by (intro sorted_nth_mono) auto
  ultimately show ?thesis by simp
qed

lemma onpoint_pick_Some:
  assumes "onpoint_pick a used x = Some i" and "length used = length a"
  shows "i < length a \<and> \<not> used ! i"
  using assms lower_bound_le [of a x]
  by (auto simp: onpoint_pick_def Let_def split: option.splits if_splits dest!: scan_down_Some scan_up_Some)

text \<open>The two-sided search around the lower bound finds what a scan of the whole list would.\<close>

lemma onpoint_pick_min:
  assumes "onpoint_pick a used x = Some i" and "sorted a" and "j < length a" and "\<not> used ! j"
  shows "\<bar>a ! i - x\<bar> \<le> \<bar>a ! j - x\<bar>"
proof -
  let ?p = "lower_bound a x"
  have left: "L < ?p \<and> a ! L < x \<and> (j < ?p \<longrightarrow> a ! j \<le> a ! L)" if "scan_down used ?p = Some L" for L
  proof -
    have "L < ?p" "j < ?p \<Longrightarrow> j \<le> L" using scan_down_Some [OF that] assms(4) not_less by blast+
    then show ?thesis
      using lower_bound_less [of L a x] lower_bound_le [of a x] assms(2) by (auto intro!: sorted_nth_mono)
  qed
  have right: "x \<le> a ! R \<and> (?p \<le> j \<longrightarrow> a ! R \<le> a ! j)" if "scan_up used (length a) ?p = Some R" for R
  proof -
    have "?p \<le> R" "R < length a" "?p \<le> j \<Longrightarrow> R \<le> j" using scan_up_Some [OF that] assms(4) not_less by blast+
    then show ?thesis
      using lower_bound_ge [OF assms(2), of x R] assms(2,3) by (auto intro!: sorted_nth_mono)
  qed
  have none: "scan_down used ?p = None \<Longrightarrow> ?p \<le> j" "scan_up used (length a) ?p = None \<Longrightarrow> j < ?p"
    using scan_down_None [of used ?p j] scan_up_None [of used "length a" ?p j] assms(3,4) not_less by blast+
  have "(j < ?p \<and> a ! j < x) \<or> (?p \<le> j \<and> x \<le> a ! j)"
    using lower_bound_less [of j a x] lower_bound_ge [OF assms(2), of x j] assms(3) not_less by blast
  then show ?thesis
    using assms(1) left right none
    by (fastforce simp: onpoint_pick_def Let_def split: option.splits if_splits)
qed

lemma onpoint_pick_None: "onpoint_pick a used x = None \<Longrightarrow> j < length a \<Longrightarrow> used ! j"
  using scan_down_None [of used "lower_bound a x" j] scan_up_None [of used "length a" "lower_bound a x" j]
  by (cases "j < lower_bound a x") (auto simp: onpoint_pick_def Let_def split: option.splits)

definition used_count :: "bool list \<Rightarrow> nat" where
  "used_count used = card {i. i < length used \<and> used ! i}"

lemma used_count_mark: "i < length used \<Longrightarrow> \<not> used ! i \<Longrightarrow> used_count (used[i := True]) = used_count used + 1"
proof -
  assume i: "i < length used" "\<not> used ! i"
  then have "{j. j < length (used[i := True]) \<and> used[i := True] ! j} = insert i {j. j < length used \<and> used ! j}"
    by (auto simp: nth_list_update)
  with i show ?thesis by (simp add: used_count_def)
qed

lemma used_count_le: "used_count used \<le> length used"
  using card_mono [of "{..<length used}" "{i. i < length used \<and> used ! i}"] by (auto simp: used_count_def)

definition unmark :: "nat list \<Rightarrow> bool list \<Rightarrow> bool list" where
  "unmark sel used = fold (\<lambda>i u. u[i := False]) sel used"

lemma unmark_simps [simp]: "unmark [] used = used" "unmark (i # sel) used = unmark sel (used[i := False])"
  by (simp_all add: unmark_def)

lemma length_unmark [simp]: "length (unmark sel used) = length used"
  by (induction sel arbitrary: used) auto

lemma unmark_nth: "i < length used \<Longrightarrow> unmark sel used ! i \<longleftrightarrow> used ! i \<and> i \<notin> set sel"
proof (induction sel arbitrary: used)
  case (Cons a sel)
  then show ?case using Cons.IH [of "used[a := False]"] by (cases "i = a") auto
qed simp

lemma unmark_mark: "\<forall>i \<in> set sel. i < length used \<and> \<not> used ! i \<Longrightarrow> unmark sel (mark sel used) = used"
  by (intro nth_equalityI) (auto simp: unmark_nth mark_nth)

text \<open>What one batch does: it picks distinct unused requests and marks them.\<close>

lemma onpoint_one_inv:
  assumes "onpoint_one a op used S n pick = (pick', used', S', n')" and "length used = length a"
  shows "\<exists>new. pick' = pick @ new \<and> used' = mark new used \<and> (\<forall>i \<in> set new. i < length a \<and> \<not> used ! i) \<and> distinct new
    \<and> S' = S + (\<Sum>i \<leftarrow> new. a ! i) \<and> n' = n + int (length new)
    \<and> used_count used' = used_count used + length new"
  using assms
proof (induction a op used S n pick rule: onpoint_one.induct)
  case (1 a op used S n pick)
  let ?go = "n < decode_count_target op \<and> S < kv_operating_target op"
  let ?pick = "onpoint_pick a used (llround (dbl (kv_operating_target op - S) / dbl (decode_count_target op - n)))"
  show ?case
  proof (cases "?go \<and> ?pick \<noteq> None")
    case True
    then obtain i where go: ?go and i: "?pick = Some i" by auto
    have i': "i < length a" "\<not> used ! i" using onpoint_pick_Some [OF i 1(3)] by auto
    have run: "onpoint_one a op (used[i := True]) (S + a ! i) (n + 1) (pick @ [i]) = (pick', used', S', n')"
      using 1(2) go i by (simp add: onpoint_one.simps [of a op used S n])
    from 1(1) [OF go i run] 1(3) obtain new where new: "pick' = (pick @ [i]) @ new" "used' = mark new (used[i := True])"
      "\<forall>j \<in> set new. j < length a \<and> \<not> used[i := True] ! j" "distinct new" "S' = S + a ! i + (\<Sum>j \<leftarrow> new. a ! j)"
      "n' = n + 1 + int (length new)" "used_count used' = used_count (used[i := True]) + length new" by auto
    have "i \<notin> set new" using new(3) i' 1(3) by auto
    moreover have "\<forall>j \<in> set new. j < length a \<and> \<not> used ! j"
      using new(3) \<open>i \<notin> set new\<close> by (metis nth_list_update_neq)
    ultimately show ?thesis
      using new i' 1(3) used_count_mark [of i used] by (intro exI [of _ "i # new"]) simp
  next
    case False
    then have "(pick', used', S', n') = (pick, used, S, n)"
      using 1(2) by (auto simp: onpoint_one.simps [of a op used S n] split: if_splits)
    then show ?thesis by simp
  qed
qed

lemma onpoint_rounds_inv:
  assumes "onpoint_rounds b a op used got = (used', got')" and "length used = length a"
  shows "int (used_count used') = int (used_count used) + (got' - got) * decode_count_target op
    \<and> got \<le> got' \<and> got' \<le> got + int b \<and> length used' = length a"
  using assms
proof (induction b arbitrary: used got)
  case (Suc b)
  obtain pick u S n where one: "onpoint_one a op used 0 0 [] = (pick, u, S, n)" using prod_cases4 by blast
  from onpoint_one_inv [OF this Suc.prems(2)] have
    i: "u = mark pick used" "\<forall>i \<in> set pick. i < length a \<and> \<not> used ! i" "n = int (length pick)"
       "used_count u = used_count used + length pick" by auto
  show ?case
  proof (cases "on_point op S n")
    case True
    then have "n = decode_count_target op" by (simp add: on_point_def)
    moreover have "onpoint_rounds b a op u (got + 1) = (used', got')" using Suc.prems(1) one True by simp
    ultimately show ?thesis
      using Suc.IH [of u "got + 1"] i Suc.prems(2) by (auto simp: algebra_simps)
  next
    case False
    then have "used' = unmark pick (mark pick used)" "got' = got"
      using Suc.prems(1) one i(1) by (simp_all add: unmark_def)
    then show ?thesis using unmark_mark [of pick used] i(2) Suc.prems(2) by simp
  qed
qed simp

definition list_mean :: "int list \<Rightarrow> double" where
  "list_mean xs = dbl (sum_list xs) / dbl (int (length xs))"

text \<open>C34: The gate splits the drawn requests: it sheds the longest ones, each because the mean
  of what was left with it still lay above \<open>ctx_balance + edge_band\<close>, and stops at the first
  rest whose mean does not.\<close>
theorem gate_correct:
  shows "mset (kept (gate draw op)) + mset (edged (gate draw op)) = mset draw
    \<and> (\<forall>x \<in> set (kept (gate draw op)). \<forall>y \<in> set (edged (gate draw op)). x \<le> y)
    \<and> (kept (gate draw op) = [] \<or> \<not> ctx_balance op + edge_band op < list_mean (kept (gate draw op)))
    \<and> (\<forall>j < length (edged (gate draw op)). ctx_balance op + edge_band op < list_mean (drop j (rev (sort draw))))"
proof -
  define c where "c = ctx_balance op + edge_band op"
  define d where "d = rev (sort draw)"
  define i where "i = gate_loop c d (sum_list d)"
  have g: "gate draw op = \<lparr>kept = drop i d, edged = take i d\<rparr>"
    by (simp add: gate_def Let_def fold_sum flip: c_def d_def) (simp add: i_def)
  have il: "i \<le> length d" by (simp add: i_def gate_loop_le)
  have "mset (drop i d) + mset (take i d) = mset d"
    by (metis append_take_drop_id mset_append union_commute)
  then have m: "mset (drop i d) + mset (take i d) = mset draw" by (simp add: d_def)
  have "sorted_wrt (\<ge>) (take i d @ drop i d)" by (simp add: d_def sorted_wrt_rev)
  then have s: "\<forall>x \<in> set (drop i d). \<forall>y \<in> set (take i d). x \<le> y" unfolding sorted_wrt_append by blast
  have "drop i d = [] \<or> \<not> c < list_mean (drop i d)"
    using gate_loop_stop [of "sum_list d" d c] by (simp add: i_def list_mean_def)
  moreover have "\<forall>j < i. c < list_mean (drop j d)"
    using gate_loop_shed [of _ c d "sum_list d"] by (simp add: i_def list_mean_def)
  ultimately show ?thesis using m s il by (simp add: g min_def flip: c_def d_def)
qed

theorem gate_correct_witness:
  "gate [90, 400, 80, 120] small_op = \<lparr>kept = [120, 90, 80], edged = [400]\<rparr>
   \<and> \<not> ctx_balance small_op + edge_band small_op < list_mean [120, 90, 80]"
proof -
  have "gate [90, 400, 80, 120] small_op = \<lparr>kept = [120, 90, 80], edged = [400]\<rparr>" by code_simp
  then show ?thesis using gate_correct [of "[90, 400, 80, 120]" small_op] by simp
qed

text \<open>C35: The cold start keeps every node within its caps, on the length sum and on the count,
  and places every request once or counts it as left over, whatever order the shuffle gives.\<close>
theorem cold_start_places:
  assumes "mset (shuffle seed lens) = mset lens" and "\<forall>nd \<in> set nodes. cn_ok op nd"
    and "cold_start shuffle lens nodes op seed = (nodes', leftover)"
  shows "(\<forall>nd \<in> set nodes'. cn_ok op nd) \<and> length nodes' = length nodes
    \<and> (\<exists>rest. cluster_lengths nodes' + rest = cluster_lengths nodes + mset lens \<and> int (size rest) = leftover)"
  using cold_fold_inv [OF assms(3) [unfolded cold_start_def] assms(2)] assms(1) by simp

definition empty_node :: ClusterNode where
  "empty_node = \<lparr>cn_lengths = [], cn_total = 0\<rparr>"

theorem cold_start_places_witness:
  "cold_start (\<lambda>seed. rev) [700, 90, 140, 110] [empty_node, empty_node] small_op 7
     = ([\<lparr>cn_lengths = [110, 140], cn_total = 250\<rparr>, \<lparr>cn_lengths = [90], cn_total = 90\<rparr>], 1)
   \<and> (\<exists>rest. {#110, 140, 90#} + rest = mset [700, 90, 140, 110 :: int] \<and> int (size rest) = 1)"
proof -
  have run: "cold_start (\<lambda>seed. rev) [700, 90, 140, 110] [empty_node, empty_node] small_op 7
     = ([\<lparr>cn_lengths = [110, 140], cn_total = 250\<rparr>, \<lparr>cn_lengths = [90], cn_total = 90\<rparr>], 1)" by code_simp
  have "\<forall>nd \<in> set [empty_node, empty_node]. cn_ok small_op nd"
    by (simp add: cn_ok_def empty_node_def small_op_def node_count_def)
  from cold_start_places [OF _ this run] run show ?thesis
    by (simp add: cluster_lengths_def empty_node_def)
qed

text \<open>One step of the cold start puts a request on a node that has room and whose mean comes
  nearest to the balance point with it; it is left over only if no node has room.\<close>
theorem cold_place_nearest:
  assumes "\<forall>nd \<in> set nodes. cold_range op len nd"
  shows "(\<exists>j < length nodes. cold_place op len (nodes, leftover) = (nodes[j := node_admit len (nodes ! j)], leftover)
       \<and> cold_fits op len (nodes ! j)
       \<and> (\<forall>nd \<in> set nodes. cold_fits op len nd \<longrightarrow> \<not> cold_dev op len nd < cold_dev op len (nodes ! j)))
    \<or> (cold_place op len (nodes, leftover) = (nodes, leftover + 1) \<and> (\<forall>nd \<in> set nodes. \<not> cold_fits op len nd))"
proof (cases "cold_best op len nodes")
  case None
  then show ?thesis using cold_best_None [OF None] assms by (auto simp: cold_place_def)
next
  case (Some j)
  note b = dbl_lt.scan_Some [OF Some [unfolded cold_best_def]]
  have "\<forall>nd \<in> set nodes. cold_fits op len nd \<longrightarrow> \<not> cold_dev op len nd < cold_dev op len (nodes ! j)"
    using b(4) by (simp add: all_set_conv_all_nth)
  with b(1,2) Some show ?thesis by (intro disjI1 exI [of _ j]) (simp add: cold_place_def)
qed

theorem cold_place_nearest_witness:
  "cold_place small_op 140 ([\<lparr>cn_lengths = [110, 90], cn_total = 200\<rparr>, empty_node], 0)
     = ([\<lparr>cn_lengths = [110, 90, 140], cn_total = 340\<rparr>, empty_node], 0)
   \<and> \<not> cold_dev small_op 140 empty_node < cold_dev small_op 140 \<lparr>cn_lengths = [110, 90], cn_total = 200\<rparr>"
proof -
  let ?n = "\<lparr>cn_lengths = [110, 90], cn_total = 200\<rparr>"
  have run: "cold_place small_op 140 ([?n, empty_node], 0)
     = ([\<lparr>cn_lengths = [110, 90, 140], cn_total = 340\<rparr>, empty_node], 0)" by code_simp
  have "below58 (ctx_balance small_op)"
    unfolding below58_def by (rule exI [of _ 100]) (code_simp)
  then have "\<forall>nd \<in> set [?n, empty_node]. cold_range small_op 140 nd"
    by (simp add: cold_range_def empty_node_def node_count_def)
  note p = cold_place_nearest [OF this, of 0]
  have e: "cold_fits small_op 140 empty_node" by code_simp
  have "cold_place small_op 140 ([?n, empty_node], 0) \<noteq> ([?n, empty_node], 0 + 1)" by (simp add: run)
  with p obtain j where j: "j < 2" "cold_place small_op 140 ([?n, empty_node], 0)
      = ([?n, empty_node][j := node_admit 140 ([?n, empty_node] ! j)], 0)"
      "\<not> cold_dev small_op 140 empty_node < cold_dev small_op 140 ([?n, empty_node] ! j)"
    using e by (auto simp: eval_nat_numeral)
  have "j = 0" using j(1,2) by (cases "j = 1") (use run in \<open>auto simp: empty_node_def node_admit_def\<close>)
  with j(3) run show ?thesis by simp
qed

text \<open>Healing refills at most one request for each hole and returns their number, never lifts
  the node over its footprint cap, and keeps the recorded total the sum of the lengths.\<close>
theorem heal_node_capped:
  assumes "request_source pull" and "heal_node pull nd departed op s = (nd', s', pulls)"
    and "cn_total nd = sum_list (cn_lengths nd)" and "cn_total nd \<le> node_footprint_cap op"
  shows "cn_total nd' = sum_list (cn_lengths nd') \<and> cn_total nd' \<le> node_footprint_cap op
    \<and> node_count nd' = node_count nd + pulls \<and> 0 \<le> pulls \<and> pulls \<le> int (length departed)"
  using heal_loop_inv [OF assms(1) assms(2) [unfolded heal_node_def] assms(3,4)] by simp

theorem heal_node_capped_witness:
  "heal_node queue_pull_near \<lparr>cn_lengths = [300, 200], cn_total = 500\<rparr> [80, 60] small_op demo_queue
     = (\<lparr>cn_lengths = [300, 200, 90], cn_total = 590\<rparr>,
        \<lparr>queue = [\<lparr>req_prompt = 5000, req_dtot = 1\<rparr>, \<lparr>req_prompt = 120, req_dtot = 1\<rparr>, \<lparr>req_prompt = 70, req_dtot = 3\<rparr>]\<rparr>, 1)
   \<and> (590 :: int) \<le> node_footprint_cap small_op"
proof -
  have run: "heal_node queue_pull_near \<lparr>cn_lengths = [300, 200], cn_total = 500\<rparr> [80, 60] small_op demo_queue
     = (\<lparr>cn_lengths = [300, 200, 90], cn_total = 590\<rparr>,
        \<lparr>queue = [\<lparr>req_prompt = 5000, req_dtot = 1\<rparr>, \<lparr>req_prompt = 120, req_dtot = 1\<rparr>, \<lparr>req_prompt = 70, req_dtot = 3\<rparr>]\<rparr>, 1)"
    by code_simp
  from heal_node_capped [OF queue_source.request_source_axioms run] run show ?thesis
    by (simp add: small_op_def)
qed

text \<open>The on-point check reports at most \<open>k\<close> batches, and as many as it reports fit into the
  node without sharing a request: the batches are disjoint.\<close>
theorem onpoint_batches_disjoint:
  "0 \<le> onpoint_batches nd op k \<and> onpoint_batches nd op k \<le> max 0 k
   \<and> onpoint_batches nd op k * decode_count_target op \<le> node_count nd"
proof (cases "node_count nd < decode_count_target op")
  case True
  then show ?thesis by (simp add: onpoint_batches_def node_count_def)
next
  case False
  let ?a = "sort (cn_lengths nd)" and ?u = "replicate (length (cn_lengths nd)) False"
  obtain used' got where run: "onpoint_rounds (nat k) ?a op ?u 0 = (used', got)" by fastforce
  have "used_count ?u = 0" by (auto simp: used_count_def)
  then show ?thesis
    using onpoint_rounds_inv [OF run] used_count_le [of used'] False run
    by (simp add: onpoint_batches_def node_count_def max_def)
qed

text \<open>C36: The two-sided search from the lower bound selects an unused request whose length is as near to
  the ideal as any other unused one's, as a scan of the whole node would, and finds none only
  if all are used.\<close>
theorem onpoint_pick_nearest:
  assumes "sorted a" and "length used = length a"
  shows "case onpoint_pick a used x of
      Some i \<Rightarrow> i < length a \<and> \<not> used ! i \<and> (\<forall>j < length a. \<not> used ! j \<longrightarrow> \<bar>a ! i - x\<bar> \<le> \<bar>a ! j - x\<bar>)
    | None \<Rightarrow> (\<forall>j < length a. used ! j)"
proof (cases "onpoint_pick a used x")
  case None
  then show ?thesis using onpoint_pick_None [OF None] by simp
next
  case (Some i)
  then show ?thesis using onpoint_pick_Some [OF Some assms(2)] onpoint_pick_min [OF Some assms(1)] by simp
qed

theorem onpoint_pick_nearest_witness:
  "onpoint_pick [40, 70, 90, 130] [False, True, True, False] 75 = Some 0
   \<and> \<bar>40 - 75\<bar> \<le> \<bar>[40, 70, 90, 130] ! 3 - (75 :: int)\<bar>"
proof -
  have run: "onpoint_pick [40, 70, 90, 130] [False, True, True, False] 75 = Some 0" by code_simp
  have s: "sorted [40, 70, 90, 130 :: int]" by simp
  then have "\<bar>[40, 70, 90, 130] ! 0 - 75\<bar> \<le> \<bar>[40, 70, 90, 130] ! 3 - (75 :: int)\<bar>"
    using onpoint_pick_nearest [OF s, of "[False, True, True, False]" 75] by auto
  with run show ?thesis by simp
qed

end
