(* ===== verification/Preposition.thy ===== *)
theory Preposition
  imports Steering
begin

text \<open>
  \<open>scheduler/preposition.cpp\<close>: re-centring one batch. The composer holds the KV sum of the
  survivors and the slots left; each slot asks for an equal share of what is missing to the
  target. The lemmas: the sum is exact for every batch of realistic size, and the error of
  the finished batch is the error of its last slot alone.
\<close>

section \<open>The model\<close>

record Preposition =
  pp_sum :: double
  pp_slots_left :: int
  pp_kv_target :: int

definition make_preposition :: "double \<Rightarrow> int \<Rightarrow> OperatingPoint \<Rightarrow> Preposition" where
  "make_preposition survivors_sum_kv survivors_count op =
     \<lparr>pp_sum = survivors_sum_kv, pp_slots_left = decode_count_target op - survivors_count,
      pp_kv_target = kv_operating_target op\<rparr>"

definition pp_done :: "Preposition \<Rightarrow> bool" where
  "pp_done pp \<longleftrightarrow> pp_slots_left pp \<le> 0"

definition next_ideal :: "Preposition \<Rightarrow> double" where
  "next_ideal pp = (dbl (pp_kv_target pp) - pp_sum pp) / dbl (pp_slots_left pp)"

definition pp_place :: "int \<Rightarrow> Preposition \<Rightarrow> Preposition" where
  "pp_place placed pp = pp\<lparr>pp_sum := pp_sum pp + dbl placed, pp_slots_left := pp_slots_left pp - 1\<rparr>"

section \<open>Placing\<close>

lemma dbl_add: "\<bar>a\<bar> \<le> 2 ^ 53 \<Longrightarrow> \<bar>b\<bar> \<le> 2 ^ 53 \<Longrightarrow> dbl a + dbl b = dbl (a + b)"
proof -
  assume "\<bar>a\<bar> \<le> 2 ^ 53" "\<bar>b\<bar> \<le> 2 ^ 53"
  then have "dbl a + dbl b = rnd (of_int a + of_int b)" by (simp add: dbl_exact dbl_simps)
  then show ?thesis by (simp add: dbl_def)
qed

lemma dbl_diff: "\<bar>a\<bar> \<le> 2 ^ 53 \<Longrightarrow> \<bar>b\<bar> \<le> 2 ^ 53 \<Longrightarrow> dbl a - dbl b = dbl (a - b)"
proof -
  assume "\<bar>a\<bar> \<le> 2 ^ 53" "\<bar>b\<bar> \<le> 2 ^ 53"
  then have "dbl a - dbl b = rnd (of_int a - of_int b)" by (simp add: dbl_exact dbl_simps)
  then show ?thesis by (simp add: dbl_def)
qed

lemma dbl_div_1: "\<bar>a\<bar> \<le> 2 ^ 53 \<Longrightarrow> dbl a / dbl 1 = dbl a"
proof -
  assume "\<bar>a\<bar> \<le> 2 ^ 53"
  then have "dbl a / dbl 1 = rnd (of_int a / 1)" by (simp add: dbl_exact dbl_simps)
  then show ?thesis by (simp add: dbl_def)
qed

lemma place_simps:
  "pp_sum (pp_place l pp) = pp_sum pp + dbl l" "pp_slots_left (pp_place l pp) = pp_slots_left pp - 1"
  "pp_kv_target (pp_place l pp) = pp_kv_target pp"
  by (simp_all add: pp_place_def)

lemma place_all:
  assumes "pp_sum pp = dbl s" and "0 \<le> s" and "\<forall>l \<in> set ls. 0 \<le> l" and "s + sum_list ls \<le> 2 ^ 53"
  shows "pp_sum (fold pp_place ls pp) = dbl (s + sum_list ls)
    \<and> pp_slots_left (fold pp_place ls pp) = pp_slots_left pp - int (length ls)
    \<and> pp_kv_target (fold pp_place ls pp) = pp_kv_target pp"
  using assms
proof (induction ls arbitrary: pp s)
  case (Cons l ls)
  have nn: "0 \<le> sum_list ls" using Cons.prems(3) by (intro sum_list_nonneg) auto
  have l: "0 \<le> l" using Cons.prems(3) by simp
  then have "pp_sum (pp_place l pp) = dbl (s + l)"
    using Cons.prems nn by (simp add: place_simps dbl_add)
  moreover have "0 \<le> s + l" "\<forall>l \<in> set ls. 0 \<le> l" "s + l + sum_list ls \<le> 2 ^ 53"
    using l Cons.prems by auto
  ultimately have "pp_sum (fold pp_place ls (pp_place l pp)) = dbl (s + l + sum_list ls)
    \<and> pp_slots_left (fold pp_place ls (pp_place l pp)) = pp_slots_left (pp_place l pp) - int (length ls)
    \<and> pp_kv_target (fold pp_place ls (pp_place l pp)) = pp_kv_target (pp_place l pp)"
    by (rule Cons.IH)
  then show ?case by (simp add: place_simps add.assoc)
qed simp

section \<open>Properties\<close>

text \<open>Re-centring: when the slots but one are filled, the ideal of the last slot is exactly what
  is missing to the KV target, so that a batch whose last request has the ideal length hits
  the target, and otherwise misses it by just the deviation of this one request; then the
  composer is done, whatever the lengths placed before.\<close>
theorem preposition_recentres:
  assumes "pp = make_preposition (dbl s) cnt op" and "0 \<le> s" and "\<forall>l \<in> set ls. 0 \<le> l" and "0 \<le> l"
    and "s + sum_list ls + l \<le> 2 ^ 53" and "\<bar>kv_operating_target op\<bar> \<le> 2 ^ 52" and "s + sum_list ls \<le> 2 ^ 52"
    and "int (length ls) + 1 = decode_count_target op - cnt"
  shows "next_ideal (fold pp_place ls pp) = dbl (kv_operating_target op - (s + sum_list ls))
    \<and> pp_sum (fold pp_place (ls @ [l]) pp) = dbl (kv_operating_target op + (l - (kv_operating_target op - (s + sum_list ls))))
    \<and> pp_done (fold pp_place (ls @ [l]) pp) \<and> \<not> pp_done (fold pp_place ls pp)"
proof -
  have nn: "0 \<le> sum_list ls" using assms(3) by (intro sum_list_nonneg) auto
  have s: "pp_sum pp = dbl s" "pp_slots_left pp = int (length ls) + 1" "pp_kv_target pp = kv_operating_target op"
    using assms(1,8) by (simp_all add: make_preposition_def)
  note p = place_all [OF s(1) assms(2,3)] and q = place_all [of pp s "ls @ [l]", OF s(1) assms(2)]
  let ?m = "kv_operating_target op - (s + sum_list ls)"
  have "next_ideal (fold pp_place ls pp) = (dbl (kv_operating_target op) - dbl (s + sum_list ls)) / dbl 1"
    using p s assms(4,5) by (simp add: next_ideal_def)
  also have "\<dots> = dbl ?m / dbl 1" using assms(2,6,7) nn by (simp add: dbl_diff)
  also have "\<dots> = dbl ?m"
    using assms(2,6,7) nn by (intro dbl_div_1) simp
  finally show ?thesis using p q s assms(3,4,5) by (simp add: pp_done_def algebra_simps)
qed

theorem preposition_recentres_witness:
  "next_ideal (pp_place 90 (make_preposition (dbl 0) 0 small_op)) = dbl 110
   \<and> pp_sum (pp_place 104 (pp_place 90 (make_preposition (dbl 0) 0 small_op))) = dbl 194"
  using preposition_recentres [OF refl, of 0 "[90]" 104 small_op 0] by (simp add: small_op_def)

end
