(* ===== verification/Workload.thy ===== *)
theory Workload
  imports Runtime
begin

text \<open>
  \<open>core/workload.cpp\<close>: the assumed length distribution of the simulations and the request
  source over it, an endless pool of which the best of \<open>k\<close> draws is taken. The engine and the
  distributions of the C++ library and its \<open>exp\<close> and \<open>log\<close>, whose values the standard leaves
  to the implementation, are the record \<open>lib\<close> of functions.
\<close>

section \<open>The library\<close>

record 'g Lib =
  lib_seed :: "nat \<Rightarrow> 'g"
  lib_next :: "'g \<Rightarrow> nat \<times> 'g"
  lib_uni :: "'g \<Rightarrow> double \<times> 'g"
  lib_int :: "int \<Rightarrow> int \<Rightarrow> 'g \<Rightarrow> int \<times> 'g"
  lib_exp :: "double \<Rightarrow> double"
  lib_log :: "double \<Rightarrow> double"
  lib_shuffle :: "nat \<Rightarrow> int list \<Rightarrow> int list"

text \<open>What the standard says of them: a uniform integer lies in the closed range asked for, and a
  shuffle permutes.\<close>

definition lib_ok :: "'g Lib \<Rightarrow> bool" where
  "lib_ok lib \<longleftrightarrow> (\<forall>lo hi g v g'. lo \<le> hi \<longrightarrow> lib_int lib lo hi g = (v, g') \<longrightarrow> lo \<le> v \<and> v \<le> hi)
     \<and> (\<forall>seed xs. mset (lib_shuffle lib seed xs) = mset xs)"

lemma lib_int_range: "lib_ok lib \<Longrightarrow> lib_int lib lo hi g = (v, g') \<Longrightarrow> lo \<le> hi \<Longrightarrow> lo \<le> v \<and> v \<le> hi"
  unfolding lib_ok_def by blast

section \<open>The model\<close>

definition sample_distribution_b :: "'g Lib \<Rightarrow> 'g \<Rightarrow> int \<times> 'g" where
  "sample_distribution_b lib g =
     (case lib_uni lib g of
        (u, g1) \<Rightarrow>
          let (lo, hi) =
                (if u < dlit (20 / 100) then (dlit 1000, dlit 16000)
                 else if u < dlit (90 / 100) then (dlit 16000, dlit 256000)
                 else (dlit 256000, dlit 1000000))
          in case lib_uni lib g1 of
               (v, g2) \<Rightarrow> (to_i32 (lib_exp lib (v * (lib_log lib hi - lib_log lib lo) + lib_log lib lo)), g2))"

record 'g WorkloadSource =
  ws_rng :: 'g
  ws_k :: int

definition make_workload :: "'g Lib \<Rightarrow> nat \<Rightarrow> int \<Rightarrow> 'g WorkloadSource" where
  "make_workload lib seed best_of_k = \<lparr>ws_rng = lib_seed lib seed, ws_k = best_of_k\<rparr>"

text \<open>The loop over the draws, with the best length so far and its deviation.\<close>

fun best_of :: "'g Lib \<Rightarrow> nat \<Rightarrow> double \<Rightarrow> int \<Rightarrow> int \<Rightarrow> double \<Rightarrow> 'g \<Rightarrow> int \<times> double \<times> 'g" where
  "best_of lib 0 ideal room best best_dev g = (best, best_dev, g)"
| "best_of lib (Suc i) ideal room best best_dev g =
     (case sample_distribution_b lib g of
        (len, g') \<Rightarrow>
          if room < len then best_of lib i ideal room best best_dev g'
          else let dev = \<bar>dbl len - ideal\<bar>
               in if dev < best_dev then best_of lib i ideal room len dev g'
                  else best_of lib i ideal room best best_dev g')"

definition workload_pull_near :: "'g Lib \<Rightarrow> 'g WorkloadSource \<Rightarrow> double \<Rightarrow> int \<Rightarrow> PulledRequest \<times> 'g WorkloadSource" where
  "workload_pull_near lib w ideal room =
     (case best_of lib (nat (ws_k w)) ideal room (- 1) PInf (ws_rng w) of
        (best, best_dev, g) \<Rightarrow>
          if best < 0 then (no_request, w\<lparr>ws_rng := g\<rparr>)
          else (\<lparr>req_prompt = best, req_dtot = (if 1000 < best then best else 1000)\<rparr>, w\<lparr>ws_rng := g\<rparr>))"

section \<open>The draws\<close>

text \<open>The lengths of the next \<open>n\<close> draws.\<close>

fun draws :: "'g Lib \<Rightarrow> nat \<Rightarrow> 'g \<Rightarrow> int list" where
  "draws lib 0 g = []"
| "draws lib (Suc n) g = (case sample_distribution_b lib g of (len, g') \<Rightarrow> len # draws lib n g')"

definition fitting :: "int \<Rightarrow> int list \<Rightarrow> int set" where
  "fitting room xs = {x \<in> set xs. x \<le> room}"

lemma best_of_spec:
  assumes "best_of lib n ideal room b bd g = (best, dev, g')"
  shows "(best = b \<and> dev = bd \<or> best \<in> fitting room (draws lib n g) \<and> dev = \<bar>dbl best - ideal\<bar> \<and> dev < bd)
    \<and> (\<forall>x \<in> fitting room (draws lib n g). \<not> \<bar>dbl x - ideal\<bar> < dev) \<and> \<not> bd < dev"
  using assms
proof (induction n arbitrary: b bd g)
  case 0
  then show ?case by (simp add: fitting_def)
next
  case (Suc n)
  obtain len g1 where s: "sample_distribution_b lib g = (len, g1)" by fastforce
  let ?d = "\<bar>dbl len - ideal\<bar>"
  have fit: "fitting room (draws lib (Suc n) g) = (if room < len then {} else {len}) \<union> fitting room (draws lib n g1)"
    by (auto simp: fitting_def s)
  show ?case
  proof (cases "room < len \<or> \<not> ?d < bd")
    case True
    then have "best_of lib n ideal room b bd g1 = (best, dev, g')" using Suc.prems s by (auto simp: Let_def split: if_splits)
    from Suc.IH [OF this] True show ?thesis unfolding fit by (auto dest: dless_trans)
  next
    case False
    then have "best_of lib n ideal room len ?d g1 = (best, dev, g')" using Suc.prems s by (simp add: Let_def)
    from Suc.IH [OF this] False show ?thesis unfolding fit by (auto dest: dless_trans)
  qed
qed

text \<open>The workload is a source of requests; its pool is endless, so it is no stock.\<close>

interpretation workload_source: request_source "workload_pull_near lib"
proof unfold_locales
  fix s :: "'a WorkloadSource" and ideal room r s'
  assume pull: "workload_pull_near lib s ideal room = (r, s')" and r: "0 \<le> req_prompt r"
  obtain best dev g where b: "best_of lib (nat (ws_k s)) ideal room (- 1) PInf (ws_rng s) = (best, dev, g)"
    using prod_cases3 by blast
  with pull r have "0 \<le> best" "req_prompt r = best" by (auto simp: workload_pull_near_def split: if_splits)
  with best_of_spec [OF b] show "req_prompt r \<le> room" by (auto simp: fitting_def)
qed

section \<open>Properties\<close>

text \<open>A library for the witnesses: the generator counts, the uniform values cycle through a table.\<close>

definition toy_lib :: "nat Lib" where
  "toy_lib = \<lparr>lib_seed = (\<lambda>s. s), lib_next = (\<lambda>g. (g, g + 1)),
     lib_uni = (\<lambda>g. (dlit (of_nat (g mod 10) / 10), g + 1)),
     lib_int = (\<lambda>lo hi g. (lo + int g mod (hi - lo + 1), g + 1)),
     lib_exp = (\<lambda>x. x), lib_log = (\<lambda>x. x), lib_shuffle = (\<lambda>seed xs. xs)\<rparr>"

lemma toy_lib_ok: "lib_ok toy_lib"
proof -
  have "lo \<le> lo + int g mod (hi - lo + 1) \<and> lo + int g mod (hi - lo + 1) \<le> hi" if "lo \<le> hi" for lo hi :: int and g :: nat
    using pos_mod_bound [of "hi - lo + 1" "int g"] pos_mod_sign [of "hi - lo + 1" "int g"] that by linarith
  then show ?thesis by (simp add: lib_ok_def toy_lib_def)
qed

text \<open>The workload's source answers with the draw nearest to the ideal among the next \<open>k\<close> draws that fit the
  room, with a decode length of at least 1000, and with no request only if every draw that
  fits is of negative length or its deviation is not below infinity.\<close>
theorem workload_pull_nearest:
  assumes "workload_pull_near lib w ideal room = (r, w')"
  shows "if 0 \<le> req_prompt r
    then req_prompt r \<in> fitting room (draws lib (nat (ws_k w)) (ws_rng w)) \<and> req_dtot r = max 1000 (req_prompt r)
      \<and> (\<forall>x \<in> fitting room (draws lib (nat (ws_k w)) (ws_rng w)). \<not> \<bar>dbl x - ideal\<bar> < \<bar>dbl (req_prompt r) - ideal\<bar>)
    else r = no_request \<and> (\<forall>x \<in> fitting room (draws lib (nat (ws_k w)) (ws_rng w)).
      \<bar>dbl x - ideal\<bar> < PInf \<longrightarrow> (\<exists>y < 0. y \<in> fitting room (draws lib (nat (ws_k w)) (ws_rng w))))"
proof -
  obtain best dev g where b: "best_of lib (nat (ws_k w)) ideal room (- 1) PInf (ws_rng w) = (best, dev, g)"
    using prod_cases3 by blast
  note s = best_of_spec [OF b]
  show ?thesis
  proof (cases "best < 0")
    case True
    with assms b have "r = no_request" by (simp add: workload_pull_near_def)
    with s True show ?thesis by auto
  next
    case False
    with assms b have "r = \<lparr>req_prompt = best, req_dtot = (if 1000 < best then best else 1000)\<rparr>"
      by (simp add: workload_pull_near_def)
    with s False show ?thesis by (auto simp: max_def)
  qed
qed

theorem workload_pull_nearest_witness:
  "fst (workload_pull_near toy_lib (make_workload toy_lib 0 3) (dlit 60000) 100000) = \<lparr>req_prompt = 88000, req_dtot = 88000\<rparr>
   \<and> 88000 \<in> fitting 100000 (draws toy_lib 3 0)"
proof -
  have run: "workload_pull_near toy_lib (make_workload toy_lib 0 3) (dlit 60000) 100000
      = (\<lparr>req_prompt = 88000, req_dtot = 88000\<rparr>, \<lparr>ws_rng = 6, ws_k = 3\<rparr>)" by code_simp
  then show ?thesis using workload_pull_nearest [OF run] by (simp add: make_workload_def toy_lib_def)
qed

end
