(* ===== verification/Global_Queue.thy ===== *)
theory Global_Queue
  imports Cxx_Double
begin

text \<open>
  \<open>scheduler/request.h\<close> and \<open>scheduler/queue.cpp\<close>: the finite queue of the whole cluster.
  A slot is filled with the request nearest to the ideal length, unless some request has
  waited longer than the global age cap: then the oldest one is forced in, whatever its
  length. The lemmas: what each pull takes and leaves, and that forcing bounds the wait.
\<close>

section \<open>The model\<close>

record Request =
  r_id :: int
  r_prompt :: int
  r_max_tokens :: int
  r_cached_prefix :: int
  r_arrival :: int
  r_turn :: int

definition no_Request :: Request where
  "no_Request = \<lparr>r_id = - 1, r_prompt = 0, r_max_tokens = 0, r_cached_prefix = 0, r_arrival = 0, r_turn = 0\<rparr>"

record GlobalQueue =
  gq_q :: "Request list"
  gq_age_cap :: int
  gq_forced :: int

definition make_queue :: "int \<Rightarrow> GlobalQueue" where
  "make_queue global_age_cap = \<lparr>gq_q = [], gq_age_cap = global_age_cap, gq_forced = 0\<rparr>"

definition gq_push :: "Request \<Rightarrow> GlobalQueue \<Rightarrow> GlobalQueue" where
  "gq_push r g = g\<lparr>gq_q := gq_q g @ [r]\<rparr>"

definition gq_size :: "GlobalQueue \<Rightarrow> int" where
  "gq_size g = int (length (gq_q g))"

definition find_near :: "GlobalQueue \<Rightarrow> double \<Rightarrow> int \<Rightarrow> nat option" where
  "find_near g ideal room =
     scan_best (\<lambda>i. \<not> room < r_prompt (gq_q g ! i)) (\<lambda>i. \<bar>dbl (r_prompt (gq_q g ! i)) - ideal\<bar>) (<)
       (dlit (10 ^ 18)) (length (gq_q g))"

definition find_oldest_aged :: "GlobalQueue \<Rightarrow> int \<Rightarrow> nat option" where
  "find_oldest_aged g now =
     scan_first (\<lambda>i. gq_age_cap g < now - r_arrival (gq_q g ! i)) (\<lambda>i. r_arrival (gq_q g ! i)) (<) (length (gq_q g))"

text \<open>Removal by moving the last element into the gap.\<close>

definition gq_take :: "nat \<Rightarrow> GlobalQueue \<Rightarrow> Request \<times> GlobalQueue" where
  "gq_take idx g = (gq_q g ! idx, g\<lparr>gq_q := butlast ((gq_q g)[idx := last (gq_q g)])\<rparr>)"

definition gq_pull_near :: "GlobalQueue \<Rightarrow> double \<Rightarrow> int \<Rightarrow> Request \<times> GlobalQueue" where
  "gq_pull_near g ideal room =
     (case find_near g ideal room of None \<Rightarrow> (no_Request, g) | Some idx \<Rightarrow> gq_take idx g)"

definition gq_pull_slot :: "GlobalQueue \<Rightarrow> double \<Rightarrow> int \<Rightarrow> int \<Rightarrow> Request \<times> GlobalQueue" where
  "gq_pull_slot g ideal room now =
     (case find_oldest_aged g now of
        Some idx \<Rightarrow> gq_take idx (g\<lparr>gq_forced := gq_forced g + 1\<rparr>)
      | None \<Rightarrow> gq_pull_near g ideal room)"

definition gq_max_wait :: "GlobalQueue \<Rightarrow> int \<Rightarrow> int" where
  "gq_max_wait g now = fold (\<lambda>r mx. if mx < now - r_arrival r then now - r_arrival r else mx) (gq_q g) 0"

section \<open>What a pull takes\<close>

lemma mset_swap_pop: "i < length xs \<Longrightarrow> mset xs = add_mset (xs ! i) (mset (butlast (xs[i := last xs])))"
proof -
  assume i: "i < length xs"
  then obtain ys y where xs: "xs = ys @ [y]" by (metis length_0_conv less_nat_zero_code rev_exhaust)
  show ?thesis
  proof (cases "i = length ys")
    case True
    then show ?thesis by (simp add: xs)
  next
    case False
    with i xs have "i < length ys" by simp
    then show ?thesis by (simp add: xs list_update_append1 nth_append mset_update)
  qed
qed

lemma gq_take_simps [sched_simps]:
  "gq_age_cap (snd (gq_take i g)) = gq_age_cap g" "gq_forced (snd (gq_take i g)) = gq_forced g"
  by (simp_all add: gq_take_def)

lemma gq_take_mset:
  "i < length (gq_q g) \<Longrightarrow> gq_take i g = (r, g') \<Longrightarrow> r = gq_q g ! i \<and> mset (gq_q g) = add_mset r (mset (gq_q g'))"
  by (auto simp: gq_take_def mset_swap_pop)

lemma find_near_Some:
  assumes "find_near g ideal room = Some i"
  shows "i < length (gq_q g)" and "r_prompt (gq_q g ! i) \<le> room"
    and "\<forall>x \<in> set (gq_q g). r_prompt x \<le> room \<longrightarrow>
      \<not> \<bar>dbl (r_prompt x) - ideal\<bar> < \<bar>dbl (r_prompt (gq_q g ! i)) - ideal\<bar>"
  using dbl_lt.scan_Some [OF assms [unfolded find_near_def]] by (auto simp: all_set_conv_all_nth)

lemma find_near_None:
  assumes "find_near g ideal room = None" and "below58 ideal" and "x \<in> set (gq_q g)" and "\<bar>r_prompt x\<bar> \<le> 2 ^ 58"
  shows "room < r_prompt x"
proof (rule ccontr)
  assume "\<not> ?thesis"
  moreover obtain i where i: "i < length (gq_q g)" "x = gq_q g ! i" using assms(3) by (auto simp: in_set_conv_nth)
  ultimately have "\<not> \<bar>dbl (r_prompt x) - ideal\<bar> < dlit (10 ^ 18)"
    using assms(1) by (auto simp: find_near_def dbl_lt.scan_None)
  with below58_diff [OF below58_dbl [OF assms(4)] assms(2)] show False by simp
qed

lemma find_oldest_Some:
  assumes "find_oldest_aged g now = Some i"
  shows "i < length (gq_q g)" and "gq_age_cap g < now - r_arrival (gq_q g ! i)"
    and "\<forall>x \<in> set (gq_q g). r_arrival (gq_q g ! i) \<le> r_arrival x"
proof -
  note s = int_lt.scan1_Some [OF assms [unfolded find_oldest_aged_def]]
  show "i < length (gq_q g)" "gq_age_cap g < now - r_arrival (gq_q g ! i)" using s(1,2) by simp_all
  show "\<forall>x \<in> set (gq_q g). r_arrival (gq_q g ! i) \<le> r_arrival x"
    unfolding all_set_conv_all_nth
  proof (intro allI impI)
    fix j assume "j < length (gq_q g)"
    with s(2,3) show "r_arrival (gq_q g ! i) \<le> r_arrival (gq_q g ! j)"
      by (cases "gq_age_cap g < now - r_arrival (gq_q g ! j)") (auto simp: not_less)
  qed
qed

lemma find_oldest_None: "find_oldest_aged g now = None \<longleftrightarrow> (\<forall>x \<in> set (gq_q g). now - r_arrival x \<le> gq_age_cap g)"
  unfolding find_oldest_aged_def int_lt.scan1_None by (auto simp: all_set_conv_all_nth not_less)

section \<open>Operations in sequence\<close>

datatype queue_op = Push Request | Slot double int int

fun queue_step :: "queue_op \<Rightarrow> GlobalQueue \<Rightarrow> GlobalQueue" where
  "queue_step (Push r) g = gq_push r g"
| "queue_step (Slot ideal room now) g = snd (gq_pull_slot g ideal room now)"

definition queue_rank :: "int \<Rightarrow> GlobalQueue \<Rightarrow> nat" where
  "queue_rank a g = length (filter (\<lambda>x. r_arrival x \<le> a) (gq_q g))"

lemma queue_rank_mset: "queue_rank a g = size (filter_mset (\<lambda>x. r_arrival x \<le> a) (mset (gq_q g)))"
  by (simp add: queue_rank_def flip: mset_filter size_mset)

lemma queue_rank_0: "queue_rank a g = 0 \<longleftrightarrow> (\<forall>x \<in> set (gq_q g). a < r_arrival x)"
  by (auto simp: queue_rank_def filter_empty_conv not_le)

text \<open>While a request that arrived by \<open>a\<close> is aged, every slot takes one that arrived by \<open>a\<close>.\<close>

lemma slot_rank:
  assumes "gq_age_cap g < now - a"
  shows "queue_rank a (snd (gq_pull_slot g ideal room now)) \<le> queue_rank a g - 1"
    and "gq_age_cap (snd (gq_pull_slot g ideal room now)) = gq_age_cap g"
proof -
  show "gq_age_cap (snd (gq_pull_slot g ideal room now)) = gq_age_cap g"
    by (simp add: gq_pull_slot_def gq_pull_near_def sched_simps split: option.splits)
  show "queue_rank a (snd (gq_pull_slot g ideal room now)) \<le> queue_rank a g - 1"
  proof (cases "find_oldest_aged g now")
    case None
    then have 0: "queue_rank a g = 0"
      using assms by (force simp: queue_rank_0 find_oldest_None)
    have "set (gq_q (snd (gq_pull_near g ideal room))) \<subseteq> set (gq_q g)"
    proof (cases "find_near g ideal room")
      case (Some i)
      obtain r g' where t: "gq_take i g = (r, g')" by fastforce
      have "mset (gq_q g) = add_mset r (mset (gq_q g'))"
        using gq_take_mset [OF find_near_Some(1) [OF Some] t] by simp
      then have "set (gq_q g') \<subseteq> set (gq_q g)" by (metis set_mset_mset set_mset_add_mset_insert subset_insertI)
      then show ?thesis by (simp add: gq_pull_near_def Some t)
    qed (simp add: gq_pull_near_def)
    with 0 have "queue_rank a (snd (gq_pull_near g ideal room)) = 0" unfolding queue_rank_0 by blast
    with None show ?thesis by (simp add: gq_pull_slot_def)
  next
    case (Some i)
    let ?g = "g\<lparr>gq_forced := gq_forced g + 1\<rparr>"
    obtain r g' where t: "gq_take i ?g = (r, g')" by fastforce
    note o = find_oldest_Some [OF Some]
    have m: "r = gq_q g ! i" "mset (gq_q g) = add_mset r (mset (gq_q g'))" using gq_take_mset [OF _ t] o(1) by auto
    have "queue_rank a g' \<le> queue_rank a g - 1"
    proof (cases "r_arrival r \<le> a")
      case True
      then show ?thesis by (simp add: queue_rank_mset m(2))
    next
      case False
      then have "\<forall>x \<in> set (gq_q g). a < r_arrival x" using o(3) m(1) by force
      moreover have "set (gq_q g') \<subseteq> set (gq_q g)" using m(2) by (metis set_mset_mset set_mset_add_mset_insert subset_insertI)
      ultimately have "queue_rank a g' = 0" by (auto simp: queue_rank_0)
      then show ?thesis by simp
    qed
    with Some t show ?thesis by (simp add: gq_pull_slot_def)
  qed
qed

definition is_slot :: "queue_op \<Rightarrow> bool" where
  "is_slot p = (case p of Push r \<Rightarrow> False | Slot ideal room now \<Rightarrow> True)"

text \<open>The operations come later than \<open>a\<close>: requests pushed arrive after it, slots see it aged.\<close>

definition op_after :: "int \<Rightarrow> int \<Rightarrow> queue_op \<Rightarrow> bool" where
  "op_after a cap p = (case p of Push r \<Rightarrow> a < r_arrival r | Slot ideal room now \<Rightarrow> cap < now - a)"

lemma queue_ops_rank:
  assumes "\<forall>p \<in> set ops. op_after a (gq_age_cap g) p"
  shows "queue_rank a (fold queue_step ops g) \<le> queue_rank a g - length (filter is_slot ops)
    \<and> gq_age_cap (fold queue_step ops g) = gq_age_cap g"
  using assms
proof (induction ops arbitrary: g)
  case (Cons p ops)
  have cap: "gq_age_cap (queue_step p g) = gq_age_cap g"
    using slot_rank(2) Cons.prems by (cases p) (auto simp: gq_push_def op_after_def)
  have rank: "queue_rank a (queue_step p g) \<le> queue_rank a g - (if is_slot p then 1 else 0)"
    using slot_rank(1) Cons.prems by (cases p) (auto simp: gq_push_def op_after_def is_slot_def queue_rank_def)
  show ?case using Cons.IH [of "queue_step p g"] Cons.prems cap rank by auto
qed simp

section \<open>Properties\<close>

definition small_request :: "int \<Rightarrow> int \<Rightarrow> int \<Rightarrow> Request" where
  "small_request i p arr = \<lparr>r_id = i, r_prompt = p, r_max_tokens = 3, r_cached_prefix = 0, r_arrival = arr, r_turn = 0\<rparr>"

definition small_queue :: GlobalQueue where
  "small_queue = \<lparr>gq_q = [small_request 1 90 4, small_request 2 400 0, small_request 3 110 5], gq_age_cap = 6, gq_forced = 0\<rparr>"

text \<open>Filling a slot forces in the request of the earliest arrival, whatever its length, exactly when some
  request has waited longer than the age cap, and counts it; otherwise it takes a fitting
  request nearest to the ideal. Either way the queue loses this request and no other.\<close>
theorem pull_slot_takes:
  assumes "gq_pull_slot g ideal room now = (r, g')"
  shows "if \<exists>x \<in> set (gq_q g). gq_age_cap g < now - r_arrival x
    then r \<in> set (gq_q g) \<and> (\<forall>x \<in> set (gq_q g). r_arrival r \<le> r_arrival x)
      \<and> mset (gq_q g) = add_mset r (mset (gq_q g')) \<and> gq_forced g' = gq_forced g + 1
    else gq_forced g' = gq_forced g \<and>
      (r = no_Request \<and> g' = g
       \<or> r \<in> set (gq_q g) \<and> r_prompt r \<le> room \<and> mset (gq_q g) = add_mset r (mset (gq_q g'))
         \<and> (\<forall>x \<in> set (gq_q g). r_prompt x \<le> room \<longrightarrow> \<not> \<bar>dbl (r_prompt x) - ideal\<bar> < \<bar>dbl (r_prompt r) - ideal\<bar>))"
proof (cases "find_oldest_aged g now")
  case None
  then have "\<not> (\<exists>x \<in> set (gq_q g). gq_age_cap g < now - r_arrival x)" by (auto simp: find_oldest_None not_less)
  moreover have p: "gq_pull_near g ideal room = (r, g')" using assms None by (simp add: gq_pull_slot_def)
  ultimately show ?thesis
  proof (cases "find_near g ideal room")
    case None
    with p \<open>\<not> _\<close> show ?thesis by (simp add: gq_pull_near_def)
  next
    case (Some i)
    with p have t: "gq_take i g = (r, g')" by (simp add: gq_pull_near_def)
    note n = find_near_Some [OF Some] and m = gq_take_mset [OF find_near_Some(1) [OF Some] t]
    from t have "gq_forced g' = gq_forced g" using gq_take_simps(2) [of i g] by simp
    with n m \<open>\<not> _\<close> show ?thesis by auto
  qed
next
  case (Some i)
  let ?g = "g\<lparr>gq_forced := gq_forced g + 1\<rparr>"
  have t: "gq_take i ?g = (r, g')" using assms Some by (simp add: gq_pull_slot_def)
  note o = find_oldest_Some [OF Some]
  have m: "r = gq_q g ! i" "mset (gq_q g) = add_mset r (mset (gq_q g'))" using gq_take_mset [OF _ t] o(1) by auto
  from t have "gq_forced g' = gq_forced g + 1" using gq_take_simps(2) [of i ?g] by simp
  moreover have "\<exists>x \<in> set (gq_q g). gq_age_cap g < now - r_arrival x" using o(1,2) nth_mem by blast
  ultimately show ?thesis using o m nth_mem by auto
qed

theorem pull_slot_takes_witness:
  "gq_pull_slot small_queue (dlit 100) 200 7
     = (small_request 2 400 0, \<lparr>gq_q = [small_request 1 90 4, small_request 3 110 5], gq_age_cap = 6, gq_forced = 1\<rparr>)
   \<and> mset (gq_q small_queue) = {#small_request 2 400 0, small_request 1 90 4, small_request 3 110 5#}"
proof -
  have run: "gq_pull_slot small_queue (dlit 100) 200 7
     = (small_request 2 400 0, \<lparr>gq_q = [small_request 1 90 4, small_request 3 110 5], gq_age_cap = 6, gq_forced = 1\<rparr>)"
    by code_simp
  have "\<exists>x \<in> set (gq_q small_queue). gq_age_cap small_queue < 7 - r_arrival x" by code_simp
  with pull_slot_takes [OF run] run show ?thesis by simp
qed

text \<open>C32: The global age cap bounds the wait: however the later arrivals and the lengths asked for
  interleave, after as many slots as there are requests that arrived by time \<open>a\<close>, filled while
  such requests count as aged, none of these is left in the queue.\<close>
theorem age_cap_bounds_wait:
  assumes "\<forall>p \<in> set ops. op_after a (gq_age_cap g) p" and "queue_rank a g \<le> length (filter is_slot ops)"
  shows "\<forall>x \<in> set (gq_q (fold queue_step ops g)). a < r_arrival x"
  using queue_ops_rank [OF assms(1)] assms(2) by (simp flip: queue_rank_0)

theorem age_cap_bounds_wait_witness:
  "filter (\<lambda>x. r_arrival x \<le> 4)
     (gq_q (fold queue_step [Slot (dlit 90) 100 12, Push (small_request 4 95 12), Slot (dlit 90) 100 13] small_queue)) = []"
proof -
  let ?ops = "[Slot (dlit 90) 100 12, Push (small_request 4 95 12), Slot (dlit 90) 100 13]"
  have "\<forall>p \<in> set ?ops. op_after 4 (gq_age_cap small_queue) p" "queue_rank 4 small_queue \<le> length (filter is_slot ?ops)"
    by (simp_all add: op_after_def small_request_def small_queue_def queue_rank_def is_slot_def)
  then show ?thesis unfolding filter_empty_conv not_le by (rule age_cap_bounds_wait)
qed

end
