(* ===== verification/Workload_MT.thy ===== *)
theory Workload_MT
  imports Workload Global_Queue
begin

text \<open>
  \<open>sim/workload_mt.cpp\<close>: conversations of several turns. A fresh arrival draws a length until
  one is below the edge cutoff; a finished turn may come back, with the whole context so far
  as its cached prefix. The drawing loop need not end, so it is a partial function; that it
  ends when some draw is below the cutoff is a lemma.
\<close>

section \<open>The model\<close>

record MultiTurnConfig =
  p_return_short :: double
  p_return_mid :: double
  p_return_long :: double
  dtot_lo :: int
  dtot_hi :: int
  new_msg_lo :: int
  new_msg_hi :: int
  think_gap_lo :: int
  think_gap_hi :: int

record 'g MultiTurnWorkload =
  mt_rng :: 'g
  mt_edge_cutoff :: int
  mt_cfg :: MultiTurnConfig
  mt_next_id :: int

definition make_mt :: "'g Lib \<Rightarrow> nat \<Rightarrow> int \<Rightarrow> MultiTurnConfig \<Rightarrow> 'g MultiTurnWorkload" where
  "make_mt lib seed cutoff cfg = \<lparr>mt_rng = lib_seed lib seed, mt_edge_cutoff = cutoff, mt_cfg = cfg, mt_next_id = 0\<rparr>"

partial_function (option) gated_sample :: "'g Lib \<Rightarrow> int \<Rightarrow> 'g \<Rightarrow> (int \<times> 'g) option" where
  "gated_sample lib cutoff g =
     (case sample_distribution_b lib g of
        (v, g') \<Rightarrow> if cutoff < v then gated_sample lib cutoff g' else Some (v, g'))"

lemmas gated_sample_code [code] = gated_sample.simps

definition prompt_class :: "int \<Rightarrow> nat" where
  "prompt_class p = (if p < 16000 then 0 else if p < 256000 then 1 else 2)"

definition fresh_arrival :: "'g Lib \<Rightarrow> int \<Rightarrow> 'g MultiTurnWorkload \<Rightarrow> (Request \<times> 'g MultiTurnWorkload) option" where
  "fresh_arrival lib now w =
     (case gated_sample lib (mt_edge_cutoff w) (mt_rng w) of
        None \<Rightarrow> None
      | Some (v, g) \<Rightarrow>
          (case lib_int lib (dtot_lo (mt_cfg w)) (dtot_hi (mt_cfg w)) g of
             (d, g') \<Rightarrow> Some (\<lparr>r_id = mt_next_id w, r_prompt = v, r_max_tokens = d, r_cached_prefix = 0,
                              r_arrival = now, r_turn = 0\<rparr>,
                            w\<lparr>mt_rng := g', mt_next_id := mt_next_id w + 1\<rparr>)))"

record Return =
  ret_returns :: bool
  ret_round :: int
  ret_next :: Request

definition return_probability :: "MultiTurnConfig \<Rightarrow> int \<Rightarrow> double" where
  "return_probability cfg p =
     (if prompt_class p = 0 then p_return_short cfg
      else if prompt_class p = 1 then p_return_mid cfg else p_return_long cfg)"

definition maybe_return :: "'g Lib \<Rightarrow> Request \<Rightarrow> int \<Rightarrow> 'g MultiTurnWorkload \<Rightarrow> Return \<times> 'g MultiTurnWorkload" where
  "maybe_return lib prev now w =
     (let cfg = mt_cfg w
      in case lib_uni lib (mt_rng w) of
           (u, g1) \<Rightarrow>
             if \<not> u < return_probability cfg (r_prompt prev)
             then (\<lparr>ret_returns = False, ret_round = 0, ret_next = no_Request\<rparr>, w\<lparr>mt_rng := g1\<rparr>)
             else (case lib_int lib (think_gap_lo cfg) (think_gap_hi cfg) g1 of
               (think_gap, g2) \<Rightarrow>
                 let return_round = now + think_gap;
                     cached = r_prompt prev + r_max_tokens prev
                 in case lib_int lib (new_msg_lo cfg) (new_msg_hi cfg) g2 of
                      (p2, g3) \<Rightarrow>
                        (case lib_int lib (dtot_lo cfg) (dtot_hi cfg) g3 of
                           (d, g4) \<Rightarrow>
                             (\<lparr>ret_returns = True, ret_round = return_round,
                               ret_next = \<lparr>r_id = r_id prev, r_prompt = cached + p2, r_max_tokens = d,
                                           r_cached_prefix = cached, r_arrival = return_round, r_turn = r_turn prev + 1\<rparr>\<rparr>,
                              w\<lparr>mt_rng := g4\<rparr>))))"

section \<open>Fresh arrivals\<close>

text \<open>The drawing loop gives the first draw that is not above the cutoff, if there is one.\<close>

lemma gated_sample_first:
  "dropWhile (\<lambda>v. cutoff < v) (draws lib n g) = v # rest \<Longrightarrow> \<exists>g'. gated_sample lib cutoff g = Some (v, g')"
proof (induction n arbitrary: g)
  case (Suc n)
  obtain x g1 where s: "sample_distribution_b lib g = (x, g1)" by fastforce
  with Suc show ?case by (subst gated_sample.simps) (auto split: if_splits)
qed simp

lemma gated_sample_le: "gated_sample lib cutoff g = Some (v, g') \<Longrightarrow> v \<le> cutoff"
proof -
  have "gated_sample lib cutoff g = Some y \<Longrightarrow> fst y \<le> cutoff" for y
    by (rule gated_sample.raw_induct [where P = "\<lambda>lib cutoff g y. fst y \<le> cutoff"])
      (auto split: prod.splits if_splits)
  from this [of "(v, g')"] show "gated_sample lib cutoff g = Some (v, g') \<Longrightarrow> v \<le> cutoff" by simp
qed

text \<open>Arrivals in sequence, as the drivers ask for them.\<close>

fun arrivals :: "'g Lib \<Rightarrow> int \<Rightarrow> nat \<Rightarrow> 'g MultiTurnWorkload \<Rightarrow> (Request list \<times> 'g MultiTurnWorkload) option" where
  "arrivals lib now 0 w = Some ([], w)"
| "arrivals lib now (Suc n) w =
     (case fresh_arrival lib now w of
        None \<Rightarrow> None
      | Some (r, w') \<Rightarrow> (case arrivals lib now n w' of None \<Rightarrow> None | Some (rs, w'') \<Rightarrow> Some (r # rs, w'')))"

lemma fresh_arrival_Some:
  assumes "fresh_arrival lib now w = Some (r, w')"
  shows "r_id r = mt_next_id w" "mt_next_id w' = mt_next_id w + 1" "r_prompt r \<le> mt_edge_cutoff w"
    "mt_edge_cutoff w' = mt_edge_cutoff w" "mt_cfg w' = mt_cfg w" "r_turn r = 0" "r_cached_prefix r = 0" "r_arrival r = now"
    "lib_ok lib \<Longrightarrow> dtot_lo (mt_cfg w) \<le> dtot_hi (mt_cfg w) \<Longrightarrow>
       dtot_lo (mt_cfg w) \<le> r_max_tokens r \<and> r_max_tokens r \<le> dtot_hi (mt_cfg w)"
proof -
  obtain v g where v: "gated_sample lib (mt_edge_cutoff w) (mt_rng w) = Some (v, g)"
    using assms by (cases "gated_sample lib (mt_edge_cutoff w) (mt_rng w)") (auto simp: fresh_arrival_def)
  obtain d g' where d: "lib_int lib (dtot_lo (mt_cfg w)) (dtot_hi (mt_cfg w)) g = (d, g')" by fastforce
  have r: "r = \<lparr>r_id = mt_next_id w, r_prompt = v, r_max_tokens = d, r_cached_prefix = 0, r_arrival = now, r_turn = 0\<rparr>"
    and w: "w' = w\<lparr>mt_rng := g', mt_next_id := mt_next_id w + 1\<rparr>"
    using assms by (simp_all add: fresh_arrival_def v d)
  show "r_id r = mt_next_id w" "mt_next_id w' = mt_next_id w + 1" "r_prompt r \<le> mt_edge_cutoff w"
    "mt_edge_cutoff w' = mt_edge_cutoff w" "mt_cfg w' = mt_cfg w" "r_turn r = 0" "r_cached_prefix r = 0" "r_arrival r = now"
    using gated_sample_le [OF v] by (simp_all add: r w)
  show "dtot_lo (mt_cfg w) \<le> r_max_tokens r \<and> r_max_tokens r \<le> dtot_hi (mt_cfg w)"
    if "lib_ok lib" "dtot_lo (mt_cfg w) \<le> dtot_hi (mt_cfg w)"
    using lib_int_range [OF that(1) d that(2)] by (simp add: r)
qed

lemma arrivals_ids:
  "arrivals lib now n w = Some (rs, w') \<Longrightarrow> map r_id rs = map (\<lambda>k. mt_next_id w + int k) [0..<n]
     \<and> (\<forall>r \<in> set rs. r_prompt r \<le> mt_edge_cutoff w \<and> r_arrival r = now \<and> r_turn r = 0)"
proof (induction n arbitrary: w rs)
  case (Suc n)
  obtain r w1 where f: "fresh_arrival lib now w = Some (r, w1)"
    using Suc.prems by (cases "fresh_arrival lib now w") auto
  obtain rs1 where "arrivals lib now n w1 = Some (rs1, w')" "rs = r # rs1"
    using Suc.prems f by (cases "arrivals lib now n w1") auto
  note s = f this
  note f = fresh_arrival_Some [OF f] and IH = Suc.IH [OF s(2)]
  have "map (\<lambda>k. mt_next_id w + int k) [0..<Suc n] = mt_next_id w # map (\<lambda>k. mt_next_id w1 + int k) [0..<n]"
    by (simp add: upt_conv_Cons map_Suc_upt [symmetric] f(2) add.assoc del: upt_Suc)
  with IH f s(3) show ?case by simp
qed simp

section \<open>Properties\<close>

definition small_mt :: MultiTurnConfig where
  "small_mt = \<lparr>p_return_short = dlit (35 / 100), p_return_mid = dlit (60 / 100), p_return_long = dlit (75 / 100),
     dtot_lo = 256, dtot_hi = 4096, new_msg_lo = 500, new_msg_hi = 8000, think_gap_lo = 2, think_gap_hi = 40\<rparr>"

text \<open>Drawing a gated length ends as soon as some draw is not above the cutoff, with the
  first such draw; it never yields a length above the cutoff.\<close>
theorem gated_sample_returns:
  assumes "\<exists>v \<in> set (draws lib n g). v \<le> cutoff"
  shows "\<exists>v g'. gated_sample lib cutoff g = Some (v, g') \<and> v \<le> cutoff \<and> v = hd (dropWhile (\<lambda>v. cutoff < v) (draws lib n g))"
proof -
  have "dropWhile (\<lambda>v. cutoff < v) (draws lib n g) \<noteq> []" using assms by (simp add: dropWhile_eq_Nil_conv not_less)
  then obtain v rest where v: "dropWhile (\<lambda>v. cutoff < v) (draws lib n g) = v # rest" by (cases "dropWhile (\<lambda>v. cutoff < v) (draws lib n g)") auto
  from gated_sample_first [OF v] obtain g' where "gated_sample lib cutoff g = Some (v, g')" by blast
  with v gated_sample_le [OF this] show ?thesis by auto
qed

theorem gated_sample_returns_witness:
  "\<exists>v g'. gated_sample toy_lib 100000 4 = Some (v, g') \<and> v \<le> 100000 \<and> v = 2500"
proof -
  have d: "draws toy_lib 4 4 = [136000, 184000, 232000, 2500]" by code_simp
  then have "\<exists>v \<in> set (draws toy_lib 4 4). v \<le> 100000" by simp
  from gated_sample_returns [OF this] show ?thesis by (simp add: d)
qed

text \<open>The arrivals of one generator carry consecutive, hence distinct, ids, first turns, the
  arrival round and lengths of at most the edge cutoff.\<close>
theorem arrivals_distinct:
  assumes "arrivals lib now n w = Some (rs, w')"
  shows "map r_id rs = map (\<lambda>k. mt_next_id w + int k) [0..<n] \<and> distinct (map r_id rs)
    \<and> (\<forall>r \<in> set rs. r_prompt r \<le> mt_edge_cutoff w \<and> r_arrival r = now \<and> r_turn r = 0)"
proof -
  have "distinct (map (\<lambda>k. mt_next_id w + int k) [0..<n])" by (simp add: distinct_map inj_on_def)
  with arrivals_ids [OF assms] show ?thesis by simp
qed

theorem arrivals_distinct_witness:
  "\<exists>rs w'. arrivals toy_lib 3 2 (make_mt toy_lib 4 100000 small_mt) = Some (rs, w') \<and> map r_id rs = [0, 1]"
proof -
  have "arrivals toy_lib 3 2 (make_mt toy_lib 4 100000 small_mt) \<noteq> None" by code_simp
  then obtain rs w' where a: "arrivals toy_lib 3 2 (make_mt toy_lib 4 100000 small_mt) = Some (rs, w')" by auto
  from arrivals_distinct [OF this] a show ?thesis by (auto simp: make_mt_def upt_rec)
qed

text \<open>A return continues its conversation.\<close>

lemma maybe_return_next:
  assumes "maybe_return lib prev now w = (ret, w')" and "ret_returns ret" and "lib_ok lib"
    and "think_gap_lo (mt_cfg w) \<le> think_gap_hi (mt_cfg w)" and "new_msg_lo (mt_cfg w) \<le> new_msg_hi (mt_cfg w)"
    and "dtot_lo (mt_cfg w) \<le> dtot_hi (mt_cfg w)"
  shows "r_id (ret_next ret) = r_id prev \<and> r_turn (ret_next ret) = r_turn prev + 1
    \<and> r_cached_prefix (ret_next ret) = r_prompt prev + r_max_tokens prev
    \<and> r_cached_prefix (ret_next ret) + new_msg_lo (mt_cfg w) \<le> r_prompt (ret_next ret)
    \<and> r_prompt (ret_next ret) \<le> r_cached_prefix (ret_next ret) + new_msg_hi (mt_cfg w)
    \<and> dtot_lo (mt_cfg w) \<le> r_max_tokens (ret_next ret) \<and> r_max_tokens (ret_next ret) \<le> dtot_hi (mt_cfg w)
    \<and> r_arrival (ret_next ret) = ret_round ret
    \<and> now + think_gap_lo (mt_cfg w) \<le> ret_round ret \<and> ret_round ret \<le> now + think_gap_hi (mt_cfg w)
    \<and> mt_next_id w' = mt_next_id w"
proof -
  let ?c = "mt_cfg w"
  obtain u g1 where u: "lib_uni lib (mt_rng w) = (u, g1)" by fastforce
  obtain tg g2 where t: "lib_int lib (think_gap_lo ?c) (think_gap_hi ?c) g1 = (tg, g2)" by fastforce
  obtain p2 g3 where p: "lib_int lib (new_msg_lo ?c) (new_msg_hi ?c) g2 = (p2, g3)" by fastforce
  obtain d g4 where d: "lib_int lib (dtot_lo ?c) (dtot_hi ?c) g3 = (d, g4)" by fastforce
  have "u < return_probability ?c (r_prompt prev)"
    using assms(1,2) by (auto simp: maybe_return_def Let_def u split: if_splits)
  then have "(ret, w') = (\<lparr>ret_returns = True, ret_round = now + tg,
      ret_next = \<lparr>r_id = r_id prev, r_prompt = r_prompt prev + r_max_tokens prev + p2, r_max_tokens = d,
        r_cached_prefix = r_prompt prev + r_max_tokens prev, r_arrival = now + tg, r_turn = r_turn prev + 1\<rparr>\<rparr>,
      w\<lparr>mt_rng := g4\<rparr>)"
    using assms(1) by (simp add: maybe_return_def Let_def u t p d)
  then show ?thesis
    using lib_int_range [OF assms(3) t assms(4)] lib_int_range [OF assms(3) p assms(5)] lib_int_range [OF assms(3) d assms(6)]
    by simp
qed

text \<open>A returning turn continues its conversation: the same id, the next turn, the whole
  previous context and its generated tokens as the cached prefix, a new message of a length in the
  configured range behind it, and an arrival after the configured thinking time.\<close>
theorem return_continues:
  assumes "maybe_return lib prev now w = (ret, w')" and "ret_returns ret" and "lib_ok lib"
    and "think_gap_lo (mt_cfg w) \<le> think_gap_hi (mt_cfg w)" and "new_msg_lo (mt_cfg w) \<le> new_msg_hi (mt_cfg w)"
    and "dtot_lo (mt_cfg w) \<le> dtot_hi (mt_cfg w)"
  shows "r_id (ret_next ret) = r_id prev \<and> r_turn (ret_next ret) = r_turn prev + 1
    \<and> r_cached_prefix (ret_next ret) = r_prompt prev + r_max_tokens prev
    \<and> r_cached_prefix (ret_next ret) + new_msg_lo (mt_cfg w) \<le> r_prompt (ret_next ret)
    \<and> r_prompt (ret_next ret) \<le> r_cached_prefix (ret_next ret) + new_msg_hi (mt_cfg w)
    \<and> dtot_lo (mt_cfg w) \<le> r_max_tokens (ret_next ret) \<and> r_max_tokens (ret_next ret) \<le> dtot_hi (mt_cfg w)
    \<and> r_arrival (ret_next ret) = ret_round ret
    \<and> now + think_gap_lo (mt_cfg w) \<le> ret_round ret \<and> ret_round ret \<le> now + think_gap_hi (mt_cfg w)
    \<and> mt_next_id w' = mt_next_id w"
  using maybe_return_next [OF assms] by simp

theorem return_continues_witness:
  "\<exists>ret w'. maybe_return toy_lib (small_request 5 700 9) 11 (make_mt toy_lib 0 100000 small_mt) = (ret, w')
     \<and> r_cached_prefix (ret_next ret) = 703 \<and> 13 \<le> ret_round ret \<and> ret_round ret \<le> 51"
proof -
  let ?m = "maybe_return toy_lib (small_request 5 700 9) 11 (make_mt toy_lib 0 100000 small_mt)"
  obtain ret w' where m: "?m = (ret, w')" by fastforce
  have "ret_returns (fst ?m)" by code_simp
  with m have "ret_returns ret" by simp
  from return_continues [OF m this toy_lib_ok] m show ?thesis
    by (simp add: make_mt_def small_mt_def small_request_def)
qed

end
