(* ===== verification/Harness.thy ===== *)
theory Harness
  imports Workload_MT Global_Scheduler
begin

text \<open>
  \<open>sim/harness.h\<close>: what the simulation drivers share. The deployment, the time model, the edge
  cutoff, the cache capacity that the derivation leaves, the store of returns that are due in
  a later round, and the configuration with its defaults.
\<close>

section \<open>Deployment and time model\<close>

record Deployment =
  d_model :: ModelSpec
  d_hw :: HwSpec
  d_op :: OperatingPoint

definition make_deployment :: Deployment where
  "make_deployment = \<lparr>d_model = llama70b, d_hw = b200, d_op = derive_operating_point llama70b b200 128 default_options\<rparr>"

definition round_us :: "Deployment \<Rightarrow> double" where
  "round_us d = balance_time_us (d_op d) * dbl (num_layers (d_model d))"

definition prefill_us :: "Deployment \<Rightarrow> int \<Rightarrow> double" where
  "prefill_us d len = round_us d * dbl len / dbl (prefill_tokens (d_op d))"

record OpTimes =
  t_pim :: double
  t_gpu_a :: double
  t_ffn :: double

definition round_optimes :: "int \<Rightarrow> int \<Rightarrow> Deployment \<Rightarrow> OpTimes" where
  "round_optimes decode_count sum_decode_kv d =
     (let batch_total = decode_count + prefill_tokens (d_op d)
      in \<lparr>t_pim = t_pim_us sum_decode_kv (d_hw d),
          t_gpu_a = t_gpu_a_us batch_total (prefill_kv_work_target (d_op d)) (d_model d) (d_hw d),
          t_ffn = t_ffn_us batch_total (d_model d) (d_hw d)\<rparr>)"

definition instance_a_latency :: "OpTimes \<Rightarrow> double \<Rightarrow> double" where
  "instance_a_latency t beta =
     (let exposed = t_pim t - t_gpu_a t
      in dmax (t_pim t) (t_gpu_a t) + beta * dmax (dlit 0) exposed)"

section \<open>Edge cutoff and capacities\<close>

definition max_kept :: "int list \<Rightarrow> int" where
  "max_kept xs = fold (\<lambda>x mx. if mx < x then x else mx) xs 0"

definition cutoff_of :: "int list \<Rightarrow> OperatingPoint \<Rightarrow> int" where
  "cutoff_of big op =
     (let gr = gate big op in if kept gr = [] then to_i32 (ctx_balance op) else max_kept (kept gr))"

definition edge_cutoff :: "'g Lib \<Rightarrow> OperatingPoint \<Rightarrow> nat \<Rightarrow> int" where
  "edge_cutoff lib op seed = cutoff_of (draws lib 200000 (lib_seed lib ((seed + 999) mod 2 ^ 32))) op"

definition node_cache_capacity_bytes :: "OperatingPoint \<Rightarrow> int" where
  "node_cache_capacity_bytes op =
     (let spare_tb = hbm_capacity_tb op - instance_a_tb op;
          spare_tb = (if spare_tb < dlit 0 then dlit 0 else spare_tb)
      in to_ll (spare_tb * dlit (10 ^ 12)))"

definition surplus_kv_bytes :: "Deployment \<Rightarrow> int" where
  "surplus_kv_bytes d =
     (let surplus = decode_pool (d_op d) - node_min (d_op d)
      in to_ll (dbl surplus * ctx_balance (d_op d) * dbl (kv_bytes_per_token (d_model d))))"

section \<open>Pending returns\<close>

text \<open>A multimap by round: entries in the order of their rounds, equal rounds in the order of insertion.\<close>

record PendingReturns =
  by_round :: "(int \<times> Request) list"

definition pending_add :: "int \<Rightarrow> Request \<Rightarrow> PendingReturns \<Rightarrow> PendingReturns" where
  "pending_add rnd_no r p =
     p\<lparr>by_round := takeWhile (\<lambda>x. fst x \<le> rnd_no) (by_round p) @ (rnd_no, r) # dropWhile (\<lambda>x. fst x \<le> rnd_no) (by_round p)\<rparr>"

definition pending_due :: "int \<Rightarrow> PendingReturns \<Rightarrow> Request list \<times> PendingReturns" where
  "pending_due now p =
     (map snd (takeWhile (\<lambda>x. fst x \<le> now) (by_round p)), p\<lparr>by_round := dropWhile (\<lambda>x. fst x \<le> now) (by_round p)\<rparr>)"

section \<open>The experiment\<close>

record SimConfig =
  sc_Z :: int
  sc_iters :: int
  sc_warm :: int
  sc_seed :: nat
  sc_seed_backlog :: int
  sc_eligibility_threshold :: int
  sc_evict_age :: int
  sc_gone_age :: int
  sc_global_age_cap :: int
  sc_offload_bw :: double
  sc_contention_beta :: double
  sc_slo_ttft_us :: double
  sc_slo_tbt_mult :: double
  sc_mt :: MultiTurnConfig

definition default_sim :: SimConfig where
  "default_sim = \<lparr>sc_Z = 64, sc_iters = 4000, sc_warm = 500, sc_seed = 7, sc_seed_backlog = 300,
     sc_eligibility_threshold = 16000, sc_evict_age = 200, sc_gone_age = 3000, sc_global_age_cap = 2000,
     sc_offload_bw = dlit (10 ^ 8), sc_contention_beta = dlit (1 / 2), sc_slo_ttft_us = dlit 5000000,
     sc_slo_tbt_mult = dlit (130 / 100), sc_mt = small_mt\<rparr>"

section \<open>The store of returns\<close>

definition pending_ok :: "PendingReturns \<Rightarrow> bool" where
  "pending_ok p \<longleftrightarrow> sorted (map fst (by_round p))"

lemma pending_ok_empty: "pending_ok \<lparr>by_round = []\<rparr>"
  by (simp add: pending_ok_def)

lemma sorted_fst_split:
  "sorted (map fst xs) \<Longrightarrow> takeWhile (\<lambda>x. fst x \<le> n) xs = filter (\<lambda>x. fst x \<le> n) xs
    \<and> dropWhile (\<lambda>x. fst x \<le> n) xs = filter (\<lambda>x. \<not> fst x \<le> n) xs"
  for n :: int
proof (induction xs)
  case (Cons x xs)
  show ?case
  proof (cases "fst x \<le> n")
    case True
    with Cons show ?thesis by simp
  next
    case False
    with Cons.prems have "\<forall>y \<in> set xs. \<not> fst y \<le> n" by fastforce
    with False show ?thesis by (simp add: filter_id_conv filter_empty_conv)
  qed
qed simp

lemma pending_add_ok: "pending_ok p \<Longrightarrow> pending_ok (pending_add n r p)"
proof -
  assume ok: "pending_ok p"
  then have s: "sorted (map fst (filter P (by_round p)))" for P by (simp add: pending_ok_def sorted_filter)
  show ?thesis
    using s ok unfolding pending_ok_def pending_add_def
    by (auto simp: sorted_fst_split sorted_append)
qed

lemma pending_add_mset: "mset (by_round (pending_add n r p)) = add_mset (n, r) (mset (by_round p))"
proof -
  have "mset (by_round p) = mset (takeWhile (\<lambda>x. fst x \<le> n) (by_round p)) + mset (dropWhile (\<lambda>x. fst x \<le> n) (by_round p))"
    by (metis mset_append takeWhile_dropWhile_id)
  then show ?thesis by (simp add: pending_add_def)
qed

lemma pending_due_eq:
  "pending_ok p \<Longrightarrow> pending_due now p =
     (map snd (filter (\<lambda>x. fst x \<le> now) (by_round p)), p\<lparr>by_round := filter (\<lambda>x. \<not> fst x \<le> now) (by_round p)\<rparr>)"
  by (simp add: pending_due_def sorted_fst_split pending_ok_def)

lemma pending_due_ok: "pending_ok p \<Longrightarrow> pending_ok (snd (pending_due now p))"
  by (simp add: pending_due_eq) (simp add: pending_ok_def sorted_filter)

section \<open>Latency\<close>

lemma max_kept_ge: "x \<in> set xs \<Longrightarrow> x \<le> max_kept xs"
proof -
  have "mx \<le> fold (\<lambda>x mx. if mx < x then x else mx) xs mx
      \<and> (\<forall>x \<in> set xs. x \<le> fold (\<lambda>x mx. if mx < x then x else mx) xs mx)" for mx :: int
    by (induction xs arbitrary: mx) (auto, (meson order_trans not_le less_imp_le)+)
  then show "x \<in> set xs \<Longrightarrow> x \<le> max_kept xs" by (simp add: max_kept_def)
qed

text \<open>A value the program can hold is a fixed point of rounding; every result of an operation is one.\<close>

definition held :: "double \<Rightarrow> bool" where
  "held x \<longleftrightarrow> (\<exists>r. x = Fin r \<and> rnd r = Fin r)"

lemma held_rnd: "rnd x = Fin r \<Longrightarrow> held (Fin r)"
proof -
  assume "rnd x = Fin r"
  then have "r = rnd_rat x" "\<bar>rnd_rat x\<bar> < pow2 1024" by (auto simp: rnd_def Let_def split: if_splits)
  then show ?thesis by (simp add: held_def rnd_def Let_def rnd_rat_idem)
qed

lemma held_add_nonneg:
  assumes "held (Fin r)" and "Fin 0 \<le> y" shows "Fin r \<le> Fin r + y"
proof (cases y)
  case (Fin b)
  with assms rnd_mono [of r "r + b"] show ?thesis by (simp add: held_def dbl_simps)
qed (use assms(2) in \<open>auto simp: dbl_defs\<close>)

section \<open>Properties\<close>

text \<open>The store of returns hands out exactly the entries whose round has come, in the order of
  their rounds and of insertion, keeps the others, and stays ordered under insertion: no
  return is lost, early or handed out twice.\<close>
theorem pending_due_exact:
  assumes "pending_ok p" and "pending_due now (pending_add n r p) = (out, p')"
  shows "out = map snd (filter (\<lambda>x. fst x \<le> now) (by_round (pending_add n r p)))
    \<and> by_round p' = filter (\<lambda>x. now < fst x) (by_round (pending_add n r p))
    \<and> mset (by_round (pending_add n r p)) = add_mset (n, r) (mset (by_round p))
    \<and> pending_ok (pending_add n r p) \<and> pending_ok p'"
  using pending_due_eq [OF pending_add_ok [OF assms(1)], of now] pending_due_ok [OF pending_add_ok [OF assms(1)], of now]
    pending_add_mset [of n r p] pending_add_ok [OF assms(1)] assms(2)
  by (auto simp: not_le dest!: arg_cong [of _ _ snd])

theorem pending_due_exact_witness:
  "pending_due 5 (pending_add 5 (small_request 2 90 5) \<lparr>by_round = [(3, small_request 1 80 3), (9, small_request 3 70 9)]\<rparr>)
     = ([small_request 1 80 3, small_request 2 90 5], \<lparr>by_round = [(9, small_request 3 70 9)]\<rparr>)
   \<and> pending_ok \<lparr>by_round = [(9, small_request 3 70 9)]\<rparr>"
proof -
  have run: "pending_due 5 (pending_add 5 (small_request 2 90 5) \<lparr>by_round = [(3, small_request 1 80 3), (9, small_request 3 70 9)]\<rparr>)
     = ([small_request 1 80 3, small_request 2 90 5], \<lparr>by_round = [(9, small_request 3 70 9)]\<rparr>)" by code_simp
  have "pending_ok \<lparr>by_round = [(3, small_request 1 80 3), (9, small_request 3 70 9)]\<rparr>" by (simp add: pending_ok_def)
  from pending_due_exact [OF this run] run show ?thesis by simp
qed

text \<open>The latency of instance A is never below either of its resources, and equals the GPU's time
  whenever the PIM time hides behind it: contention charges only what is exposed.\<close>
theorem instance_a_latency_bounds:
  assumes "held (t_pim t)" and "held (t_gpu_a t)" and "Fin 0 \<le> t_pim t" and "Fin 0 \<le> t_gpu_a t"
    and "beta = Fin c" and "0 \<le> c"
  shows "t_pim t \<le> instance_a_latency t beta \<and> t_gpu_a t \<le> instance_a_latency t beta
    \<and> (t_pim t \<le> t_gpu_a t \<longrightarrow> instance_a_latency t beta = t_gpu_a t)"
proof -
  obtain a b where t: "t_pim t = Fin a" "t_gpu_a t = Fin b" and h: "held (Fin a)" "held (Fin b)"
    using assms(1,2) by (auto simp: held_def)
  have nn: "0 \<le> a" "0 \<le> b" using assms(3,4) by (simp_all add: t dbl_simps)
  have "rnd (a - b) \<le> Fin a" using rnd_mono [of "a - b" a] nn h(1) by (simp add: held_def)
  moreover have "rnd b = Fin b" using h(2) by (simp add: held_def)
  then have "rnd (- b) = Fin (- b)" by (auto simp: rnd_def Let_def split: if_splits)
  then have "Fin (- b) \<le> rnd (a - b)" using rnd_mono [of "- b" "a - b"] nn by simp
  ultimately obtain v where v: "rnd (a - b) = Fin v" by (cases "rnd (a - b)") (auto simp: dbl_defs)
  have e: "dmax (dlit 0) (t_pim t - t_gpu_a t) = Fin (max 0 v)"
    by (simp add: t dbl_simps v dmax_def dlit_vals max_def)
  have lat: "instance_a_latency t beta = dmax (Fin a) (Fin b) + rnd (c * max 0 v)"
    by (simp add: instance_a_latency_def Let_def e assms(5) dbl_simps) (simp add: t)
  have m: "dmax (Fin a) (Fin b) = Fin (max a b)" "held (Fin (max a b))"
    using h by (simp_all add: dmax_def dbl_simps max_def)
  have "Fin 0 \<le> rnd (c * max 0 v)" using rnd_mono [of 0 "c * max 0 v"] assms(6) by simp
  then have "Fin (max a b) \<le> instance_a_latency t beta" unfolding lat m(1) by (rule held_add_nonneg [OF m(2)])
  moreover have "instance_a_latency t beta = t_gpu_a t" if "t_pim t \<le> t_gpu_a t"
  proof -
    have "a \<le> b" using that by (simp add: t dbl_simps)
    then have "rnd (a - b) \<le> Fin 0" using rnd_mono [of "a - b" 0] by simp
    then have "max 0 v = 0" by (simp add: v dbl_simps)
    then show ?thesis unfolding lat m(1) using h(2) \<open>a \<le> b\<close> by (simp add: held_def dbl_simps t max_def)
  qed
  ultimately show ?thesis by (auto simp: t intro: dle_trans [of _ "Fin (max a b)"] simp: dbl_simps)
qed

theorem instance_a_latency_bounds_witness:
  "instance_a_latency \<lparr>t_pim = dlit 20, t_gpu_a = dlit 25, t_ffn = dlit 24\<rparr> (dlit (1 / 2)) = dlit 25
   \<and> dlit 20 \<le> instance_a_latency \<lparr>t_pim = dlit 20, t_gpu_a = dlit 25, t_ffn = dlit 24\<rparr> (dlit (1 / 2))"
proof -
  let ?t = "\<lparr>t_pim = dlit 20, t_gpu_a = dlit 25, t_ffn = dlit 24\<rparr>"
  have v: "dlit 20 = Fin 20" "dlit 25 = Fin 25" "dlit (1 / 2) = Fin (1 / 2)" by code_simp+
  have "held (dlit 20)" "held (dlit 25)" using v by (auto simp: dlit_def intro: held_rnd)
  then have h: "held (t_pim ?t)" "held (t_gpu_a ?t)" by simp_all
  have nn: "Fin 0 \<le> t_pim ?t" "Fin 0 \<le> t_gpu_a ?t" by (simp_all add: v dbl_simps)
  have le: "t_pim ?t \<le> t_gpu_a ?t" by (simp add: v dbl_simps)
  show ?thesis using instance_a_latency_bounds [OF h nn v(3)] le by simp
qed

end
