(* ===== verification/Metrics.thy ===== *)
theory Metrics
  imports Harness
begin

text \<open>
  \<open>sim/metrics.h\<close> and \<open>sim/kpi.h\<close>: the counters that the drivers report. Every recording is a
  function on the record of counters. The lemmas: the counters partition what was recorded,
  the SLO tokens nest, the percentile is a sample with its rank, and a micro-batch counts as
  exposed exactly when the GPU wins the idle comparison.
\<close>

section \<open>Batch metrics\<close>

record Metrics =
  m_batches :: int
  m_hits :: int
  m_miss :: int
  m_sdev_sum :: double
  m_sdev_worst :: double
  m_miss_dev_sum :: double
  m_b1_cm :: int
  m_b1_dm :: int
  m_b2_cm :: int
  m_b2_dm :: int
  m_forced :: int
  m_edged :: int
  m_returns :: int
  m_hbm_hit :: int
  m_ssd_reload :: int
  m_recompute :: int
  m_saved_rounds :: double
  m_ttft :: "double list"
  m_pool_mean_sum :: double
  m_pool_mean_n :: int
  m_resid :: "double list"
  m_resid_n :: int

definition make_metrics :: Metrics where
  "make_metrics = \<lparr>m_batches = 0, m_hits = 0, m_miss = 0, m_sdev_sum = dlit 0, m_sdev_worst = dlit 0,
     m_miss_dev_sum = dlit 0, m_b1_cm = 0, m_b1_dm = 0, m_b2_cm = 0, m_b2_dm = 0, m_forced = 0, m_edged = 0,
     m_returns = 0, m_hbm_hit = 0, m_ssd_reload = 0, m_recompute = 0, m_saved_rounds = dlit 0, m_ttft = [],
     m_pool_mean_sum = dlit 0, m_pool_mean_n = 0, m_resid = [dlit 0, dlit 0, dlit 0], m_resid_n = 0\<rparr>"

definition batch_dev :: "int \<Rightarrow> OperatingPoint \<Rightarrow> double" where
  "batch_dev sum_kv op = \<bar>dbl sum_kv - dbl (kv_operating_target op)\<bar> / dbl (kv_operating_target op)"

definition batch_hit :: "int \<Rightarrow> int \<Rightarrow> OperatingPoint \<Rightarrow> bool" where
  "batch_hit cnt sum_kv op \<longleftrightarrow> cnt = decode_count_target op \<and> batch_dev sum_kv op \<le> idle_band op"

definition record_batch :: "int \<Rightarrow> int \<Rightarrow> OperatingPoint \<Rightarrow> bool \<Rightarrow> Metrics \<Rightarrow> Metrics" where
  "record_batch cnt sum_kv op b2 m =
     (let dev = batch_dev sum_kv op;
          m = m\<lparr>m_batches := m_batches m + 1, m_sdev_sum := m_sdev_sum m + dev,
                m_sdev_worst := (if m_sdev_worst m < dev then dev else m_sdev_worst m)\<rparr>
      in if batch_hit cnt sum_kv op then m\<lparr>m_hits := m_hits m + 1\<rparr>
         else let m = m\<lparr>m_miss := m_miss m + 1, m_miss_dev_sum := m_miss_dev_sum m + dev\<rparr>;
                  cm = (cnt \<noteq> decode_count_target op)
              in if \<not> b2 then (if cm then m\<lparr>m_b1_cm := m_b1_cm m + 1\<rparr> else m\<lparr>m_b1_dm := m_b1_dm m + 1\<rparr>)
                 else (if cm then m\<lparr>m_b2_cm := m_b2_cm m + 1\<rparr> else m\<lparr>m_b2_dm := m_b2_dm m + 1\<rparr>))"

definition record_pool :: "double \<Rightarrow> double list \<Rightarrow> Metrics \<Rightarrow> Metrics" where
  "record_pool mean_kv cls_frac m =
     m\<lparr>m_pool_mean_sum := m_pool_mean_sum m + mean_kv, m_pool_mean_n := m_pool_mean_n m + 1,
       m_resid := map (\<lambda>i. m_resid m ! i + cls_frac ! i) [0..<3], m_resid_n := m_resid_n m + 1\<rparr>"

text \<open>\<open>std::sort\<close> on doubles: an insertion sort by \<open><\<close>.\<close>

fun dinsert :: "double \<Rightarrow> double list \<Rightarrow> double list" where
  "dinsert x [] = [x]"
| "dinsert x (y # ys) = (if y < x then y # dinsert x ys else x # y # ys)"

definition dsort :: "double list \<Rightarrow> double list" where
  "dsort xs = foldr dinsert xs []"

definition p99_index :: "nat \<Rightarrow> nat" where
  "p99_index n = min (n - 1) (nat (llround (dlit (99 / 100) * dbl (int (n - 1)))))"

definition p99 :: "double list \<Rightarrow> double" where
  "p99 v = (if v = [] then dlit 0 else dsort v ! p99_index (length v))"

text \<open>The rates that \<open>print_summary\<close> prints.\<close>

definition percent_of :: "double \<Rightarrow> int \<Rightarrow> double" where
  "percent_of x n = (if n \<noteq> 0 then dlit 100 * x / dbl n else dlit 0)"

record Summary =
  s_hit_rate :: double
  s_sdev :: double
  s_worst :: double
  s_miss_dev :: double
  s_hbm_rate :: double
  s_p99 :: double
  s_pool_mean :: double
  s_resid :: "double list"

definition print_summary :: "Metrics \<Rightarrow> Summary" where
  "print_summary m =
     \<lparr>s_hit_rate = percent_of (dbl (m_hits m)) (m_batches m),
      s_sdev = percent_of (m_sdev_sum m) (m_batches m),
      s_worst = dlit 100 * m_sdev_worst m,
      s_miss_dev = percent_of (m_miss_dev_sum m) (m_miss m),
      s_hbm_rate = percent_of (dbl (m_hbm_hit m)) (m_returns m),
      s_p99 = p99 (m_ttft m),
      s_pool_mean = (if m_pool_mean_n m \<noteq> 0 then m_pool_mean_sum m / dbl (m_pool_mean_n m) else dlit 0),
      s_resid = map (\<lambda>i. percent_of (m_resid m ! i) (m_resid_n m)) [0..<3]\<rparr>"

section \<open>Key performance indicators\<close>

record SLO =
  t_ttft_us :: double
  t_tbt_us :: double

record Kpi =
  k_tbt :: "double list"
  k_ttft :: "double list"
  k_pim_win2 :: int
  k_gpua_win2 :: int
  k_pim_win3 :: int
  k_gpua_win3 :: int
  k_ffn_win3 :: int
  k_mb_total :: int
  k_exposed :: int
  k_exposure_us :: double
  k_tokens_total :: int
  k_tokens_tbt_met :: int
  k_tokens_slo_met :: int
  k_reqs_total :: int
  k_reqs_ttft_met :: int
  k_sim_us :: double

definition make_kpi :: Kpi where
  "make_kpi = \<lparr>k_tbt = [], k_ttft = [], k_pim_win2 = 0, k_gpua_win2 = 0, k_pim_win3 = 0, k_gpua_win3 = 0,
     k_ffn_win3 = 0, k_mb_total = 0, k_exposed = 0, k_exposure_us = dlit 0, k_tokens_total = 0,
     k_tokens_tbt_met = 0, k_tokens_slo_met = 0, k_reqs_total = 0, k_reqs_ttft_met = 0, k_sim_us = dlit 0\<rparr>"

definition mubatch_tbt :: "OpTimes \<Rightarrow> Deployment \<Rightarrow> double \<Rightarrow> double" where
  "mubatch_tbt t d beta = dmax (instance_a_latency t beta) (t_ffn t) * dbl (num_layers (d_model d))"

definition record_mubatch :: "int \<Rightarrow> int \<Rightarrow> int \<Rightarrow> Deployment \<Rightarrow> SLO \<Rightarrow> double \<Rightarrow> Kpi \<Rightarrow> Kpi" where
  "record_mubatch decode_count sum_decode_kv ttft_met_count d slo beta k =
     (let t = round_optimes decode_count sum_decode_kv d;
          bt = mubatch_tbt t d beta;
          k = k\<lparr>k_tbt := k_tbt k @ [bt], k_mb_total := k_mb_total k + 1\<rparr>;
          ex = t_pim t - t_gpu_a t;
          k = (if dlit 0 < ex
               then k\<lparr>k_exposed := k_exposed k + 1, k_exposure_us := k_exposure_us k + ex * dbl (num_layers (d_model d))\<rparr> else k);
          k = (if t_pim t \<le> t_gpu_a t then k\<lparr>k_pim_win2 := k_pim_win2 k + 1\<rparr> else k\<lparr>k_gpua_win2 := k_gpua_win2 k + 1\<rparr>);
          k = (if t_pim t \<le> t_gpu_a t \<and> t_pim t \<le> t_ffn t then k\<lparr>k_pim_win3 := k_pim_win3 k + 1\<rparr>
               else if t_gpu_a t \<le> t_pim t \<and> t_gpu_a t \<le> t_ffn t then k\<lparr>k_gpua_win3 := k_gpua_win3 k + 1\<rparr>
               else k\<lparr>k_ffn_win3 := k_ffn_win3 k + 1\<rparr>);
          k = k\<lparr>k_tokens_total := k_tokens_total k + decode_count\<rparr>
      in if bt \<le> t_tbt_us slo
         then k\<lparr>k_tokens_tbt_met := k_tokens_tbt_met k + decode_count,
                k_tokens_slo_met := k_tokens_slo_met k + ttft_met_count\<rparr>
         else k)"

definition record_ttft :: "double \<Rightarrow> SLO \<Rightarrow> Kpi \<Rightarrow> bool \<times> Kpi" where
  "record_ttft ttft_us slo k =
     (let met = (ttft_us \<le> t_ttft_us slo);
          k = k\<lparr>k_ttft := k_ttft k @ [ttft_us], k_reqs_total := k_reqs_total k + 1\<rparr>
      in (met, if met then k\<lparr>k_reqs_ttft_met := k_reqs_ttft_met k + 1\<rparr> else k))"

definition kpi_mean :: "double list \<Rightarrow> double" where
  "kpi_mean v = (if v = [] then dlit 0 else fold (\<lambda>x s. s + x) v (dlit 0) / dbl (int (length v)))"

text \<open>The rates that \<open>print\<close> prints.\<close>

record KpiSummary =
  ks_tbt_mean :: double
  ks_tbt_p99 :: double
  ks_ttft_mean :: double
  ks_ttft_p99 :: double
  ks_win2 :: double
  ks_win3 :: "double list"
  ks_exposed :: double
  ks_exposure :: double
  ks_goodput_tbt :: double
  ks_goodput_slo :: double
  ks_ttft_met :: double

definition goodput :: "int \<Rightarrow> double \<Rightarrow> double" where
  "goodput tokens us = (if dlit 0 < us then dbl tokens / (us / dlit 1000000) else dlit 0)"

definition kpi_print :: "Kpi \<Rightarrow> KpiSummary" where
  "kpi_print k =
     (let w2 = k_pim_win2 k + k_gpua_win2 k; w3 = k_pim_win3 k + k_gpua_win3 k + k_ffn_win3 k
      in \<lparr>ks_tbt_mean = kpi_mean (k_tbt k), ks_tbt_p99 = p99 (k_tbt k),
          ks_ttft_mean = kpi_mean (k_ttft k), ks_ttft_p99 = p99 (k_ttft k),
          ks_win2 = percent_of (dbl (k_pim_win2 k)) w2,
          ks_win3 = [percent_of (dbl (k_pim_win3 k)) w3, percent_of (dbl (k_gpua_win3 k)) w3, percent_of (dbl (k_ffn_win3 k)) w3],
          ks_exposed = percent_of (dbl (k_exposed k)) (k_mb_total k),
          ks_exposure = (if k_mb_total k \<noteq> 0 then k_exposure_us k / dbl (k_mb_total k) else dlit 0),
          ks_goodput_tbt = goodput (k_tokens_tbt_met k) (k_sim_us k),
          ks_goodput_slo = goodput (k_tokens_slo_met k) (k_sim_us k),
          ks_ttft_met = percent_of (dbl (k_reqs_ttft_met k)) (k_reqs_total k)\<rparr>)"

section \<open>Counters\<close>

definition metrics_inv :: "Metrics \<Rightarrow> bool" where
  "metrics_inv m \<longleftrightarrow> m_batches m = m_hits m + m_miss m \<and> m_miss m = m_b1_cm m + m_b1_dm m + m_b2_cm m + m_b2_dm m
     \<and> 0 \<le> m_hits m \<and> 0 \<le> m_b1_cm m \<and> 0 \<le> m_b1_dm m \<and> 0 \<le> m_b2_cm m \<and> 0 \<le> m_b2_dm m"

lemma record_batch_inv: "metrics_inv m \<Longrightarrow> metrics_inv (record_batch cnt sum_kv op b2 m)"
  by (simp add: metrics_inv_def record_batch_def Let_def)

lemma record_batch_counts:
  "m_batches (record_batch cnt s op b2 m) = m_batches m + 1"
  "m_hits (record_batch cnt s op b2 m) = m_hits m + (if batch_hit cnt s op then 1 else 0)"
  by (simp_all add: record_batch_def Let_def)

definition kpi_inv :: "Kpi \<Rightarrow> bool" where
  "kpi_inv k \<longleftrightarrow> k_mb_total k = k_pim_win2 k + k_gpua_win2 k
     \<and> k_mb_total k = k_pim_win3 k + k_gpua_win3 k + k_ffn_win3 k \<and> k_mb_total k = int (length (k_tbt k))
     \<and> 0 \<le> k_tokens_slo_met k \<and> k_tokens_slo_met k \<le> k_tokens_tbt_met k \<and> k_tokens_tbt_met k \<le> k_tokens_total k
     \<and> 0 \<le> k_reqs_ttft_met k \<and> k_reqs_ttft_met k \<le> k_reqs_total k \<and> k_reqs_total k = int (length (k_ttft k))"

lemma record_mubatch_fields:
  assumes "k' = record_mubatch dc s met d slo beta k" and "t = round_optimes dc s d"
  shows "k_mb_total k' = k_mb_total k + 1" "length (k_tbt k') = length (k_tbt k) + 1"
    and "k_pim_win2 k' = k_pim_win2 k + (if t_pim t \<le> t_gpu_a t then 1 else 0)"
    and "k_gpua_win2 k' = k_gpua_win2 k + (if t_pim t \<le> t_gpu_a t then 0 else 1)"
    and "k_pim_win3 k' + k_gpua_win3 k' + k_ffn_win3 k' = k_pim_win3 k + k_gpua_win3 k + k_ffn_win3 k + 1"
    and "k_exposed k' = k_exposed k + (if dlit 0 < t_pim t - t_gpu_a t then 1 else 0)"
    and "k_tokens_total k' = k_tokens_total k + dc"
    and "k_tokens_tbt_met k' = k_tokens_tbt_met k + (if mubatch_tbt t d beta \<le> t_tbt_us slo then dc else 0)"
    and "k_tokens_slo_met k' = k_tokens_slo_met k + (if mubatch_tbt t d beta \<le> t_tbt_us slo then met else 0)"
    and "k_reqs_total k' = k_reqs_total k" "k_reqs_ttft_met k' = k_reqs_ttft_met k" "k_ttft k' = k_ttft k"
  using assms by (simp_all add: record_mubatch_def Let_def)

lemma record_mubatch_inv: "kpi_inv k \<Longrightarrow> 0 \<le> met \<Longrightarrow> met \<le> dc \<Longrightarrow> kpi_inv (record_mubatch dc s met d slo beta k)"
  by (simp add: kpi_inv_def record_mubatch_fields [OF refl refl])

lemma record_ttft_inv: "kpi_inv k \<Longrightarrow> kpi_inv (snd (record_ttft x slo k))"
  by (simp add: kpi_inv_def record_ttft_def Let_def)

section \<open>The percentile\<close>

lemma mset_dinsert [simp]: "mset (dinsert x ys) = add_mset x (mset ys)"
  by (induction ys) auto

lemma mset_dsort [simp]: "mset (dsort xs) = mset xs"
  by (induction xs) (auto simp: dsort_def)

lemma length_dsort [simp]: "length (dsort xs) = length xs"
  by (metis mset_dsort size_mset)

lemma set_dsort [simp]: "set (dsort xs) = set xs"
  by (metis mset_dsort set_mset_mset)

lemma dinsert_sorted:
  "x \<noteq> NaN \<Longrightarrow> NaN \<notin> set ys \<Longrightarrow> sorted_wrt (\<le>) ys \<Longrightarrow> sorted_wrt (\<le>) (dinsert x ys)"
proof (induction ys)
  case (Cons y ys)
  have s: "set (dinsert x ys) = insert x (set ys)" by (metis mset_dinsert set_mset_add_mset_insert set_mset_mset)
  show ?case
  proof (cases "y < x")
    case True
    then have "y \<le> x" by (simp add: less_eq_double_def less_double_def)
    with True Cons s show ?thesis by auto
  next
    case False
    then have xy: "x \<le> y" using Cons.prems dless_linear [of y x] by auto
    with Cons.prems have "\<forall>z \<in> set ys. x \<le> z" by (auto intro: dle_trans)
    with False xy Cons.prems show ?thesis by simp
  qed
qed simp

lemma dsort_sorted: "NaN \<notin> set xs \<Longrightarrow> sorted_wrt (\<le>) (dsort xs)"
proof (induction xs)
  case (Cons x xs)
  then have "NaN \<notin> set (dsort xs)" by simp
  with Cons show ?case by (auto simp: dsort_def intro: dinsert_sorted)
qed (simp add: dsort_def)

lemma p99_index_less: "0 < n \<Longrightarrow> p99_index n < n"
  by (auto simp: p99_index_def)

text \<open>An element of a sorted list has as many elements up to it as its position says.\<close>

lemma sorted_rank:
  assumes "sorted_wrt (\<le>) (ys :: double list)" and "k < length ys" and "NaN \<notin> set ys"
  shows "k < length (filter (\<lambda>x. x \<le> ys ! k) ys)"
proof -
  have "\<forall>x \<in> set (take (Suc k) ys). x \<le> ys ! k"
  proof
    fix x assume "x \<in> set (take (Suc k) ys)"
    then obtain i where i: "i \<le> k" "i < length ys" "x = ys ! i"
      by (auto simp: in_set_conv_nth less_Suc_eq_le)
    have "ys ! k \<noteq> NaN" using assms(2,3) nth_mem by metis
    with i assms(1,2) show "x \<le> ys ! k" by (cases "i = k") (auto simp: sorted_wrt_iff_nth_less)
  qed
  then have "filter (\<lambda>x. x \<le> ys ! k) (take (Suc k) ys) = take (Suc k) ys" by (simp add: filter_id_conv)
  then have "length (filter (\<lambda>x. x \<le> ys ! k) ys) = Suc k + length (filter (\<lambda>x. x \<le> ys ! k) (drop (Suc k) ys))"
    using assms(2) by (metis append_take_drop_id filter_append length_append length_take min.absorb2 Suc_leI)
  then show ?thesis by simp
qed

section \<open>Exposure\<close>

text \<open>A difference of two distinct values never rounds to zero: underflow is gradual.\<close>

lemma held_grid: "held (Fin r) \<Longrightarrow> \<exists>n. r = of_int n * pow2 (- 1074)"
proof -
  assume "held (Fin r)"
  then have r: "rnd_rat r = r" by (auto simp: held_def rnd_def Let_def split: if_splits)
  show ?thesis
  proof (cases "r = 0")
    case False
    let ?m = "round_even (r / pow2 (dexp r))"
    have "r = of_int ?m * pow2 (dexp r)" using r False by (simp add: rnd_rat_def)
    moreover have "pow2 (dexp r) = of_int (2 ^ nat (dexp r + 1074)) * pow2 (- 1074)"
    proof -
      have "0 \<le> dexp r + 1074" by (simp add: dexp_def)
      then show ?thesis by (simp only: pow2_nat [symmetric] pow2_add [symmetric]) simp
    qed
    ultimately have "r = of_int (?m * 2 ^ nat (dexp r + 1074)) * pow2 (- 1074)" by simp
    then show ?thesis by blast
  qed (simp add: exI [of _ 0])
qed

lemma held_diff_pos:
  assumes "held (Fin a)" and "held (Fin b)" shows "Fin 0 < Fin a - Fin b \<longleftrightarrow> b < a"
proof
  assume "Fin 0 < Fin a - Fin b"
  then show "b < a" using rnd_less_imp [of 0 "a - b"] by (simp add: dbl_simps)
next
  assume "b < a"
  obtain m n where mn: "a = of_int m * pow2 (- 1074)" "b = of_int n * pow2 (- 1074)" using held_grid assms by meson
  with \<open>b < a\<close> have "n + 1 \<le> m" by simp
  then have "1 \<le> m - n" by simp
  then have "rat_of_int 1 \<le> of_int (m - n)" by (simp only: of_int_le_iff)
  then have "pow2 (- 1074) \<le> a - b"
    using mult_right_mono [of 1 "of_int (m - n)" "pow2 (- 1074)"] by (simp add: mn algebra_simps)
  then have "rnd (pow2 (- 1074)) \<le> rnd (a - b)" by (rule rnd_mono)
  moreover have "rnd (pow2 (- 1074)) = Fin (pow2 (- 1074))"
    using rnd_Fin [of "pow2 (- 1074)"] by simp
  ultimately have "Fin (pow2 (- 1074)) \<le> Fin a - Fin b" by (simp add: dbl_simps)
  moreover have "Fin 0 < Fin (pow2 (- 1074))" by (simp add: dbl_simps)
  ultimately show "Fin 0 < Fin a - Fin b"
    using pow2_pos [of "- 1074"] by (cases "Fin a - Fin b") (auto simp: dbl_defs simp del: pow2_pos dest: less_trans)
qed

lemma held_rnd_fin: "is_fin (rnd x) \<Longrightarrow> held (rnd x)"
  by (cases "rnd x") (auto dest: held_rnd)

lemma held_div: "is_fin (x / y) \<Longrightarrow> held (x / y)"
  by (cases x; cases y) (auto simp: dbl_defs dinf_def split: if_splits intro: held_rnd_fin, auto simp: held_def)

lemma held_mul: "is_fin (x * y) \<Longrightarrow> held (x * y)"
  by (cases x; cases y) (auto simp: dbl_defs dinf_def split: if_splits intro: held_rnd_fin)

lemma held_0: "held (dlit 0)"
  by (simp add: held_def dlit_vals)

lemma optimes_held:
  "is_fin (t_pim (round_optimes dc s d)) \<Longrightarrow> held (t_pim (round_optimes dc s d))"
  "is_fin (t_gpu_a (round_optimes dc s d)) \<Longrightarrow> held (t_gpu_a (round_optimes dc s d))"
  by (auto simp: round_optimes_def Let_def t_pim_us_def t_gpu_a_us_def intro: held_div held_mul held_0 split: if_splits)

section \<open>Properties\<close>

text \<open>The batch counters partition what was recorded: every batch is a hit or a miss, and every
  miss is one of the first or of the second micro-batch, of the count or of the deviation.\<close>
theorem metrics_partition:
  assumes "m = fold (\<lambda>(cnt, s, b2). record_batch cnt s op b2) bs make_metrics"
  shows "m_batches m = int (length bs) \<and> m_hits m = int (length (filter (\<lambda>(cnt, s, b2). batch_hit cnt s op) bs))
    \<and> m_batches m = m_hits m + m_miss m \<and> m_miss m = m_b1_cm m + m_b1_dm m + m_b2_cm m + m_b2_dm m"
proof -
  have "metrics_inv m0 \<Longrightarrow> metrics_inv (fold (\<lambda>(cnt, s, b2). record_batch cnt s op b2) bs m0)
    \<and> m_batches (fold (\<lambda>(cnt, s, b2). record_batch cnt s op b2) bs m0) = m_batches m0 + int (length bs)
    \<and> m_hits (fold (\<lambda>(cnt, s, b2). record_batch cnt s op b2) bs m0)
        = m_hits m0 + int (length (filter (\<lambda>(cnt, s, b2). batch_hit cnt s op) bs))" for m0
  proof (induction bs arbitrary: m0)
    case (Cons b bs)
    obtain cnt s b2 where b: "b = (cnt, s, b2)" by (cases b)
    from Cons.IH [OF record_batch_inv [OF Cons.prems, of cnt s op b2]] show ?case
      by (simp add: b record_batch_counts)
  qed simp
  from this [of make_metrics] show ?thesis
    by (simp add: assms metrics_inv_def) (simp add: make_metrics_def)
qed

theorem metrics_partition_witness:
  "m_hits (fold (\<lambda>(cnt, s, b2). record_batch cnt s small_op b2) [(2, 205, False), (1, 100, True)] make_metrics) = 1
   \<and> m_batches (fold (\<lambda>(cnt, s, b2). record_batch cnt s small_op b2) [(2, 205, False), (1, 100, True)] make_metrics) = 2"
proof -
  have "batch_hit 2 205 small_op" "\<not> batch_hit 1 100 small_op" by code_simp+
  then show ?thesis using metrics_partition [OF refl, of small_op "[(2, 205, False), (1, 100, True)]"] by simp
qed

text \<open>The reported 99th percentile of samples without a NaN is one of the samples, and as many
  samples as its index says, and one more, are at most as large; the index is in bounds.\<close>
theorem p99_rank:
  assumes "v \<noteq> []" and "NaN \<notin> set v"
  shows "p99 v \<in> set v \<and> p99_index (length v) < length v \<and> p99_index (length v) < length (filter (\<lambda>x. x \<le> p99 v) v)"
proof -
  have i: "p99_index (length v) < length (dsort v)" using assms(1) by (simp add: p99_index_less)
  have p: "p99 v = dsort v ! p99_index (length v)" using assms(1) by (simp add: p99_def)
  have "size (mset (filter (\<lambda>x. x \<le> p99 v) (dsort v))) = size (mset (filter (\<lambda>x. x \<le> p99 v) v))"
    by (simp only: mset_filter mset_dsort)
  then have "length (filter (\<lambda>x. x \<le> p99 v) (dsort v)) = length (filter (\<lambda>x. x \<le> p99 v) v)" by (simp only: size_mset)
  then show ?thesis
    using sorted_rank [OF dsort_sorted [OF assms(2)] i] nth_mem [OF i] assms i p by simp
qed

theorem p99_rank_witness:
  "p99 [dlit 30, dlit 10, dlit 20] = dlit 30 \<and> p99 [dlit 30, dlit 10, dlit 20] \<in> set [dlit 30, dlit 10, dlit 20]"
proof -
  have "NaN \<notin> set [dlit 30, dlit 10, dlit 20]" "p99 [dlit 30, dlit 10, dlit 20] = dlit 30" by code_simp+
  with p99_rank [OF _ this(1)] show ?thesis by simp
qed

text \<open>The indicators of any sequence of micro-batches fit together: each idle comparison has
  one winner per micro-batch, the tokens within the latency goals nest in those within the token goal
  and in all, and, where the operation times are finite, the PIM counts as exposed exactly
  when the GPU wins: the rounded difference of the times never loses a strict order.\<close>
theorem kpi_consistent:
  assumes "k = fold (\<lambda>(dc, s, met). record_mubatch dc s met d slo beta) bs make_kpi"
    and "\<forall>(dc, s, met) \<in> set bs. 0 \<le> met \<and> met \<le> dc
      \<and> is_fin (t_pim (round_optimes dc s d)) \<and> is_fin (t_gpu_a (round_optimes dc s d))"
  shows "k_mb_total k = int (length bs) \<and> k_pim_win2 k + k_gpua_win2 k = int (length bs)
    \<and> k_pim_win3 k + k_gpua_win3 k + k_ffn_win3 k = int (length bs) \<and> k_exposed k = k_gpua_win2 k
    \<and> 0 \<le> k_tokens_slo_met k \<and> k_tokens_slo_met k \<le> k_tokens_tbt_met k \<and> k_tokens_tbt_met k \<le> k_tokens_total k"
proof -
  let ?f = "\<lambda>(dc, s, met). record_mubatch dc s met d slo beta"
  have "kpi_inv k0 \<Longrightarrow> k_exposed k0 = k_gpua_win2 k0 \<Longrightarrow>
      (\<forall>(dc, s, met) \<in> set bs. 0 \<le> met \<and> met \<le> dc
        \<and> is_fin (t_pim (round_optimes dc s d)) \<and> is_fin (t_gpu_a (round_optimes dc s d))) \<Longrightarrow>
      kpi_inv (fold ?f bs k0) \<and> k_exposed (fold ?f bs k0) = k_gpua_win2 (fold ?f bs k0)
      \<and> k_mb_total (fold ?f bs k0) = k_mb_total k0 + int (length bs)" for k0
  proof (induction bs arbitrary: k0)
    case (Cons b bs)
    obtain dc s met where b: "b = (dc, s, met)" by (cases b)
    let ?t = "round_optimes dc s d" and ?k = "record_mubatch dc s met d slo beta k0"
    have ok: "0 \<le> met" "met \<le> dc" "is_fin (t_pim ?t)" "is_fin (t_gpu_a ?t)" using Cons.prems(3) by (auto simp: b)
    note h = optimes_held(1) [OF ok(3)] optimes_held(2) [OF ok(4)]
    then obtain x y where xy: "t_pim ?t = Fin x" "t_gpu_a ?t = Fin y" by (auto simp: held_def)
    have "dlit 0 < t_pim ?t - t_gpu_a ?t \<longleftrightarrow> \<not> t_pim ?t \<le> t_gpu_a ?t"
      using held_diff_pos [of x y] h by (simp add: xy dlit_vals) (simp add: dbl_simps not_le)
    then have "k_exposed ?k = k_gpua_win2 ?k" using Cons.prems(2) by (simp add: record_mubatch_fields [OF refl refl])
    from Cons.IH [OF record_mubatch_inv [OF Cons.prems(1) ok(1,2)] this] Cons.prems(3) show ?case
      by (simp add: b record_mubatch_fields(1) [OF refl refl])
  qed simp
  from this [of make_kpi] assms(2) have "kpi_inv k \<and> k_exposed k = k_gpua_win2 k \<and> k_mb_total k = int (length bs)"
    unfolding assms(1) by (simp add: kpi_inv_def make_kpi_def)
  then show ?thesis by (simp add: kpi_inv_def)
qed

definition small_deployment :: Deployment where
  "small_deployment = \<lparr>d_model = llama70b, d_hw = b200, d_op = small_op\<rparr>"

theorem kpi_consistent_witness:
  "k_exposed (fold (\<lambda>(dc, s, met). record_mubatch dc s met small_deployment \<lparr>t_ttft_us = dlit 5000000, t_tbt_us = dlit 2600\<rparr> (dlit (1 / 2)))
      [(2, 200, 1), (2, 9000000, 0)] make_kpi)
   = k_gpua_win2 (fold (\<lambda>(dc, s, met). record_mubatch dc s met small_deployment \<lparr>t_ttft_us = dlit 5000000, t_tbt_us = dlit 2600\<rparr> (dlit (1 / 2)))
      [(2, 200, 1), (2, 9000000, 0)] make_kpi)"
proof -
  let ?bs = "[(2, 200, 1), (2, 9000000, 0)] :: (int \<times> int \<times> int) list"
  have "\<forall>(dc, s, met) \<in> set ?bs. 0 \<le> met \<and> met \<le> dc
      \<and> is_fin (t_pim (round_optimes dc s small_deployment)) \<and> is_fin (t_gpu_a (round_optimes dc s small_deployment))"
    by code_simp
  from kpi_consistent [OF refl this] show ?thesis by blast
qed

end
