(* ===== verification/Cluster_Cache.thy ===== *)
theory Cluster_Cache
  imports Cxx_Double "HOL-Library.AList"
begin

text \<open>
  \<open>scheduler/cache.cpp\<close>: the cache of finished conversations, accounted per node in HBM bytes,
  with a cluster-wide index and three tiers. The index, an \<open>unordered_map\<close>, is an
  association list whose order stands for the order of its iteration; the operations rely on
  it only to break ties between entries of equal age. The lemmas: the accounts match the
  index and stay within the budgets, budgets are enforced from the oldest entry on, and a
  lookup reports what the last completion and the eviction left.
\<close>

section \<open>The model\<close>

datatype CacheResult = Hit | MissReload | MissRecompute

datatype Tier = HBM | SSD | Gone

record CacheConfig =
  eligibility_threshold :: int
  evict_age :: int
  gone_age :: int
  offload_bw :: double

record Entry =
  e_node :: nat
  e_len :: int
  e_last :: int
  e_tier :: Tier

record ClusterCache =
  cc_idx :: "(int \<times> Entry) list"
  node_used :: "int list"
  node_budget :: "int list"
  node_cap :: int
  kv_bpt :: int
  cc_cfg :: CacheConfig
  cc_hits :: int
  cc_reloads :: int
  cc_recomputes :: int

record Lookup =
  l_result :: CacheResult
  l_node :: int
  reload_cost :: double

definition make_cache :: "nat \<Rightarrow> int \<Rightarrow> int \<Rightarrow> CacheConfig \<Rightarrow> ClusterCache" where
  "make_cache num_nodes node_capacity_bytes kv_bytes cfg =
     \<lparr>cc_idx = [], node_used = replicate num_nodes 0, node_budget = replicate num_nodes node_capacity_bytes,
      node_cap = node_capacity_bytes, kv_bpt = kv_bytes, cc_cfg = cfg, cc_hits = 0, cc_reloads = 0, cc_recomputes = 0\<rparr>"

text \<open>The bytes of an entry that is in HBM are first taken back from its node.\<close>

definition reclaim :: "ClusterCache \<Rightarrow> int \<Rightarrow> int list" where
  "reclaim c i =
     (case map_of (cc_idx c) i of
        Some e \<Rightarrow> if e_tier e = HBM then (node_used c)[e_node e := node_used c ! e_node e - e_len e * kv_bpt c] else node_used c
      | None \<Rightarrow> node_used c)"

definition on_complete :: "nat \<Rightarrow> int \<Rightarrow> int \<Rightarrow> int \<Rightarrow> ClusterCache \<Rightarrow> ClusterCache" where
  "on_complete node i total_len now c =
     (let bytes = total_len * kv_bpt c;
          eligible = (eligibility_threshold (cc_cfg c) < total_len);
          used = reclaim c i
      in if eligible \<and> used ! node + bytes \<le> node_budget c ! node
         then c\<lparr>cc_idx := AList.update i \<lparr>e_node = node, e_len = total_len, e_last = now, e_tier = HBM\<rparr> (cc_idx c),
                node_used := used[node := used ! node + bytes]\<rparr>
         else c\<lparr>cc_idx := AList.update i \<lparr>e_node = node, e_len = total_len, e_last = now, e_tier = SSD\<rparr> (cc_idx c),
                node_used := used\<rparr>)"

definition reload_time :: "ClusterCache \<Rightarrow> Entry \<Rightarrow> double" where
  "reload_time c e = dbl (e_len e) * dbl (kv_bpt c) / offload_bw (cc_cfg c)"

definition cache_lookup :: "int \<Rightarrow> int \<Rightarrow> ClusterCache \<Rightarrow> Lookup \<times> ClusterCache" where
  "cache_lookup i now c =
     (case map_of (cc_idx c) i of
        None \<Rightarrow> (\<lparr>l_result = MissRecompute, l_node = - 1, reload_cost = dlit 0\<rparr>, c\<lparr>cc_recomputes := cc_recomputes c + 1\<rparr>)
      | Some e \<Rightarrow>
          (case e_tier e of
             HBM \<Rightarrow> (\<lparr>l_result = Hit, l_node = int (e_node e), reload_cost = dlit 0\<rparr>,
                c\<lparr>cc_hits := cc_hits c + 1, cc_idx := AList.update i (e\<lparr>e_last := now\<rparr>) (cc_idx c)\<rparr>)
           | SSD \<Rightarrow> (\<lparr>l_result = MissReload, l_node = int (e_node e), reload_cost = reload_time c e\<rparr>,
                c\<lparr>cc_reloads := cc_reloads c + 1, cc_idx := AList.update i (e\<lparr>e_last := now\<rparr>) (cc_idx c)\<rparr>)
           | Gone \<Rightarrow> (\<lparr>l_result = MissRecompute, l_node = - 1, reload_cost = dlit 0\<rparr>,
                c\<lparr>cc_recomputes := cc_recomputes c + 1\<rparr>)))"

definition cache_peek :: "int \<Rightarrow> ClusterCache \<Rightarrow> Lookup" where
  "cache_peek i c =
     (case map_of (cc_idx c) i of
        None \<Rightarrow> \<lparr>l_result = MissRecompute, l_node = - 1, reload_cost = dlit 0\<rparr>
      | Some e \<Rightarrow>
          (case e_tier e of
             HBM \<Rightarrow> \<lparr>l_result = Hit, l_node = int (e_node e), reload_cost = dlit 0\<rparr>
           | SSD \<Rightarrow> \<lparr>l_result = MissReload, l_node = int (e_node e), reload_cost = reload_time c e\<rparr>
           | Gone \<Rightarrow> \<lparr>l_result = MissRecompute, l_node = - 1, reload_cost = dlit 0\<rparr>))"

definition victim :: "(int \<times> Entry) list \<Rightarrow> nat \<Rightarrow> nat option" where
  "victim idx node =
     scan_first (\<lambda>k. e_tier (snd (idx ! k)) = HBM \<and> e_node (snd (idx ! k)) = node)
       (\<lambda>k. e_last (snd (idx ! k))) (<) (length idx)"

definition demote :: "nat \<Rightarrow> (int \<times> Entry) list \<Rightarrow> (int \<times> Entry) list" where
  "demote k idx = idx[k := (fst (idx ! k), (snd (idx ! k))\<lparr>e_tier := SSD\<rparr>)]"

definition hbm_count :: "(int \<times> Entry) list \<Rightarrow> nat" where
  "hbm_count idx = length (filter (\<lambda>x. e_tier (snd x) = HBM) idx)"

lemma victim_Some:
  assumes "victim idx node = Some k"
  shows "k < length idx" "e_tier (snd (idx ! k)) = HBM" "e_node (snd (idx ! k)) = node"
    and "\<forall>x \<in> set idx. e_tier (snd x) = HBM \<and> e_node (snd x) = node \<longrightarrow> e_last (snd (idx ! k)) \<le> e_last (snd x)"
  using int_lt.scan1_Some [OF assms [unfolded victim_def]] by (auto simp: all_set_conv_all_nth not_less)

lemma victim_None: "victim idx node = None \<longleftrightarrow> (\<forall>x \<in> set idx. \<not> (e_tier (snd x) = HBM \<and> e_node (snd x) = node))"
  unfolding victim_def int_lt.scan1_None by (simp add: all_set_conv_all_nth)

lemma demote_count: "k < length idx \<Longrightarrow> e_tier (snd (idx ! k)) = HBM \<Longrightarrow> hbm_count (demote k idx) < hbm_count idx"
proof (induction idx arbitrary: k)
  case (Cons x xs)
  then show ?case by (cases k) (auto simp: hbm_count_def demote_def)
qed simp

function enforce_loop :: "nat \<Rightarrow> int \<Rightarrow> int \<Rightarrow> (int \<times> Entry) list \<Rightarrow> int \<Rightarrow> (int \<times> Entry) list \<times> int" where
  "enforce_loop node budget bpt idx used =
     (if budget < used
      then (case victim idx node of
              None \<Rightarrow> (idx, used)
            | Some k \<Rightarrow> enforce_loop node budget bpt (demote k idx) (used - e_len (snd (idx ! k)) * bpt))
      else (idx, used))"
  by pat_completeness auto
termination
  by (relation "measure (\<lambda>(node, budget, bpt, idx, used). hbm_count idx)") (auto dest: victim_Some intro: demote_count)

declare enforce_loop.simps [simp del]

definition enforce_budget :: "nat \<Rightarrow> int \<Rightarrow> ClusterCache \<Rightarrow> ClusterCache" where
  "enforce_budget node budget c =
     (let budget = (if budget < 0 then 0 else budget)
      in case enforce_loop node budget (kv_bpt c) (cc_idx c) (node_used c ! node) of
           (idx, used) \<Rightarrow> c\<lparr>cc_idx := idx, node_used := (node_used c)[node := used],
                            node_budget := (node_budget c)[node := budget]\<rparr>)"

definition evict_entry :: "CacheConfig \<Rightarrow> int \<Rightarrow> Entry \<Rightarrow> Entry" where
  "evict_entry cfg now e =
     (if e_tier e = HBM \<and> evict_age cfg < now - e_last e then e\<lparr>e_tier := SSD\<rparr>
      else if e_tier e = SSD \<and> gone_age cfg < now - e_last e then e\<lparr>e_tier := Gone\<rparr>
      else e)"

definition evict_used :: "CacheConfig \<Rightarrow> int \<Rightarrow> int \<Rightarrow> int \<times> Entry \<Rightarrow> int list \<Rightarrow> int list" where
  "evict_used cfg bpt now x used =
     (let e = snd x
      in if e_tier e = HBM \<and> evict_age cfg < now - e_last e
         then used[e_node e := used ! e_node e - e_len e * bpt] else used)"

definition evict_tick :: "int \<Rightarrow> ClusterCache \<Rightarrow> ClusterCache" where
  "evict_tick now c =
     c\<lparr>cc_idx := map (\<lambda>(i, e). (i, evict_entry (cc_cfg c) now e)) (cc_idx c),
       node_used := fold (evict_used (cc_cfg c) (kv_bpt c) now) (cc_idx c) (node_used c)\<rparr>"

section \<open>The accounts\<close>

definition entry_bytes :: "int \<Rightarrow> nat \<Rightarrow> Entry \<Rightarrow> int" where
  "entry_bytes bpt n e = (if e_tier e = HBM \<and> e_node e = n then e_len e * bpt else 0)"

definition hbm_bytes :: "int \<Rightarrow> nat \<Rightarrow> (int \<times> Entry) list \<Rightarrow> int" where
  "hbm_bytes bpt n idx = (\<Sum>x \<leftarrow> idx. entry_bytes bpt n (snd x))"

definition opt_bytes :: "int \<Rightarrow> nat \<Rightarrow> Entry option \<Rightarrow> int" where
  "opt_bytes bpt n x = (case x of None \<Rightarrow> 0 | Some e \<Rightarrow> entry_bytes bpt n e)"

lemma hbm_bytes_update:
  "hbm_bytes bpt n (AList.update i e idx) = hbm_bytes bpt n idx - opt_bytes bpt n (map_of idx i) + entry_bytes bpt n e"
  by (induction idx) (auto simp: hbm_bytes_def opt_bytes_def)

lemma hbm_bytes_demote:
  "k < length idx \<Longrightarrow> hbm_bytes bpt n (demote k idx) = hbm_bytes bpt n idx - entry_bytes bpt n (snd (idx ! k))"
proof (induction idx arbitrary: k)
  case (Cons x xs)
  then show ?case by (cases k) (auto simp: hbm_bytes_def demote_def entry_bytes_def)
qed simp

text \<open>
  The invariant: keys are distinct, HBM entries name existing nodes, lengths and the bytes per
  token are not negative, the accounts are the sums over the index and within the budgets.
\<close>

definition cache_inv :: "ClusterCache \<Rightarrow> bool" where
  "cache_inv c \<longleftrightarrow> distinct (map fst (cc_idx c)) \<and> length (node_used c) = length (node_budget c) \<and> 0 \<le> kv_bpt c
     \<and> (\<forall>x \<in> set (cc_idx c). e_node (snd x) < length (node_budget c) \<and> 0 \<le> e_len (snd x))
     \<and> (\<forall>n < length (node_budget c). node_used c ! n = hbm_bytes (kv_bpt c) n (cc_idx c)
          \<and> node_used c ! n \<le> node_budget c ! n)"

lemma hbm_bytes_nonneg: "0 \<le> bpt \<Longrightarrow> \<forall>x \<in> set idx. 0 \<le> e_len (snd x) \<Longrightarrow> 0 \<le> hbm_bytes bpt n idx"
  by (induction idx) (auto simp: hbm_bytes_def entry_bytes_def)

lemma hbm_bytes_none: "\<forall>x \<in> set idx. \<not> (e_tier (snd x) = HBM \<and> e_node (snd x) = n) \<Longrightarrow> hbm_bytes bpt n idx = 0"
  by (induction idx) (auto simp: hbm_bytes_def entry_bytes_def)

lemma cache_inv_make: "0 \<le> cap \<Longrightarrow> 0 \<le> bpt \<Longrightarrow> cache_inv (make_cache n cap bpt cfg)"
  by (simp add: cache_inv_def make_cache_def hbm_bytes_def)

lemma reclaim_nth:
  assumes "cache_inv c" and "n < length (node_used c)"
  shows "reclaim c i ! n = node_used c ! n - opt_bytes (kv_bpt c) n (map_of (cc_idx c) i)"
proof (cases "map_of (cc_idx c) i")
  case (Some e)
  then have "(i, e) \<in> set (cc_idx c)" by (rule map_of_SomeD)
  then have "e_node e < length (node_used c)" using assms(1) by (auto simp: cache_inv_def)
  with Some assms(2) show ?thesis by (auto simp: reclaim_def opt_bytes_def entry_bytes_def nth_list_update)
qed (simp add: reclaim_def opt_bytes_def)

lemma length_reclaim [simp]: "length (reclaim c i) = length (node_used c)"
  by (simp add: reclaim_def split: option.splits)

lemma opt_bytes_nonneg: "cache_inv c \<Longrightarrow> 0 \<le> opt_bytes (kv_bpt c) n (map_of (cc_idx c) i)"
  by (auto simp: opt_bytes_def entry_bytes_def cache_inv_def split: option.splits dest!: map_of_SomeD)

lemma set_update_alist: "x \<in> set (AList.update i e idx) \<Longrightarrow> x = (i, e) \<or> x \<in> set idx"
  by (induction idx) (auto split: if_splits)

lemma on_complete_inv:
  assumes "cache_inv c" and "node < length (node_budget c)" and "0 \<le> total_len"
  shows "cache_inv (on_complete node i total_len now c)"
proof -
  let ?e = "\<lambda>t. \<lparr>e_node = node, e_len = total_len, e_last = now, e_tier = t\<rparr>"
  let ?hbm = "eligibility_threshold (cc_cfg c) < total_len \<and> reclaim c i ! node + total_len * kv_bpt c \<le> node_budget c ! node"
  have len: "length (node_used c) = length (node_budget c)" using assms(1) by (simp add: cache_inv_def)
  have idx: "distinct (map fst (AList.update i (?e t) (cc_idx c)))"
    "\<forall>x \<in> set (AList.update i (?e t) (cc_idx c)). e_node (snd x) < length (node_budget c) \<and> 0 \<le> e_len (snd x)" for t
    using assms by (auto simp: cache_inv_def intro: distinct_update dest!: set_update_alist)
  have rec: "reclaim c i ! n = hbm_bytes (kv_bpt c) n (cc_idx c) - opt_bytes (kv_bpt c) n (map_of (cc_idx c) i)"
    "reclaim c i ! n \<le> node_budget c ! n" if "n < length (node_budget c)" for n
    using reclaim_nth [OF assms(1), of n i] opt_bytes_nonneg [OF assms(1), of n i] assms(1) that len
    by (fastforce simp: cache_inv_def)+
  show ?thesis
  proof (cases ?hbm)
    case True
    then show ?thesis using idx [of HBM] rec assms(1,2) len
      by (auto simp: on_complete_def Let_def cache_inv_def hbm_bytes_update entry_bytes_def nth_list_update)
  next
    case False
    then show ?thesis using idx [of SSD] rec assms(1,2) len
      by (auto simp: on_complete_def Let_def cache_inv_def hbm_bytes_update entry_bytes_def)
  qed
qed

lemma refresh_inv:
  assumes "cache_inv c" and "map_of (cc_idx c) i = Some e"
  shows "cache_inv (c\<lparr>cc_idx := AList.update i (e\<lparr>e_last := now\<rparr>) (cc_idx c)\<rparr>)"
proof -
  have e: "(i, e) \<in> set (cc_idx c)" using assms(2) by (rule map_of_SomeD)
  have b: "hbm_bytes (kv_bpt c) n (AList.update i (e\<lparr>e_last := now\<rparr>) (cc_idx c)) = hbm_bytes (kv_bpt c) n (cc_idx c)" for n
    by (simp add: hbm_bytes_update assms(2) opt_bytes_def entry_bytes_def)
  have "\<forall>x \<in> set (AList.update i (e\<lparr>e_last := now\<rparr>) (cc_idx c)). e_node (snd x) < length (node_budget c) \<and> 0 \<le> e_len (snd x)"
    using e assms(1) by (auto simp: cache_inv_def dest!: set_update_alist)
  with assms(1) b show ?thesis by (auto simp: cache_inv_def intro: distinct_update)
qed

lemma cache_inv_counters:
  "cache_inv (c\<lparr>cc_hits := n, cc_idx := idx\<rparr>) \<longleftrightarrow> cache_inv (c\<lparr>cc_idx := idx\<rparr>)"
  "cache_inv (c\<lparr>cc_reloads := n, cc_idx := idx\<rparr>) \<longleftrightarrow> cache_inv (c\<lparr>cc_idx := idx\<rparr>)"
  "cache_inv (c\<lparr>cc_recomputes := n\<rparr>) \<longleftrightarrow> cache_inv c"
  by (simp_all add: cache_inv_def)

lemma lookup_inv: "cache_inv c \<Longrightarrow> cache_inv (snd (cache_lookup i now c))"
proof (cases "map_of (cc_idx c) i")
  case (Some e)
  assume "cache_inv c"
  with Some refresh_inv [OF this Some, of now] show ?thesis
    by (cases "e_tier e") (simp_all add: cache_lookup_def cache_inv_counters)
qed (simp add: cache_lookup_def cache_inv_counters)

lemma evict_entry_bytes:
  "entry_bytes bpt n (evict_entry cfg now e) =
     entry_bytes bpt n e - (if e_tier e = HBM \<and> evict_age cfg < now - e_last e \<and> e_node e = n then e_len e * bpt else 0)"
  by (auto simp: evict_entry_def entry_bytes_def)

lemma length_evict_fold [simp]: "length (fold (evict_used cfg bpt now) idx used) = length used"
  by (induction idx arbitrary: used) (simp_all add: evict_used_def Let_def)

lemma evict_fold:
  "\<forall>x \<in> set idx. e_node (snd x) < length used \<Longrightarrow> n < length used \<Longrightarrow>
     fold (evict_used cfg bpt now) idx used ! n
       = used ! n - hbm_bytes bpt n idx + hbm_bytes bpt n (map (\<lambda>(i, e). (i, evict_entry cfg now e)) idx)"
proof (induction idx arbitrary: used)
  case (Cons x idx)
  have len: "length (evict_used cfg bpt now x used) = length used" by (simp add: evict_used_def Let_def)
  have "evict_used cfg bpt now x used ! n
      = used ! n - entry_bytes bpt n (snd x) + entry_bytes bpt n (evict_entry cfg now (snd x))"
    using Cons.prems by (auto simp: evict_used_def Let_def evict_entry_bytes nth_list_update)
  with Cons.IH [of "evict_used cfg bpt now x used"] Cons.prems len show ?case
    by (simp add: hbm_bytes_def case_prod_beta)
qed (simp add: hbm_bytes_def)

lemma hbm_bytes_evict:
  "0 \<le> bpt \<Longrightarrow> \<forall>x \<in> set idx. 0 \<le> e_len (snd x) \<Longrightarrow>
     hbm_bytes bpt n (map (\<lambda>(i, e). (i, evict_entry cfg now e)) idx) \<le> hbm_bytes bpt n idx"
  by (induction idx) (auto simp: hbm_bytes_def evict_entry_bytes add_mono)

lemma evict_inv:
  assumes "cache_inv c" shows "cache_inv (evict_tick now c)"
proof -
  let ?idx = "map (\<lambda>(i, e). (i, evict_entry (cc_cfg c) now e)) (cc_idx c)"
  have len: "length (node_used c) = length (node_budget c)" using assms by (simp add: cache_inv_def)
  have used: "fold (evict_used (cc_cfg c) (kv_bpt c) now) (cc_idx c) (node_used c) ! n = hbm_bytes (kv_bpt c) n ?idx"
    if "n < length (node_budget c)" for n
    using evict_fold [of "cc_idx c" "node_used c" n] assms that by (auto simp: cache_inv_def)
  have "hbm_bytes (kv_bpt c) n ?idx \<le> node_budget c ! n" if "n < length (node_budget c)" for n
  proof -
    have "hbm_bytes (kv_bpt c) n ?idx \<le> hbm_bytes (kv_bpt c) n (cc_idx c)"
      using assms by (intro hbm_bytes_evict) (simp_all add: cache_inv_def)
    also have "\<dots> \<le> node_budget c ! n" using assms that by (auto simp: cache_inv_def)
    finally show ?thesis .
  qed
  moreover have "distinct (map fst ?idx)"
  proof -
    have "map fst ?idx = map fst (cc_idx c)" by auto
    then show ?thesis using assms by (simp only: cache_inv_def)
  qed
  moreover have "\<forall>x \<in> set ?idx. e_node (snd x) < length (node_budget c) \<and> 0 \<le> e_len (snd x)"
    using assms by (auto simp: cache_inv_def evict_entry_def)
  ultimately show ?thesis using assms used len by (simp add: cache_inv_def evict_tick_def)
qed

text \<open>Enforcement: one demotion after another, the oldest entry of the node first.\<close>

lemma demote_fst [simp]: "k < length idx \<Longrightarrow> map fst (demote k idx) = map fst idx"
  by (simp add: demote_def map_update) (metis list_update_id nth_map)

lemma demote_set: "k < length idx \<Longrightarrow> x \<in> set (demote k idx) \<Longrightarrow>
    x \<in> set idx \<or> x = (fst (idx ! k), (snd (idx ! k))\<lparr>e_tier := SSD\<rparr>)"
  unfolding demote_def using set_update_subset_insert by fastforce

lemma enforce_loop_inv:
  assumes "enforce_loop node budget bpt idx used = (idx', used')"
    and "used = hbm_bytes bpt node idx" and "0 \<le> bpt" and "\<forall>x \<in> set idx. e_node (snd x) < N \<and> 0 \<le> e_len (snd x)"
    and "0 \<le> budget"
  shows "used' = hbm_bytes bpt node idx' \<and> used' \<le> budget \<and> map fst idx' = map fst idx
    \<and> (\<forall>n. n \<noteq> node \<longrightarrow> hbm_bytes bpt n idx' = hbm_bytes bpt n idx)
    \<and> (\<forall>x \<in> set idx'. e_node (snd x) < N \<and> 0 \<le> e_len (snd x))"
  using assms
proof (induction node budget bpt idx used rule: enforce_loop.induct)
  case (1 node budget bpt idx used)
  show ?case
  proof (cases "budget < used")
    case False
    with 1(2) have "idx' = idx" "used' = used" by (simp_all add: enforce_loop.simps [of node budget bpt idx used])
    with False 1(3-) show ?thesis by auto
  next
    case over: True
    show ?thesis
    proof (cases "victim idx node")
      case None
      then have "hbm_bytes bpt node idx = 0"
        unfolding victim_None by (rule hbm_bytes_none)
      with over 1(3,6) show ?thesis by simp
    next
      case (Some k)
      note v = victim_Some [OF Some]
      let ?idx = "demote k idx" and ?used = "used - e_len (snd (idx ! k)) * bpt"
      have run: "enforce_loop node budget bpt ?idx ?used = (idx', used')"
        using 1(2) over Some by (simp add: enforce_loop.simps [of node budget bpt idx used])
      have b: "hbm_bytes bpt n ?idx = hbm_bytes bpt n idx - (if n = node then e_len (snd (idx ! k)) * bpt else 0)" for n
        using hbm_bytes_demote [OF v(1)] v(2,3) by (auto simp: entry_bytes_def)
      have ok: "\<forall>x \<in> set ?idx. e_node (snd x) < N \<and> 0 \<le> e_len (snd x)"
        using 1(5) demote_set [OF v(1)] nth_mem [OF v(1)] by fastforce
      show ?thesis using 1(1) [OF over Some run _ 1(4) ok 1(6)] b 1(3) v(1) by simp
    qed
  qed
qed

lemma enforce_inv:
  assumes "cache_inv c" and "node < length (node_budget c)"
  shows "cache_inv (enforce_budget node budget c)"
proof -
  let ?b = "if budget < 0 then 0 else budget"
  obtain idx used where run: "enforce_loop node ?b (kv_bpt c) (cc_idx c) (node_used c ! node) = (idx, used)" by fastforce
  have len: "length (node_used c) = length (node_budget c)" using assms(1) by (simp add: cache_inv_def)
  have "used = hbm_bytes (kv_bpt c) node idx \<and> used \<le> ?b \<and> map fst idx = map fst (cc_idx c)
    \<and> (\<forall>n. n \<noteq> node \<longrightarrow> hbm_bytes (kv_bpt c) n idx = hbm_bytes (kv_bpt c) n (cc_idx c))
    \<and> (\<forall>x \<in> set idx. e_node (snd x) < length (node_budget c) \<and> 0 \<le> e_len (snd x))"
    using assms by (intro enforce_loop_inv [OF run]) (auto simp: cache_inv_def)
  then show ?thesis using assms len run
    by (auto simp: cache_inv_def enforce_budget_def Let_def nth_list_update)
qed

text \<open>The runs of a cache: every operation of the class, with the arguments the drivers give.\<close>

inductive cache_run :: "nat \<Rightarrow> ClusterCache \<Rightarrow> ClusterCache \<Rightarrow> bool" for N c0 where
  start: "cache_run N c0 c0"
| completed: "cache_run N c0 c \<Longrightarrow> node < N \<Longrightarrow> 0 \<le> total_len \<Longrightarrow> cache_run N c0 (on_complete node i total_len now c)"
| looked_up: "cache_run N c0 c \<Longrightarrow> cache_run N c0 (snd (cache_lookup i now c))"
| evicted: "cache_run N c0 c \<Longrightarrow> cache_run N c0 (evict_tick now c)"
| enforced: "cache_run N c0 c \<Longrightarrow> node < N \<Longrightarrow> cache_run N c0 (enforce_budget node budget c)"

lemma budget_length:
  "length (node_budget (on_complete node i len now c)) = length (node_budget c)"
  "length (node_budget (snd (cache_lookup i now c))) = length (node_budget c)"
  "length (node_budget (evict_tick now c)) = length (node_budget c)"
  "length (node_budget (enforce_budget node budget c)) = length (node_budget c)"
  by (auto simp: on_complete_def Let_def cache_lookup_def evict_tick_def enforce_budget_def
      split: option.splits Tier.splits prod.splits)

lemma cache_run_inv:
  assumes "cache_run N c0 c" and "cache_inv c0" and "length (node_budget c0) = N"
  shows "cache_inv c \<and> length (node_budget c) = N"
  using assms
proof induction
  case (completed c node total_len i now)
  then show ?case using on_complete_inv by (simp add: budget_length)
next
  case (enforced c node budget)
  then show ?case using enforce_inv by (simp add: budget_length)
qed (simp_all add: budget_length lookup_inv evict_inv)

section \<open>Enforcement picks the oldest\<close>

text \<open>Enforcement keeps the order and keys of the index and changes entries only from HBM to SSD.\<close>

definition demoted :: "Entry \<Rightarrow> Entry \<Rightarrow> bool" where
  "demoted e e' \<longleftrightarrow> e_tier e = HBM \<and> e' = e\<lparr>e_tier := SSD\<rparr>"

lemma enforce_loop_oldest:
  assumes "enforce_loop node budget bpt idx used = (idx', used')"
  shows "length idx' = length idx \<and> (\<forall>k < length idx. fst (idx' ! k) = fst (idx ! k)
    \<and> (snd (idx' ! k) = snd (idx ! k) \<or> demoted (snd (idx ! k)) (snd (idx' ! k)) \<and> e_node (snd (idx ! k)) = node
         \<and> (\<forall>j < length idx. e_tier (snd (idx' ! j)) = HBM \<and> e_node (snd (idx' ! j)) = node \<longrightarrow>
              e_last (snd (idx ! k)) \<le> e_last (snd (idx' ! j)))))"
  using assms
proof (induction node budget bpt idx used rule: enforce_loop.induct)
  case (1 node budget bpt idx used)
  show ?case
  proof (cases "budget < used \<and> victim idx node \<noteq> None")
    case False
    with 1(2) have "idx' = idx" by (auto simp: enforce_loop.simps [of node budget bpt idx used] split: if_splits)
    then show ?thesis by simp
  next
    case True
    then obtain v where v: "budget < used" "victim idx node = Some v" by auto
    note vs = victim_Some [OF v(2)]
    have run: "enforce_loop node budget bpt (demote v idx) (used - e_len (snd (idx ! v)) * bpt) = (idx', used')"
      using 1(2) v by (simp add: enforce_loop.simps [of node budget bpt idx used])
    have len: "length (demote v idx) = length idx" by (simp add: demote_def)
    note IH = 1(1) [OF v run, unfolded len]
    have d: "demote v idx ! j = (if j = v then (fst (idx ! v), (snd (idx ! v))\<lparr>e_tier := SSD\<rparr>) else idx ! j)"
      if "j < length idx" for j using that by (simp add: demote_def)
    have hbm: "idx' ! j = idx ! j \<or> e_tier (snd (idx' ! j)) \<noteq> HBM" if "j < length idx" for j
      using IH that d [OF that] by (cases "j = v") (auto simp: demoted_def prod_eq_iff)
    have old: "e_last (snd (idx ! v)) \<le> e_last (snd (idx' ! j))"
      if "j < length idx" "e_tier (snd (idx' ! j)) = HBM" "e_node (snd (idx' ! j)) = node" for j
      using hbm [OF that(1)] that vs(4) nth_mem [OF that(1)] by auto
    have "fst (idx' ! k) = fst (idx ! k)
      \<and> (snd (idx' ! k) = snd (idx ! k) \<or> demoted (snd (idx ! k)) (snd (idx' ! k)) \<and> e_node (snd (idx ! k)) = node
         \<and> (\<forall>j < length idx. e_tier (snd (idx' ! j)) = HBM \<and> e_node (snd (idx' ! j)) = node \<longrightarrow>
              e_last (snd (idx ! k)) \<le> e_last (snd (idx' ! j))))" if k: "k < length idx" for k
    proof (cases "k = v")
      case True
      then have "snd (idx' ! v) = (snd (idx ! v))\<lparr>e_tier := SSD\<rparr>" "fst (idx' ! v) = fst (idx ! v)"
        using IH k d [OF k] by (auto simp: demoted_def)
      with True vs old show ?thesis by (auto simp: demoted_def)
    next
      case False
      then show ?thesis using IH k d [OF k] by auto
    qed
    with IH show ?thesis by blast
  qed
qed

section \<open>Properties\<close>

definition small_config :: CacheConfig where
  "small_config = \<lparr>eligibility_threshold = 50, evict_age = 10, gone_age = 30, offload_bw = dlit 400\<rparr>"

definition small_cache :: ClusterCache where
  "small_cache = on_complete 1 8 90 3 (on_complete 0 7 60 2 (on_complete 0 9 70 1 (make_cache 2 300 2 small_config)))"

lemma small_cache_run: "cache_run 2 (make_cache 2 300 2 small_config) small_cache"
  unfolding small_cache_def by (intro cache_run.intros) simp_all

lemma small_cache_ok: "cache_inv small_cache" "length (node_budget small_cache) = 2"
  using cache_run_inv [OF small_cache_run cache_inv_make] by (simp_all add: make_cache_def)

text \<open>C29: In every state that the operations of the cache reach from an empty one, the HBM bytes
  recorded for each node are the sum over the entries that the index holds there, and within
  the node's budget.\<close>
theorem cache_accounts:
  assumes "cache_run N (make_cache N cap bpt cfg) c" and "0 \<le> cap" and "0 \<le> bpt" and "n < N"
  shows "node_used c ! n = hbm_bytes (kv_bpt c) n (cc_idx c) \<and> 0 \<le> node_used c ! n \<and> node_used c ! n \<le> node_budget c ! n"
proof -
  have "cache_inv c \<and> length (node_budget c) = N"
    using cache_run_inv [OF assms(1) cache_inv_make [OF assms(2,3)]] by (simp add: make_cache_def)
  then have n: "node_used c ! n = hbm_bytes (kv_bpt c) n (cc_idx c)" "node_used c ! n \<le> node_budget c ! n"
    and "0 \<le> kv_bpt c" "\<forall>x \<in> set (cc_idx c). 0 \<le> e_len (snd x)"
    using assms(4) by (auto simp: cache_inv_def)
  with hbm_bytes_nonneg [of "kv_bpt c" "cc_idx c" n] show ?thesis by simp
qed

theorem cache_accounts_witness:
  "node_used small_cache ! 0 = 260 \<and> hbm_bytes 2 0 (cc_idx small_cache) = 260 \<and> (260 :: int) \<le> node_budget small_cache ! 0"
proof -
  from cache_accounts [OF small_cache_run, of 0] have
    "node_used small_cache ! 0 = hbm_bytes (kv_bpt small_cache) 0 (cc_idx small_cache) \<and> node_used small_cache ! 0 \<le> node_budget small_cache ! 0"
    by simp
  moreover have "node_used small_cache ! 0 = 260" "kv_bpt small_cache = 2" by code_simp+
  ultimately show ?thesis by simp
qed

text \<open>C30: Enforcing a budget ends with the node within it, leaves the accounts of other nodes as they are, and
  demotes entries of this node only, from HBM to SSD, in the order of their age: no entry
  that stays in the node's HBM is older than a demoted one.\<close>
theorem enforce_budget_oldest_first:
  assumes "cache_inv c" and "node < length (node_budget c)" and "c' = enforce_budget node budget c"
  shows "node_used c' ! node \<le> max 0 budget
    \<and> (\<forall>n. n \<noteq> node \<longrightarrow> node_used c' ! n = node_used c ! n)
    \<and> length (cc_idx c') = length (cc_idx c)
    \<and> (\<forall>k < length (cc_idx c). fst (cc_idx c' ! k) = fst (cc_idx c ! k)
       \<and> (snd (cc_idx c' ! k) = snd (cc_idx c ! k)
          \<or> demoted (snd (cc_idx c ! k)) (snd (cc_idx c' ! k)) \<and> e_node (snd (cc_idx c ! k)) = node
            \<and> (\<forall>j < length (cc_idx c). e_tier (snd (cc_idx c' ! j)) = HBM \<and> e_node (snd (cc_idx c' ! j)) = node \<longrightarrow>
                 e_last (snd (cc_idx c ! k)) \<le> e_last (snd (cc_idx c' ! j)))))"
proof -
  let ?b = "if budget < 0 then 0 else budget"
  obtain idx used where run: "enforce_loop node ?b (kv_bpt c) (cc_idx c) (node_used c ! node) = (idx, used)" by fastforce
  then have c': "cc_idx c' = idx" "node_used c' = (node_used c)[node := used]" "node_budget c' = (node_budget c)[node := ?b]"
    by (simp_all add: assms(3) enforce_budget_def Let_def)
  have len: "length (node_used c) = length (node_budget c)" using assms(1) by (simp add: cache_inv_def)
  have "cache_inv c'" using enforce_inv [OF assms(1,2)] by (simp add: assms(3))
  then have "node_used c' ! node \<le> node_budget c' ! node"
    using assms(2) c' len by (auto simp: cache_inv_def)
  then have "node_used c' ! node \<le> max 0 budget" using c' assms(2) len by (simp add: max_def split: if_splits)
  then show ?thesis using enforce_loop_oldest [OF run] c' by simp
qed

theorem enforce_budget_oldest_first_witness:
  "node_used (enforce_budget 0 150 small_cache) ! 0 = 120 \<and> (120 :: int) \<le> max 0 150
   \<and> map (\<lambda>(i, e). (i, e_tier e)) (cc_idx (enforce_budget 0 150 small_cache)) = [(9, SSD), (7, HBM), (8, HBM)]"
proof -
  have "node_used (enforce_budget 0 150 small_cache) ! 0 = 120"
    "map (\<lambda>(i, e). (i, e_tier e)) (cc_idx (enforce_budget 0 150 small_cache)) = [(9, SSD), (7, HBM), (8, HBM)]"
    by code_simp+
  then show ?thesis
    using enforce_budget_oldest_first [OF small_cache_ok(1) _ refl, of 0 150] small_cache_ok(2) by simp
qed

lemma reload_time_same: "kv_bpt c' = kv_bpt c \<Longrightarrow> cc_cfg c' = cc_cfg c \<Longrightarrow> reload_time c' = reload_time c"
  by (rule ext) (simp add: reload_time_def)

lemma peek_tier:
  "map_of (cc_idx c) i = Some e \<Longrightarrow> cache_peek i c =
     (case e_tier e of
        HBM \<Rightarrow> \<lparr>l_result = Hit, l_node = int (e_node e), reload_cost = dlit 0\<rparr>
      | SSD \<Rightarrow> \<lparr>l_result = MissReload, l_node = int (e_node e), reload_cost = reload_time c e\<rparr>
      | Gone \<Rightarrow> \<lparr>l_result = MissRecompute, l_node = - 1, reload_cost = dlit 0\<rparr>)"
  by (simp add: cache_peek_def)

lemma peek_same: "cc_idx c' = cc_idx c \<Longrightarrow> kv_bpt c' = kv_bpt c \<Longrightarrow> cc_cfg c' = cc_cfg c \<Longrightarrow> cache_peek j c' = cache_peek j c"
proof -
  assume idx: "cc_idx c' = cc_idx c" and same: "kv_bpt c' = kv_bpt c" "cc_cfg c' = cc_cfg c"
  have "reload_time c' = reload_time c" using same by (rule reload_time_same)
  with idx show ?thesis by (simp add: cache_peek_def split: option.split Tier.split)
qed

lemma peek_refresh:
  assumes "map_of (cc_idx c) i = Some e" and "cc_idx c' = AList.update i (e\<lparr>e_last := now\<rparr>) (cc_idx c)"
    and "kv_bpt c' = kv_bpt c" and "cc_cfg c' = cc_cfg c"
  shows "cache_peek j c' = cache_peek j c"
proof (cases "j = i")
  case True
  have "reload_time c' = reload_time c" using assms(3,4) by (rule reload_time_same)
  moreover have "reload_time c (e\<lparr>e_last := now\<rparr>) = reload_time c e" by (simp add: reload_time_def)
  ultimately show ?thesis using True assms(1,2) by (simp add: cache_peek_def update_conv' split: Tier.split)
next
  case False
  have "reload_time c' = reload_time c" using assms(3,4) by (rule reload_time_same)
  with False assms(1,2) show ?thesis by (simp add: cache_peek_def update_conv' split: option.split Tier.split)
qed

text \<open>A lookup answers exactly what the side-effect-free peek answers, counts one more hit, reload or recomputation
  according to it, and moves no entry between nodes or tiers: the accounts stay.\<close>
theorem lookup_is_peek:
  assumes "cache_lookup i now c = (l, c')"
  shows "l = cache_peek i c
    \<and> cc_hits c' = cc_hits c + (if l_result l = Hit then 1 else 0)
    \<and> cc_reloads c' = cc_reloads c + (if l_result l = MissReload then 1 else 0)
    \<and> cc_recomputes c' = cc_recomputes c + (if l_result l = MissRecompute then 1 else 0)
    \<and> node_used c' = node_used c \<and> (\<forall>j. cache_peek j c' = cache_peek j c)"
proof (cases "map_of (cc_idx c) i")
  case None
  with assms show ?thesis by (auto simp: cache_lookup_def cache_peek_def [of i c] intro: peek_same)
next
  case (Some e)
  note p = peek_refresh [OF Some, of _ now]
  show ?thesis
  proof (cases "e_tier e")
    case HBM
    with assms Some show ?thesis by (auto simp: cache_lookup_def peek_tier [OF Some] intro: p)
  next
    case SSD
    with assms Some show ?thesis by (auto simp: cache_lookup_def peek_tier [OF Some] intro: p)
  next
    case Gone
    with assms Some show ?thesis by (auto simp: cache_lookup_def peek_tier [OF Some] intro: peek_same)
  qed
qed

theorem lookup_is_peek_witness:
  "fst (cache_lookup 7 5 small_cache) = cache_peek 7 small_cache \<and> l_result (cache_peek 7 small_cache) = Hit
   \<and> cc_hits (snd (cache_lookup 7 5 small_cache)) = 1"
proof -
  have "l_result (cache_peek 7 small_cache) = Hit" "cc_hits small_cache = 0" by code_simp+
  then show ?thesis using lookup_is_peek [OF surjective_pairing, of 7 5 small_cache] by simp
qed

text \<open>The bytes of the other conversations are those left when a completion takes back its own.\<close>

lemma hbm_bytes_others:
  "distinct (map fst idx) \<Longrightarrow>
     hbm_bytes bpt n (filter (\<lambda>x. fst x \<noteq> i) idx) = hbm_bytes bpt n idx - opt_bytes bpt n (map_of idx i)"
proof (induction idx)
  case (Cons x idx)
  have "map_of idx i = None" if "fst x = i" using that Cons.prems by (auto simp: map_of_eq_None_iff)
  with Cons show ?case by (cases x) (auto simp: hbm_bytes_def opt_bytes_def)
qed (simp add: hbm_bytes_def opt_bytes_def)

lemma sum_list_filter_if:
  "(\<Sum>x \<leftarrow> xs. if P x \<and> A x \<and> B x then f x else (0 :: int)) = (\<Sum>x \<leftarrow> filter P xs. if A x \<and> B x then f x else 0)"
  by (induction xs) auto

lemma reclaim_others:
  assumes "cache_inv c" and "n < length (node_budget c)"
  shows "reclaim c i ! n = hbm_bytes (kv_bpt c) n (filter (\<lambda>x. fst x \<noteq> i) (cc_idx c))"
proof -
  have d: "distinct (map fst (cc_idx c))" "n < length (node_used c)" "node_used c ! n = hbm_bytes (kv_bpt c) n (cc_idx c)"
    using assms by (simp_all add: cache_inv_def)
  show ?thesis unfolding hbm_bytes_others [OF d(1)]
    using d(2,3) by (auto simp: reclaim_def opt_bytes_def entry_bytes_def nth_list_update split: option.splits)
qed

text \<open>C38: What a completion records is what the next lookup of this conversation answers, whatever the cache
  held of it before. With \<open>others\<close> the bytes that all other conversations hold in the node's HBM, it is a hit
  on this node if the conversation is long enough and fits the budget next to the others, and a reload from
  its SSD, priced by its length, if not; the node's account is that of the others, plus the new
  bytes in case of a hit. The lookups of all other conversations are answered as before.\<close>
theorem complete_then_lookup:
  assumes "cache_inv c" and "node < length (node_budget c)"
    and "others = (\<Sum>x \<leftarrow> cc_idx c. if fst x \<noteq> i \<and> e_tier (snd x) = HBM \<and> e_node (snd x) = node then e_len (snd x) * kv_bpt c else 0)"
    and "c' = on_complete node i total_len now c"
  shows "(if eligibility_threshold (cc_cfg c) < total_len \<and> others + total_len * kv_bpt c \<le> node_budget c ! node
     then fst (cache_lookup i later c') = \<lparr>l_result = Hit, l_node = int node, reload_cost = dlit 0\<rparr>
       \<and> node_used c' ! node = others + total_len * kv_bpt c
     else fst (cache_lookup i later c') =
         \<lparr>l_result = MissReload, l_node = int node, reload_cost = dbl total_len * dbl (kv_bpt c) / offload_bw (cc_cfg c)\<rparr>
       \<and> node_used c' ! node = others)
    \<and> (\<forall>j. j \<noteq> i \<longrightarrow> fst (cache_lookup j later c') = fst (cache_lookup j later c))"
proof -
  have "others = hbm_bytes (kv_bpt c) node (filter (\<lambda>x. fst x \<noteq> i) (cc_idx c))"
    unfolding assms(3) hbm_bytes_def entry_bytes_def by (rule sum_list_filter_if)
  then have r: "reclaim c i ! node = others" using reclaim_others [OF assms(1,2)] by simp
  have len: "node < length (reclaim c i)" using assms(1,2) by (auto simp: reclaim_def cache_inv_def split: option.splits)
  have "fst (cache_lookup j later c') = fst (cache_lookup j later c)" if "j \<noteq> i" for j
    using that by (auto simp: assms(4) on_complete_def cache_lookup_def reload_time_def Let_def update_conv' split: option.splits Tier.splits)
  moreover have "if eligibility_threshold (cc_cfg c) < total_len \<and> others + total_len * kv_bpt c \<le> node_budget c ! node
     then fst (cache_lookup i later c') = \<lparr>l_result = Hit, l_node = int node, reload_cost = dlit 0\<rparr>
       \<and> node_used c' ! node = others + total_len * kv_bpt c
     else fst (cache_lookup i later c') =
         \<lparr>l_result = MissReload, l_node = int node, reload_cost = dbl total_len * dbl (kv_bpt c) / offload_bw (cc_cfg c)\<rparr>
       \<and> node_used c' ! node = others"
    using len by (simp add: assms(4) on_complete_def r cache_lookup_def reload_time_def Let_def update_conv')
  ultimately show ?thesis by blast
qed

theorem complete_then_lookup_witness:
  "fst (cache_lookup 9 25 (on_complete 0 9 90 20 small_cache)) = \<lparr>l_result = Hit, l_node = 0, reload_cost = dlit 0\<rparr>
   \<and> node_used small_cache ! 0 = 260 \<and> node_used (on_complete 0 9 90 20 small_cache) ! 0 = 300
   \<and> l_result (fst (cache_lookup 9 25 (on_complete 0 9 91 20 small_cache))) = MissReload
   \<and> node_used (on_complete 0 9 91 20 small_cache) ! 0 = 120"
proof -
  let ?o = "\<Sum>x \<leftarrow> cc_idx small_cache. if fst x \<noteq> 9 \<and> e_tier (snd x) = HBM \<and> e_node (snd x) = 0 then e_len (snd x) * kv_bpt small_cache else 0"
  have n: "0 < length (node_budget small_cache)" by (simp add: small_cache_ok(2))
  have o: "120 = ?o" by code_simp
  have v: "kv_bpt small_cache = 2" "node_budget small_cache ! 0 = 300" "eligibility_threshold (cc_cfg small_cache) = 50"
    "node_used small_cache ! 0 = 260" by code_simp+
  note t = complete_then_lookup [OF small_cache_ok(1) n o refl, where now = 20 and later = 25, unfolded v]
  show ?thesis using t [where total_len = 90] t [where total_len = 91] v(4) by simp
qed

end
