(* ===== verification/Conversation.thy ===== *)
theory Conversation
  imports Metrics Cluster_Cache
begin

text \<open>
  The abstract specification of a simulated cluster: where its conversations are. A
  conversation is resident on a node, queued for any node, in line for the node that holds
  its cache, or away until its next turn. The drivers keep the population constant: a
  conversation that ends is replaced by a fresh arrival. The theory holds this transition
  system with its invariants, the interface of the queue that the drivers' slot filling
  relies on, and the parts of the drivers that they share.
\<close>

section \<open>The transition system\<close>

record Population =
  residents :: "int multiset"
  in_queue :: "int multiset"
  in_line :: "int multiset"
  away :: "int multiset"
  next_conv :: int

inductive pop_step :: "Population \<Rightarrow> Population \<Rightarrow> bool" where
  returns_to_queue: "away p = add_mset i A \<Longrightarrow> pop_step p (p\<lparr>away := A, in_queue := add_mset i (in_queue p)\<rparr>)"
| returns_to_line: "away p = add_mset i A \<Longrightarrow> pop_step p (p\<lparr>away := A, in_line := add_mset i (in_line p)\<rparr>)"
| spills: "in_line p = add_mset i L \<Longrightarrow> pop_step p (p\<lparr>in_line := L, in_queue := add_mset i (in_queue p)\<rparr>)"
| enters_from_queue: "in_queue p = add_mset i Q \<Longrightarrow> pop_step p (p\<lparr>in_queue := Q, residents := add_mset i (residents p)\<rparr>)"
| enters_from_line: "in_line p = add_mset i L \<Longrightarrow> pop_step p (p\<lparr>in_line := L, residents := add_mset i (residents p)\<rparr>)"
| goes_away: "residents p = add_mset i R \<Longrightarrow> pop_step p (p\<lparr>residents := R, away := add_mset i (away p)\<rparr>)"
| ends: "residents p = add_mset i R \<Longrightarrow>
    pop_step p (p\<lparr>residents := R, in_queue := add_mset (next_conv p) (in_queue p), next_conv := next_conv p + 1\<rparr>)"

abbreviation pop_steps :: "Population \<Rightarrow> Population \<Rightarrow> bool" where
  "pop_steps \<equiv> pop_step\<^sup>*\<^sup>*"

inductive_cases pop_stepE: "pop_step p p'"

definition everyone :: "Population \<Rightarrow> int multiset" where
  "everyone p = residents p + in_queue p + in_line p + away p"

lemmas pop_defs = everyone_def Population.defs

text \<open>A step keeps the population, or replaces one conversation by the next new one.\<close>

lemma pop_step_everyone:
  assumes "pop_step p p'"
  shows "everyone p' = everyone p \<and> next_conv p' = next_conv p
    \<or> (\<exists>i R. everyone p = add_mset i R \<and> everyone p' = add_mset (next_conv p) R) \<and> next_conv p' = next_conv p + 1"
  using assms by cases (auto simp: everyone_def)

lemma pop_step_size: "pop_step p p' \<Longrightarrow> size (everyone p') = size (everyone p)"
  using pop_step_everyone by (metis size_add_mset)

lemma pop_steps_size: "pop_steps p p' \<Longrightarrow> size (everyone p') = size (everyone p)"
  by (induction rule: rtranclp_induct) (simp_all add: pop_step_size)

text \<open>Conversations are new ones or were there; ids stay unique if they were and lie below the counter.\<close>

definition ids_unique :: "Population \<Rightarrow> bool" where
  "ids_unique p \<longleftrightarrow> (\<forall>i. count (everyone p) i \<le> 1) \<and> (\<forall>i \<in># everyone p. 0 \<le> i \<and> i < next_conv p)"

lemma pop_step_unique:
  assumes "pop_step p p'" and "ids_unique p" and "0 \<le> next_conv p" shows "ids_unique p' \<and> 0 \<le> next_conv p'"
proof -
  from pop_step_everyone [OF assms(1)] show ?thesis
  proof (elim disjE conjE exE)
    fix i R
    assume e: "everyone p = add_mset i R" "everyone p' = add_mset (next_conv p) R" "next_conv p' = next_conv p + 1"
    have "next_conv p \<notin># R" using assms(2) e(1) by (auto simp: ids_unique_def)
    then have "count R (next_conv p) = 0" by (simp add: not_in_iff)
    moreover have "count R j \<le> 1" for j
    proof -
      have "count R j \<le> count (everyone p) j" by (simp add: e(1))
      also have "\<dots> \<le> 1" using assms(2) by (simp add: ids_unique_def)
      finally show ?thesis .
    qed
    ultimately show ?thesis using assms(2,3) e by (auto simp: ids_unique_def)
  qed (use assms(2,3) in \<open>simp add: ids_unique_def\<close>)
qed

lemma pop_steps_unique:
  "pop_steps p p' \<Longrightarrow> ids_unique p \<Longrightarrow> 0 \<le> next_conv p \<Longrightarrow> ids_unique p' \<and> 0 \<le> next_conv p'"
  by (induction rule: rtranclp_induct) (auto dest: pop_step_unique)

lemma pop_steps_next: "pop_steps p p' \<Longrightarrow> next_conv p \<le> next_conv p'"
  by (induction rule: rtranclp_induct) (auto dest: pop_step_everyone)

text \<open>The ledger of a sequence of steps: who is there and who has ended are those who were there and the new ones.\<close>

lemma pop_steps_ledger:
  assumes "pop_steps p p'" and "0 \<le> next_conv p"
  shows "\<exists>ended. everyone p' + ended = everyone p + mset (map int [nat (next_conv p)..<nat (next_conv p')])
    \<and> int (size ended) = next_conv p' - next_conv p"
  using assms
proof (induction rule: rtranclp_induct)
  case base
  show ?case by (rule exI [of _ "{#}"]) simp
next
  case (step q q')
  then obtain ended where e: "everyone q + ended = everyone p + mset (map int [nat (next_conv p)..<nat (next_conv q)])"
    "int (size ended) = next_conv q - next_conv p" by blast
  have n: "next_conv p \<le> next_conv q" using pop_steps_next [OF step(1)] .
  from pop_step_everyone [OF step(2)] show ?case
  proof (elim disjE conjE exE)
    fix i R assume i: "everyone q = add_mset i R" "everyone q' = add_mset (next_conv q) R" "next_conv q' = next_conv q + 1"
    have "[nat (next_conv p)..<nat (next_conv q')] = [nat (next_conv p)..<nat (next_conv q)] @ [nat (next_conv q)]"
      using n step.prems i(3) by (simp add: nat_add_distrib)
    then have "everyone q' + add_mset i ended = everyone p + mset (map int [nat (next_conv p)..<nat (next_conv q')])"
      using e(1) i(1,2) n step.prems by simp
    then show ?case using e(2) i(3) by (intro exI [of _ "add_mset i ended"]) simp
  qed (use e in auto)
qed

lemma pop_steps_nonneg:
  "pop_steps p p' \<Longrightarrow> \<forall>i \<in># everyone p. 0 \<le> i \<Longrightarrow> 0 \<le> next_conv p \<Longrightarrow> \<forall>i \<in># everyone p'. 0 \<le> i"
proof (induction rule: rtranclp_induct)
  case (step q q')
  then have "0 \<le> next_conv q" using pop_steps_next by fastforce
  with step pop_step_everyone [OF step(2)] show ?case by auto
qed simp

section \<open>The interface of the queue\<close>

definition ids_of :: "Request list \<Rightarrow> int multiset" where
  "ids_of rs = image_mset r_id (mset rs)"

lemma ids_of_simps [simp]:
  "ids_of [] = {#}" "ids_of (r # rs) = add_mset (r_id r) (ids_of rs)" "ids_of (xs @ ys) = ids_of xs + ids_of ys"
  by (simp_all add: ids_of_def)

lemma ids_of_swap_pop: "i < length rs \<Longrightarrow> ids_of rs = add_mset (r_id (rs ! i)) (ids_of (butlast (rs[i := last rs])))"
  using mset_swap_pop [of i rs] by (simp add: ids_of_def)

text \<open>
  A slot is filled by a pull from the queue. The drivers rely on two laws: a request that is
  there leaves the queue, and a negative answer leaves the queue as it is.
\<close>

locale slot_queue =
  fixes pull :: "GlobalQueue \<Rightarrow> double \<Rightarrow> Request \<times> GlobalQueue"
  assumes pull_leaves: "pull g ideal = (r, g') \<Longrightarrow> 0 \<le> r_id r \<Longrightarrow> mset (gq_q g) = add_mset r (mset (gq_q g'))"
    and pull_nothing: "pull g ideal = (r, g') \<Longrightarrow> r_id r < 0 \<Longrightarrow> \<forall>x \<in> set (gq_q g). 0 \<le> r_id x \<Longrightarrow> gq_q g' = gq_q g"
    and pull_empty: "pull g ideal = (r, g') \<Longrightarrow> gq_q g = [] \<Longrightarrow> r_id r < 0"
begin

lemma pull_ids:
  assumes "pull g ideal = (r, g')" and "0 \<le> r_id r" shows "ids_of (gq_q g) = add_mset (r_id r) (ids_of (gq_q g'))"
  using pull_leaves [OF assms] by (simp add: ids_of_def)

lemma pull_enters:
  assumes "pull g ideal = (r, g')" and "0 \<le> r_id r" and "in_queue p = ids_of (gq_q g)"
  shows "pop_step p (p\<lparr>in_queue := ids_of (gq_q g'), residents := add_mset (r_id r) (residents p)\<rparr>)"
  by (rule enters_from_queue) (simp add: assms(3) pull_ids [OF assms(1,2)])

lemma pull_from:
  assumes "pull g ideal = (r, g')" and "0 \<le> r_id r" shows "r \<in> set (gq_q g)" "set (gq_q g') \<subseteq> set (gq_q g)"
  using pull_leaves [OF assms] by (metis set_mset_mset union_single_eq_member, metis set_mset_mset set_mset_add_mset_insert subset_insertI)

end

lemma gq_take_set: "i < length (gq_q g) \<Longrightarrow> gq_take i g = (r, g') \<Longrightarrow> r \<in> set (gq_q g)"
  by (auto simp: gq_take_def)

interpretation near_pull: slot_queue "\<lambda>g ideal. gq_pull_near g ideal room"
proof unfold_locales
  fix g ideal r g' assume p: "gq_pull_near g ideal room = (r, g')"
  have c: "r = no_Request \<and> g' = g \<or> r \<in> set (gq_q g) \<and> mset (gq_q g) = add_mset r (mset (gq_q g'))"
  proof (cases "find_near g ideal room")
    case None
    with p show ?thesis by (simp add: gq_pull_near_def)
  next
    case (Some i)
    with p have "gq_take i g = (r, g')" by (simp add: gq_pull_near_def)
    then show ?thesis using gq_take_set gq_take_mset find_near_Some(1) [OF Some] by blast
  qed
  show "0 \<le> r_id r \<Longrightarrow> mset (gq_q g) = add_mset r (mset (gq_q g'))" using c by (auto simp: no_Request_def)
  show "r_id r < 0 \<Longrightarrow> \<forall>x \<in> set (gq_q g). 0 \<le> r_id x \<Longrightarrow> gq_q g' = gq_q g" using c by fastforce
  show "gq_q g = [] \<Longrightarrow> r_id r < 0" using c by (auto simp: no_Request_def)
qed

interpretation slot_pull: slot_queue "\<lambda>g ideal. gq_pull_slot g ideal room now"
proof unfold_locales
  fix g ideal r g' assume p: "gq_pull_slot g ideal room now = (r, g')"
  have c: "gq_pull_near g ideal room = (r, g') \<or> r \<in> set (gq_q g) \<and> mset (gq_q g) = add_mset r (mset (gq_q g'))"
  proof (cases "find_oldest_aged g now")
    case None
    with p show ?thesis by (simp add: gq_pull_slot_def)
  next
    case (Some i)
    let ?g = "g\<lparr>gq_forced := gq_forced g + 1\<rparr>"
    from Some p have "gq_take i ?g = (r, g')" by (simp add: gq_pull_slot_def)
    then show ?thesis using gq_take_set [of i ?g] gq_take_mset [of i ?g] find_oldest_Some(1) [OF Some] by auto
  qed
  show "0 \<le> r_id r \<Longrightarrow> mset (gq_q g) = add_mset r (mset (gq_q g'))" using c near_pull.pull_leaves by blast
  show "r_id r < 0 \<Longrightarrow> \<forall>x \<in> set (gq_q g). 0 \<le> r_id x \<Longrightarrow> gq_q g' = gq_q g"
    using c near_pull.pull_nothing by (metis not_le)
  show "gq_q g = [] \<Longrightarrow> r_id r < 0" using c near_pull.pull_empty by fastforce
qed

section \<open>What the drivers share\<close>

text \<open>The seed of the population: fresh arrivals of round 0, pushed one by one.\<close>

fun seed_queue :: "'g Lib \<Rightarrow> nat \<Rightarrow> 'g MultiTurnWorkload \<Rightarrow> GlobalQueue \<Rightarrow> (GlobalQueue \<times> 'g MultiTurnWorkload) option" where
  "seed_queue lib 0 w q = Some (q, w)"
| "seed_queue lib (Suc n) w q =
     (case fresh_arrival lib 0 w of
        None \<Rightarrow> None
      | Some (r, w') \<Rightarrow> seed_queue lib n w' (gq_push r q))"

text \<open>The draws of the cold start, with the generator that is left.\<close>

fun draw_list :: "'g Lib \<Rightarrow> nat \<Rightarrow> 'g \<Rightarrow> int list \<times> 'g" where
  "draw_list lib 0 g = ([], g)"
| "draw_list lib (Suc n) g =
     (case sample_distribution_b lib g of
        (len, g1) \<Rightarrow> case draw_list lib n g1 of (xs, g2) \<Rightarrow> (len # xs, g2))"

lemma draw_list_draws: "fst (draw_list lib n g) = draws lib n g"
proof (induction n arbitrary: g)
  case (Suc n)
  obtain len g1 where s: "sample_distribution_b lib g = (len, g1)" by fastforce
  obtain xs g2 where "draw_list lib n g1 = (xs, g2)" by fastforce
  with s Suc [of g1] show ?case by simp
qed simp

text \<open>What the prefill of a returning turn costs, by the answer of the cache.\<close>

definition return_us :: "Deployment \<Rightarrow> Request \<Rightarrow> Lookup \<Rightarrow> double" where
  "return_us d r lk =
     (case l_result lk of
        Hit \<Rightarrow> prefill_us d (r_prompt r - r_cached_prefix r)
      | MissReload \<Rightarrow> prefill_us d (r_prompt r - r_cached_prefix r) + reload_cost lk * round_us d
      | MissRecompute \<Rightarrow> prefill_us d (r_prompt r))"

definition record_return :: "Deployment \<Rightarrow> Request \<Rightarrow> Lookup \<Rightarrow> double \<Rightarrow> Metrics \<Rightarrow> Metrics" where
  "record_return d r lk comp_us m =
     (let m = m\<lparr>m_returns := m_returns m + 1\<rparr>;
          m = (case l_result lk of
                 Hit \<Rightarrow> m\<lparr>m_hbm_hit := m_hbm_hit m + 1\<rparr>
               | MissReload \<Rightarrow> m\<lparr>m_ssd_reload := m_ssd_reload m + 1\<rparr>
               | MissRecompute \<Rightarrow> m\<lparr>m_recompute := m_recompute m + 1\<rparr>)
      in m\<lparr>m_saved_rounds := m_saved_rounds m + (prefill_us d (r_prompt r) - comp_us)\<rparr>)"

definition class_of :: "int \<Rightarrow> nat" where
  "class_of prompt = (if prompt < 16000 then 0 else if prompt < 256000 then 1 else 2)"

section \<open>Facts on the shared parts\<close>

lemma seed_queue_result:
  assumes "seed_queue lib n w q = Some (q', w')"
  shows "\<exists>rs. gq_q q' = gq_q q @ rs \<and> map r_id rs = map (\<lambda>k. mt_next_id w + int k) [0..<n] \<and> (\<forall>r \<in> set rs. r_turn r = 0)
    \<and> mt_next_id w' = mt_next_id w + int n \<and> mt_cfg w' = mt_cfg w \<and> mt_edge_cutoff w' = mt_edge_cutoff w
    \<and> gq_age_cap q' = gq_age_cap q \<and> gq_forced q' = gq_forced q"
  using assms
proof (induction n arbitrary: w q)
  case (Suc n)
  then obtain r w1 where r: "fresh_arrival lib 0 w = Some (r, w1)" "seed_queue lib n w1 (gq_push r q) = Some (q', w')"
    by (auto split: option.splits)
  from Suc.IH [OF r(2)] fresh_arrival_Some [OF r(1)] obtain rs where
    "gq_q q' = gq_q q @ r # rs" "map r_id rs = map (\<lambda>k. mt_next_id w + 1 + int k) [0..<n]" "\<forall>r \<in> set rs. r_turn r = 0"
    by (auto simp: gq_push_def)
  moreover have "map (\<lambda>k. mt_next_id w + int k) [0..<Suc n] = mt_next_id w # map (\<lambda>k. mt_next_id w + 1 + int k) [0..<n]"
    by (simp add: upt_conv_Cons map_Suc_upt [symmetric] algebra_simps del: upt_Suc)
  ultimately show ?case using Suc.IH [OF r(2)] fresh_arrival_Some [OF r(1)]
    by (intro exI [of _ "r # rs"]) (simp_all add: gq_push_def del: upt_Suc)
qed simp

lemma record_return_inv: "metrics_inv m \<Longrightarrow> metrics_inv (record_return d r lk c m)"
  by (simp add: record_return_def metrics_inv_def Let_def split: CacheResult.splits)

lemma record_return_counts:
  "m_returns (record_return d r lk c m) = m_returns m + 1"
  "m_hbm_hit (record_return d r lk c m) = m_hbm_hit m + (if l_result lk = Hit then 1 else 0)"
  "m_ssd_reload (record_return d r lk c m) = m_ssd_reload m + (if l_result lk = MissReload then 1 else 0)"
  "m_recompute (record_return d r lk c m) = m_recompute m + (if l_result lk = MissRecompute then 1 else 0)"
  by (simp_all add: record_return_def Let_def split: CacheResult.splits)

end
