(* ===== verification/Driver_Base.thy ===== *)
theory Driver_Base
  imports Conversation
begin

text \<open>
  What the lemmas on the drivers share: the well-formedness of requests and of the workload's
  configuration, what arrivals, returns, the seed and the draws of the cold start give, and the
  command line.
\<close>

section \<open>The command line\<close>

text \<open>The command line: what \<open>atoi\<close> and \<open>atof\<close> made of each argument that was given.\<close>

record CsArgs =
  arg_iters :: "int option"
  arg_Z :: "int option"
  arg_eligibility :: "int option"
  arg_evict_age :: "int option"
  arg_global_age_cap :: "int option"
  arg_seed_backlog :: "int option"
  arg_beta :: "double option"
  arg_offload_bw :: "double option"
  arg_age_cap :: "int option"
  arg_surplus :: "int option"
  arg_affinity :: "int option"
  arg_dyncache :: "int option"
  arg_aff_spill :: "int option"

definition given :: "'a option \<Rightarrow> 'a \<Rightarrow> 'a" where
  "given a dflt = (case a of None \<Rightarrow> dflt | Some x \<Rightarrow> x)"

text \<open>The diagnosis of the pools of a round.\<close>

record PoolAcc =
  pa_resid :: "double list"
  pa_mean :: double
  pa_nodes :: int

section \<open>Requests and arrivals\<close>

lemma metrics_inv_ttft: "metrics_inv (m\<lparr>m_ttft := x\<rparr>) = metrics_inv m"
  by (simp add: metrics_inv_def)

lemma concat_update_mset:
  "z < length xss \<Longrightarrow> mset (concat (xss[z := ys])) + mset (xss ! z) = mset (concat xss) + mset ys"
proof (induction xss arbitrary: z)
  case (Cons x xss)
  show ?case
  proof (cases z)
    case (Suc n)
    then have "mset (concat (xss[n := ys])) + mset (xss ! n) = mset (concat xss) + mset ys" using Cons by simp
    then show ?thesis by (simp add: Suc)
  qed simp
qed simp

lemma ids_of_concat_update:
  "z < length xss \<Longrightarrow> ids_of (concat (xss[z := ys])) + ids_of (xss ! z) = ids_of (concat xss) + ids_of ys"
  using concat_update_mset [of z xss ys] by (simp add: ids_of_def flip: image_mset_union)

lemma in_concat_update: "x \<in> set (concat (xss[z := ys])) \<Longrightarrow> x \<in> set (concat xss) \<or> x \<in> set ys"
  by (auto dest!: set_update_subset_insert [THEN subsetD])

lemma gq_push_q [simp]: "gq_q (gq_push r g) = gq_q g @ [r]"
  by (simp add: gq_push_def)

definition rq_ok :: "Request \<Rightarrow> bool" where
  "rq_ok r \<longleftrightarrow> 0 \<le> r_id r \<and> 0 \<le> r_prompt r \<and> 0 \<le> r_max_tokens r"

definition mt_ok :: "MultiTurnConfig \<Rightarrow> bool" where
  "mt_ok cfg \<longleftrightarrow> 0 \<le> dtot_lo cfg \<and> dtot_lo cfg \<le> dtot_hi cfg \<and> 0 \<le> new_msg_lo cfg \<and> new_msg_lo cfg \<le> new_msg_hi cfg
     \<and> think_gap_lo cfg \<le> think_gap_hi cfg"

text \<open>The distribution samples lengths, which are not negative.\<close>

definition lengths_ok :: "'g Lib \<Rightarrow> bool" where
  "lengths_ok lib \<longleftrightarrow> (\<forall>g. 0 \<le> fst (sample_distribution_b lib g))"

definition sim_ok :: "'g Lib \<Rightarrow> MultiTurnConfig \<Rightarrow> bool" where
  "sim_ok lib cfg \<longleftrightarrow> lib_ok lib \<and> lengths_ok lib \<and> mt_ok cfg"

lemma gated_sample_nonneg:
  assumes "lengths_ok lib" and "gated_sample lib cutoff g = Some (v, g')" shows "0 \<le> v"
proof -
  have "lengths_ok lib \<longrightarrow> 0 \<le> fst y" if "gated_sample lib cutoff g = Some y" for y
    by (rule gated_sample.raw_induct [where P = "\<lambda>lib cutoff g y. lengths_ok lib \<longrightarrow> 0 \<le> fst y", OF _ that])
      (auto split: prod.splits if_splits simp: lengths_ok_def, metis fst_conv)
  from this [OF assms(2)] assms(1) show ?thesis by simp
qed

lemma fresh_arrival_ok:
  assumes "sim_ok lib cfg" and "fresh_arrival lib now w = Some (r, w')" and "mt_cfg w = cfg" and "0 \<le> mt_next_id w"
  shows "rq_ok r" "mt_cfg w' = cfg" "0 \<le> mt_next_id w'"
proof -
  obtain v g where v: "gated_sample lib (mt_edge_cutoff w) (mt_rng w) = Some (v, g)"
    using assms(2) by (auto simp: fresh_arrival_def split: option.splits)
  then have "r_prompt r = v" using assms(2) by (auto simp: fresh_arrival_def split: prod.splits)
  then have "0 \<le> r_prompt r" using gated_sample_nonneg [OF _ v] assms(1) by (simp add: sim_ok_def)
  then show "rq_ok r" "mt_cfg w' = cfg" "0 \<le> mt_next_id w'"
    using fresh_arrival_Some [OF assms(2)] assms(1,3,4) by (auto simp: rq_ok_def sim_ok_def mt_ok_def)
qed

lemma maybe_return_frame:
  assumes "maybe_return lib prev now w = (ret, w')"
  shows "mt_cfg w' = mt_cfg w" "mt_next_id w' = mt_next_id w" "mt_edge_cutoff w' = mt_edge_cutoff w"
    "ret_returns ret \<Longrightarrow> r_id (ret_next ret) = r_id prev"
  using assms by (auto simp: maybe_return_def Let_def split: prod.splits if_splits)

lemma maybe_return_ok:
  assumes "sim_ok lib cfg" and "maybe_return lib prev now w = (ret, w')" and "mt_cfg w = cfg"
    and "rq_ok prev" and "ret_returns ret"
  shows "rq_ok (ret_next ret)"
proof -
  have m: "lib_ok lib" "mt_ok (mt_cfg w)" using assms(1,3) by (simp_all add: sim_ok_def)
  then show ?thesis
    using maybe_return_next [OF assms(2,5) m(1)] assms(4) by (auto simp: mt_ok_def rq_ok_def)
qed

section \<open>The start\<close>

text \<open>While no conversation ends, nobody comes or goes.\<close>

lemma pop_steps_everyone:
  "pop_steps p p' \<Longrightarrow> next_conv p' = next_conv p \<Longrightarrow> everyone p' = everyone p"
proof (induction rule: rtranclp_induct)
  case (step q q')
  have "next_conv q = next_conv p"
    using pop_steps_next [OF step(1)] pop_step_everyone [OF step(2)] step(4) by auto
  with step pop_step_everyone [OF step(2)] show ?case by auto
qed simp

lemma seed_queue_ok:
  assumes "seed_queue lib n w q = Some (q', w')" and "sim_ok lib cfg" and "mt_cfg w = cfg" and "0 \<le> mt_next_id w"
    and "\<forall>r \<in> set (gq_q q). rq_ok r"
  shows "\<forall>r \<in> set (gq_q q'). rq_ok r"
  using assms(1,3-5)
proof (induction n arbitrary: w q)
  case (Suc n)
  then obtain r w1 where r: "fresh_arrival lib 0 w = Some (r, w1)" "seed_queue lib n w1 (gq_push r q) = Some (q', w')"
    by (auto split: option.splits)
  note f = fresh_arrival_ok [OF assms(2) r(1) Suc.prems(2,3)]
  have "\<forall>x \<in> set (gq_q (gq_push r q)). rq_ok x" using f(1) Suc.prems(4) by simp
  from Suc.IH [OF r(2) f(2,3) this] show ?case .
qed simp

text \<open>The lengths of the cluster's nodes come from the draw.\<close>

lemma cold_place_set:
  assumes "cold_place op len (nodes, lo) = (nodes', lo')"
  shows "length nodes' = length nodes \<and> (\<forall>i < length nodes. set (cn_lengths (nodes' ! i)) \<subseteq> insert len (set (cn_lengths (nodes ! i))))"
proof -
  have "set (cn_lengths (nodes[j := node_admit len (nodes ! j)] ! i)) \<subseteq> insert len (set (cn_lengths (nodes ! i)))"
    if "i < length nodes" for i j
    using that by (cases "i = j") (auto simp: node_admit_def)
  with assms show ?thesis by (auto simp: cold_place_def split: option.splits)
qed

lemma cold_fold_set:
  "fold (cold_place op) lens (nodes, lo) = (nodes', lo') \<Longrightarrow>
     length nodes' = length nodes \<and> (\<forall>i < length nodes. set (cn_lengths (nodes' ! i)) \<subseteq> set lens \<union> set (cn_lengths (nodes ! i)))"
proof (induction lens arbitrary: nodes lo)
  case (Cons len lens)
  obtain nodes1 lo1 where p: "cold_place op len (nodes, lo) = (nodes1, lo1)" by fastforce
  then have "fold (cold_place op) lens (nodes1, lo1) = (nodes', lo')" using Cons.prems by simp
  from Cons.IH [OF this] cold_place_set [OF p] show ?case by fastforce
qed simp

lemma draw_list_sampled: "\<forall>x \<in> set (fst (draw_list lib n g)). \<exists>g'. x = fst (sample_distribution_b lib g')"
proof (induction n arbitrary: g)
  case (Suc n)
  obtain len g1 where s: "sample_distribution_b lib g = (len, g1)" by fastforce
  obtain xs g2 where "draw_list lib n g1 = (xs, g2)" by fastforce
  moreover have "\<exists>g'. len = fst (sample_distribution_b lib g')" using s by (metis fst_conv)
  ultimately show ?case using s Suc.IH [of g1] by auto
qed simp

lemma set_kept: "set (kept (gate draw op)) \<subseteq> set draw"
  by (auto simp: gate_def Let_def dest: in_set_dropD)

lemma cold_lengths_sampled:
  assumes "sim_ok lib cfg" and "cnodes = fst (cold_start (lib_shuffle lib) (kept (gate (fst (draw_list lib n g)) op))
      (replicate Z \<lparr>cn_lengths = [], cn_total = 0\<rparr>) op seed)" and "z < Z"
  shows "\<forall>x \<in> set (cn_lengths (cnodes ! z)). \<exists>g'. x = fst (sample_distribution_b lib g')"
proof -
  let ?k = "kept (gate (fst (draw_list lib n g)) op)"
  let ?r = "replicate Z \<lparr>cn_lengths = [], cn_total = 0\<rparr>"
  obtain lo where f: "fold (cold_place op) (lib_shuffle lib seed ?k) (?r, 0) = (cnodes, lo)"
    using assms(2) by (simp add: cold_start_def) (metis prod.collapse)
  have "mset (lib_shuffle lib seed ?k) = mset ?k" using assms(1) by (simp add: sim_ok_def lib_ok_def)
  then have "set (lib_shuffle lib seed ?k) = set ?k" by (rule mset_eq_setD)
  then have "set (cn_lengths (cnodes ! z)) \<subseteq> set ?k" using cold_fold_set [OF f] assms(3) by simp
  then show ?thesis using set_kept draw_list_sampled [of lib n g] by blast
qed

lemma cold_lengths_nonneg:
  assumes "sim_ok lib cfg" and "cnodes = fst (cold_start (lib_shuffle lib) (kept (gate (fst (draw_list lib n g)) op))
      (replicate Z \<lparr>cn_lengths = [], cn_total = 0\<rparr>) op seed)" and "z < Z"
  shows "\<forall>x \<in> set (cn_lengths (cnodes ! z)). 0 \<le> x"
  using cold_lengths_sampled [OF assms] assms(1) by (fastforce simp: sim_ok_def lengths_ok_def)

section \<open>Returning\<close>

lemma gated_sample_some:
  assumes "v \<in> set (draws lib n g)" and "v \<le> cutoff" shows "\<exists>v' g'. gated_sample lib cutoff g = Some (v', g')"
proof -
  have "dropWhile (\<lambda>v. cutoff < v) (draws lib n g) \<noteq> []" using assms by (auto simp: dropWhile_eq_Nil_conv not_less)
  then obtain v' rest where "dropWhile (\<lambda>v. cutoff < v) (draws lib n g) = v' # rest" by (cases "dropWhile (\<lambda>v. cutoff < v) (draws lib n g)") auto
  from gated_sample_first [OF this] show ?thesis by blast
qed

text \<open>From every state of the generator some draw is within the cutoff.\<close>

definition cutoff_ok :: "'g Lib \<Rightarrow> int \<Rightarrow> bool" where
  "cutoff_ok lib cutoff \<longleftrightarrow> (\<forall>g. \<exists>n. \<exists>v \<in> set (draws lib n g). v \<le> cutoff)"

lemma fresh_arrival_returns: "cutoff_ok lib (mt_edge_cutoff w) \<Longrightarrow> \<exists>r w'. fresh_arrival lib now w = Some (r, w')"
proof -
  assume "cutoff_ok lib (mt_edge_cutoff w)"
  then obtain v g where "gated_sample lib (mt_edge_cutoff w) (mt_rng w) = Some (v, g)"
    using gated_sample_some [of _ lib _ "mt_rng w" "mt_edge_cutoff w"] unfolding cutoff_ok_def by metis
  then show ?thesis by (auto simp: fresh_arrival_def split: prod.splits)
qed

lemma seed_queue_returns: "cutoff_ok lib (mt_edge_cutoff w) \<Longrightarrow> \<exists>q' w'. seed_queue lib n w q = Some (q', w')"
proof (induction n arbitrary: w q)
  case (Suc n)
  obtain r w1 where f: "fresh_arrival lib 0 w = Some (r, w1)" using fresh_arrival_returns [OF Suc.prems] by blast
  have "cutoff_ok lib (mt_edge_cutoff w1)" using Suc.prems fresh_arrival_Some(4) [OF f] by simp
  from Suc.IH [OF this] f show ?case by simp
qed simp

text \<open>Two nodes of three decoders each, on the library of the witnesses.\<close>

definition demo_mt :: MultiTurnConfig where
  "demo_mt = small_mt\<lparr>dtot_lo := 1, dtot_hi := 2, new_msg_lo := 5, new_msg_hi := 8, think_gap_lo := 1, think_gap_hi := 2\<rparr>"

definition demo_op :: OperatingPoint where
  "demo_op = small_op\<lparr>ctx_balance := dlit 50000, kv_operating_target := 100000, edge_band := dlit 1000,
     node_footprint_cap := 300000, decode_pool := 3\<rparr>"

definition demo_args :: CsArgs where
  "demo_args = \<lparr>arg_iters = None, arg_Z = None, arg_eligibility = Some 1000, arg_evict_age = None, arg_global_age_cap = None,
     arg_seed_backlog = None, arg_beta = None, arg_offload_bw = None, arg_age_cap = None, arg_surplus = None,
     arg_affinity = None, arg_dyncache = None, arg_aff_spill = None\<rparr>"

text \<open>The library cycles through ten uniform values, so that every sixth draw or so is short.\<close>

lemma toy_next: "snd (sample_distribution_b toy_lib g) = g + 2"
  by (simp add: sample_distribution_b_def toy_lib_def Let_def split: prod.splits)

lemma toy_draws: "k < n \<Longrightarrow> fst (sample_distribution_b toy_lib (g + 2 * k)) \<in> set (draws toy_lib n g)"
proof (induction n arbitrary: g k)
  case (Suc n)
  obtain len where s: "sample_distribution_b toy_lib g = (len, g + 2)" using toy_next [of g] by (metis prod.collapse)
  show ?case
  proof (cases k)
    case 0
    then show ?thesis by (simp add: s)
  next
    case (Suc m)
    with Suc.IH [of m "g + 2"] Suc.prems show ?thesis by (simp add: s add.assoc)
  qed
qed simp

lemma toy_short: "g mod 10 = 0 \<Longrightarrow> fst (sample_distribution_b toy_lib g) = 2500" "g mod 10 = 1 \<Longrightarrow> fst (sample_distribution_b toy_lib g) = 4000"
proof -
  have v: "dlit 0 < dlit (20 / 100)" "dlit (1 / 10) < dlit (20 / 100)"
    "to_i32 (dlit (1 / 10) * (dlit 16000 - dlit 1000) + dlit 1000) = 2500"
    "to_i32 (dlit (2 / 10) * (dlit 16000 - dlit 1000) + dlit 1000) = 4000" by code_simp+
  show "g mod 10 = 0 \<Longrightarrow> fst (sample_distribution_b toy_lib g) = 2500"
  proof -
    assume g: "g mod 10 = 0"
    then have "(g + 1) mod 10 = 1" by presburger
    with g v show ?thesis by (simp add: sample_distribution_b_def toy_lib_def Let_def)
  qed
  show "g mod 10 = 1 \<Longrightarrow> fst (sample_distribution_b toy_lib g) = 4000"
  proof -
    assume g: "g mod 10 = 1"
    then have "(g + 1) mod 10 = 2" by presburger
    with g v show ?thesis by (simp add: sample_distribution_b_def toy_lib_def Let_def)
  qed
qed

lemma toy_cutoff: "cutoff_ok toy_lib 100000"
proof -
  have "\<exists>v \<in> set (draws toy_lib 5 g). v \<le> 100000" for g
  proof -
    have "\<exists>k < 5. (g + 2 * k) mod 10 = 0 \<or> (g + 2 * k) mod 10 = 1" by presburger
    then obtain k where "k < 5" "fst (sample_distribution_b toy_lib (g + 2 * k)) \<le> 4000"
      using toy_short by fastforce
    then show ?thesis using toy_draws [of k 5 g] by (intro bexI [of _ "fst (sample_distribution_b toy_lib (g + 2 * k))"]) auto
  qed
  then show ?thesis unfolding cutoff_ok_def by blast
qed

lemma toy_range: "0 \<le> fst (sample_distribution_b toy_lib g) \<and> fst (sample_distribution_b toy_lib g) \<le> 1000000"
proof -
  let ?f = "\<lambda>u v. (let (lo, hi) = (if dlit u < dlit (20 / 100) then (dlit 1000, dlit 16000)
      else if dlit u < dlit (90 / 100) then (dlit 16000, dlit 256000) else (dlit 256000, dlit 1000000))
    in to_i32 (dlit v * (hi - lo) + lo))"
  have all: "list_all (\<lambda>x. 0 \<le> ?f (of_nat x / 10) (of_nat ((x + 1) mod 10) / 10)
      \<and> ?f (of_nat x / 10) (of_nat ((x + 1) mod 10) / 10) \<le> 1000000) [0..<10]" by code_simp
  have "fst (sample_distribution_b toy_lib g) = ?f (of_nat (g mod 10) / 10) (of_nat ((g mod 10 + 1) mod 10) / 10)"
    by (simp add: sample_distribution_b_def toy_lib_def Let_def mod_Suc_eq split: prod.splits)
  then show ?thesis using all unfolding list_all_iff by auto
qed

lemma toy_lengths: "lengths_ok toy_lib"
  by (simp add: lengths_ok_def toy_range)

lemma fold_plus: "fold (\<lambda>x c. c + x) xs a = a + sum_list (xs :: int list)"
  by (induction xs arbitrary: a) auto

end
