(* ===== verification/Csched.thy ===== *)
theory Csched
  imports Driver_Base
begin

text \<open>
  \<open>sim/csched.cpp\<close>: the adopted simulation driver. Each node steers two micro-batches over its
  pool, retires what is finished into the cache and fills each hole, first from the line of
  conversations whose cache it holds, then from the cluster queue. What \<open>main\<close> fixes before its
  loops is the record \<open>CsEnv\<close>, its variables are the record \<open>CsState\<close>; a step that may not
  return, because the workload draws until a length fits, is an option.
\<close>

section \<open>Decoders and gaps\<close>

record SimDecoder =
  sd_id :: int
  sd_prompt :: int
  sd_max_tokens :: int
  sd_dec :: int
  sd_wait :: int
  sd_turn :: int
  sd_cached_prefix :: int
  sd_met_ttft :: bool
  sd_max_gap :: int

definition sd_live_kv :: "SimDecoder \<Rightarrow> int" where
  "sd_live_kv q = sd_prompt q + sd_dec q"

text \<open>The histogram of the gaps between the tokens of a decoder, in rounds.\<close>

record GapHist =
  gh_h :: "int list"
  gh_n :: int
  gh_sum :: double
  gh_mx :: int

definition make_hist :: GapHist where
  "make_hist = \<lparr>gh_h = replicate 4096 0, gh_n = 0, gh_sum = dlit 0, gh_mx = 0\<rparr>"

definition gap_clamp :: "int \<Rightarrow> int" where
  "gap_clamp g = (let g = (if g < 0 then 0 else g) in if 4095 < g then 4095 else g)"

definition gap_add :: "int \<Rightarrow> GapHist \<Rightarrow> GapHist" where
  "gap_add g gh =
     (let g = gap_clamp g
      in \<lparr>gh_h = (gh_h gh)[nat g := gh_h gh ! nat g + 1], gh_n = gh_n gh + 1, gh_sum = gh_sum gh + dbl g,
          gh_mx = (if gh_mx gh < g then g else gh_mx gh)\<rparr>)"

definition gap_mean :: "GapHist \<Rightarrow> double" where
  "gap_mean gh = (if gh_n gh \<noteq> 0 then gh_sum gh / dbl (gh_n gh) else dlit 0)"

fun pctl_loop :: "int \<Rightarrow> int \<Rightarrow> int \<Rightarrow> int list \<Rightarrow> int option" where
  "pctl_loop target acc g [] = None"
| "pctl_loop target acc g (x # xs) = (if target < acc + x then Some g else pctl_loop target (acc + x) (g + 1) xs)"

definition gap_pctl :: "GapHist \<Rightarrow> double \<Rightarrow> int" where
  "gap_pctl gh p =
     (if gh_n gh = 0 then 0
      else let target = to_ll (p * dbl (gh_n gh - 1))
           in case pctl_loop target 0 0 (gh_h gh) of Some g \<Rightarrow> g | None \<Rightarrow> gh_mx gh)"

definition gap_count_gt :: "GapHist \<Rightarrow> nat \<Rightarrow> int" where
  "gap_count_gt gh g0 = fold (\<lambda>x c. c + x) (drop (g0 + 1) (gh_h gh)) 0"

section \<open>Settings and state\<close>

record 'g CsEnv =
  ce_lib :: "'g Lib"
  ce_d :: Deployment
  ce_op :: OperatingPoint
  ce_slo :: SLO
  ce_beta :: double
  ce_warm :: int
  ce_Z :: nat
  ce_seed :: nat
  ce_mt :: MultiTurnConfig
  ce_affinity :: bool
  ce_dyncache :: bool
  ce_spill_cap :: int
  ce_cap_room :: int
  ce_kv_bpt :: int
  ce_design_pool_bytes :: int
  ce_cache_cap :: int

record 'g CsState =
  cs_wl :: "'g MultiTurnWorkload"
  cs_queue :: GlobalQueue
  cs_cache :: ClusterCache
  cs_pend :: PendingReturns
  cs_m :: Metrics
  cs_k :: Kpi
  cs_pools :: "SimDecoder list list"
  cs_aff :: "Request list list"
  cs_aff_admits :: int
  cs_aff_spills :: int
  cs_aff_wait_max :: int
  cs_phys_hit :: int
  cs_remote_hit :: int
  cs_gap_all :: GapHist
  cs_gap_reqmax :: GapHist
  cs_excess_sum :: double
  cs_excess_n :: int

text \<open>The deployment's point derived anew with the surplus asked for, and the age cap overridden.\<close>

definition csched_op :: "Deployment \<Rightarrow> CsArgs \<Rightarrow> OperatingPoint" where
  "csched_op d a =
     (let op = derive_operating_point (d_model d) (d_hw d) (prefill_tokens (d_op d))
            (default_options\<lparr>opt_decode_surplus := given (arg_surplus a) 25\<rparr>)
      in case arg_age_cap a of None \<Rightarrow> op | Some c \<Rightarrow> op\<lparr>age_cap := c\<rparr>)"

definition csched_env :: "'g Lib \<Rightarrow> Deployment \<Rightarrow> CsArgs \<Rightarrow> SimConfig \<Rightarrow> 'g CsEnv" where
  "csched_env lib d a cfg =
     (let op = csched_op d a; bpt = kv_bytes_per_token (d_model d)
      in \<lparr>ce_lib = lib, ce_d = d, ce_op = op,
          ce_slo = \<lparr>t_ttft_us = sc_slo_ttft_us cfg, t_tbt_us = sc_slo_tbt_mult cfg * round_us d\<rparr>,
          ce_beta = given (arg_beta a) (sc_contention_beta cfg), ce_warm = sc_warm cfg, ce_Z = nat (given (arg_Z a) (sc_Z cfg)),
          ce_seed = sc_seed cfg, ce_mt = sc_mt cfg,
          ce_affinity = (case arg_affinity a of None \<Rightarrow> True | Some x \<Rightarrow> x \<noteq> 0),
          ce_dyncache = (case arg_dyncache a of None \<Rightarrow> True | Some x \<Rightarrow> x \<noteq> 0),
          ce_spill_cap = given (arg_aff_spill a) 200,
          ce_cap_room = decode_pool op * to_ll (ctx_balance op) * 4, ce_kv_bpt = bpt,
          ce_design_pool_bytes = to_ll (dbl (decode_pool op) * ctx_balance op * dbl bpt),
          ce_cache_cap = node_cache_capacity_bytes op\<rparr>)"

definition csched_state :: "'g CsEnv \<Rightarrow> CsArgs \<Rightarrow> SimConfig \<Rightarrow> int \<Rightarrow> 'g CsState" where
  "csched_state env a cfg cutoff =
     \<lparr>cs_wl = make_mt (ce_lib env) (ce_seed env) cutoff (ce_mt env), cs_queue = make_queue (given (arg_global_age_cap a) 25),
      cs_cache = make_cache (ce_Z env) (ce_cache_cap env) (ce_kv_bpt env)
        \<lparr>eligibility_threshold = given (arg_eligibility a) (sc_eligibility_threshold cfg),
         evict_age = given (arg_evict_age a) (sc_evict_age cfg), gone_age = sc_gone_age cfg,
         offload_bw = given (arg_offload_bw a) (sc_offload_bw cfg)\<rparr>,
      cs_pend = \<lparr>by_round = []\<rparr>, cs_m = make_metrics, cs_k = make_kpi, cs_pools = replicate (ce_Z env) [],
      cs_aff = replicate (ce_Z env) [], cs_aff_admits = 0, cs_aff_spills = 0, cs_aff_wait_max = 0, cs_phys_hit = 0,
      cs_remote_hit = 0, cs_gap_all = make_hist, cs_gap_reqmax = make_hist, cs_excess_sum = dlit 0, cs_excess_n = 0\<rparr>"

section \<open>Admission\<close>

definition cs_count_hit :: "nat \<Rightarrow> Lookup \<Rightarrow> 'g CsState \<Rightarrow> 'g CsState" where
  "cs_count_hit z lk st =
     (if l_result lk = Hit
      then if l_node lk = int z then st\<lparr>cs_phys_hit := cs_phys_hit st + 1\<rparr> else st\<lparr>cs_remote_hit := cs_remote_hit st + 1\<rparr>
      else st)"

definition cs_admit_ttft :: "'g CsEnv \<Rightarrow> Request \<Rightarrow> nat \<Rightarrow> int \<Rightarrow> int \<Rightarrow> 'g CsState \<Rightarrow> bool \<times> 'g CsState" where
  "cs_admit_ttft env r z now it st =
     (let d = ce_d env;
          wait_us = dbl (now - r_arrival r) * round_us d;
          (comp_us, st) =
            (if 0 < r_turn r
             then (case cache_lookup (r_id r) now (cs_cache st) of
                     (lk, c) \<Rightarrow>
                       let comp_us = return_us d r lk; st = st\<lparr>cs_cache := c\<rparr>
                       in (comp_us,
                           if ce_warm env \<le> it
                           then cs_count_hit z lk (st\<lparr>cs_m := record_return d r lk comp_us (cs_m st)\<rparr>) else st))
             else (prefill_us d (r_prompt r), st));
          ttft = wait_us + comp_us
      in if ce_warm env \<le> it
         then (case record_ttft ttft (ce_slo env) (cs_k st) of
                 (met, k) \<Rightarrow> (met, st\<lparr>cs_m := (cs_m st)\<lparr>m_ttft := m_ttft (cs_m st) @ [ttft]\<rparr>, cs_k := k\<rparr>))
         else (ttft \<le> t_ttft_us (ce_slo env), st))"

definition decoder_of :: "Request \<Rightarrow> bool \<Rightarrow> SimDecoder" where
  "decoder_of r met =
     \<lparr>sd_id = r_id r, sd_prompt = r_prompt r, sd_max_tokens = r_max_tokens r, sd_dec = 0, sd_wait = 0,
      sd_turn = r_turn r, sd_cached_prefix = r_cached_prefix r, sd_met_ttft = met, sd_max_gap = 0\<rparr>"

section \<open>The cold start\<close>

text \<open>The decoders that the global scheduler placed on node \<open>z\<close>; their ids come from a counter of their own.\<close>

fun cs_cold_admit ::
  "'g CsEnv \<Rightarrow> nat \<Rightarrow> int list \<Rightarrow> 'g \<Rightarrow> int \<Rightarrow> SimDecoder list \<Rightarrow> 'g CsState \<Rightarrow> SimDecoder list \<times> 'g \<times> int \<times> 'g CsState" where
  "cs_cold_admit env z [] rng dec_id pl st = (pl, rng, dec_id, st)"
| "cs_cold_admit env z (prompt # lens) rng dec_id pl st =
     (case lib_int (ce_lib env) (dtot_lo (ce_mt env)) (dtot_hi (ce_mt env)) rng of
        (dtot, rng) \<Rightarrow>
          let r0 = \<lparr>r_id = dec_id, r_prompt = prompt, r_max_tokens = dtot, r_cached_prefix = 0, r_arrival = 0, r_turn = 0\<rparr>
          in case cs_admit_ttft env r0 z 0 (- 1) st of
               (met, st) \<Rightarrow> cs_cold_admit env z lens rng (dec_id + 1)
                 (pl @ [decoder_of r0 met]) st)"

definition cs_hole :: "'g CsEnv \<Rightarrow> SimDecoder list \<Rightarrow> 'g \<Rightarrow> int \<times> 'g" where
  "cs_hole env pl rng =
     (if pl = [] then (to_i32 (ctx_balance (ce_op env)), rng)
      else case lib_next (ce_lib env) rng of (n, rng) \<Rightarrow> (sd_prompt (pl ! (n mod length pl)), rng))"

function cs_top_up ::
  "'g CsEnv \<Rightarrow> nat \<Rightarrow> 'g \<Rightarrow> SimDecoder list \<Rightarrow> 'g CsState \<Rightarrow> SimDecoder list \<times> 'g \<times> 'g CsState" where
  "cs_top_up env z rng pl st =
     (if int (length pl) < decode_pool (ce_op env)
      then (case cs_hole env pl rng of
              (hole, rng) \<Rightarrow>
                (case gq_pull_slot (cs_queue st) (dbl hole) (ce_cap_room env) 0 of
                   (r, q) \<Rightarrow>
                     let st = st\<lparr>cs_queue := q\<rparr>
                     in if r_id r < 0 then (pl, rng, st)
                        else (case cs_admit_ttft env r z 0 (- 1) st of
                                (met, st) \<Rightarrow> cs_top_up env z rng (pl @ [decoder_of r met]) st)))
      else (pl, rng, st))"
  by pat_completeness auto
termination
  by (relation "measure (\<lambda>(env, z, rng, pl, st). nat (decode_pool (ce_op env) - int (length pl)))") auto

declare cs_top_up.simps [simp del]

definition cs_cold_node :: "'g CsEnv \<Rightarrow> ClusterNode list \<Rightarrow> nat \<Rightarrow> 'g \<times> int \<times> 'g CsState \<Rightarrow> 'g \<times> int \<times> 'g CsState" where
  "cs_cold_node env cnodes z acc =
     (case acc of
        (rng, dec_id, st) \<Rightarrow>
          let take_n = min (int (length (cn_lengths (cnodes ! z)))) (decode_pool (ce_op env))
          in case cs_cold_admit env z (take (nat take_n) (cn_lengths (cnodes ! z))) rng dec_id (cs_pools st ! z) st of
               (pl, rng, dec_id, st) \<Rightarrow>
                 (case cs_top_up env z rng pl st of
                    (pl, rng, st) \<Rightarrow> (rng, dec_id, st\<lparr>cs_pools := (cs_pools st)[z := pl]\<rparr>)))"

definition cs_cold_start :: "'g CsEnv \<Rightarrow> 'g CsState \<Rightarrow> 'g CsState" where
  "cs_cold_start env st =
     (case draw_list (ce_lib env) (nat (int (ce_Z env) * decode_pool (ce_op env) * 2)) (lib_seed (ce_lib env) (ce_seed env)) of
        (draw, init_rng) \<Rightarrow>
          let g = gate draw (ce_op env);
              cnodes = fst (cold_start (lib_shuffle (ce_lib env)) (kept g)
                (replicate (ce_Z env) \<lparr>cn_lengths = [], cn_total = 0\<rparr>) (ce_op env) (ce_seed env))
          in snd (snd (fold (cs_cold_node env cnodes) [0..<ce_Z env] (init_rng, 0, st))))"

text \<open>The seed of the population comes first.\<close>

definition csched_init :: "'g CsEnv \<Rightarrow> int \<Rightarrow> 'g CsState \<Rightarrow> 'g CsState option" where
  "csched_init env backlog st =
     (case seed_queue (ce_lib env) (nat (backlog + 2 * int (ce_Z env))) (cs_wl st) (cs_queue st) of
        None \<Rightarrow> None
      | Some (q, w) \<Rightarrow> Some (cs_cold_start env (st\<lparr>cs_queue := q, cs_wl := w\<rparr>)))"

section \<open>The round\<close>

text \<open>Returns that are due: a conversation whose cache is in some node's HBM goes in line there.\<close>

definition cs_route :: "'g CsEnv \<Rightarrow> Request \<Rightarrow> 'g CsState \<Rightarrow> 'g CsState" where
  "cs_route env r st =
     (if ce_affinity env
      then (let pk = cache_peek (r_id r) (cs_cache st)
            in if l_result pk = Hit
               then st\<lparr>cs_aff := (cs_aff st)[nat (l_node pk) := cs_aff st ! nat (l_node pk) @ [r]]\<rparr>
               else st\<lparr>cs_queue := gq_push r (cs_queue st)\<rparr>)
      else st\<lparr>cs_queue := gq_push r (cs_queue st)\<rparr>)"

text \<open>The scan of one line, in which a removal moves the last request into the gap.\<close>

function spill_line :: "int \<Rightarrow> int \<Rightarrow> nat \<Rightarrow> Request list \<Rightarrow> GlobalQueue \<Rightarrow> int \<Rightarrow> Request list \<times> GlobalQueue \<times> int" where
  "spill_line cap now i az q spills =
     (if i < length az
      then if cap < now - r_arrival (az ! i)
           then spill_line cap now i (butlast (az[i := last az])) (gq_push (az ! i) q) (spills + 1)
           else spill_line cap now (i + 1) az q spills
      else (az, q, spills))"
  by pat_completeness auto
termination
  by (relation "measure (\<lambda>(cap, now, i, az, q, spills). length az - i)") auto

declare spill_line.simps [simp del]

definition cs_spill_node :: "'g CsEnv \<Rightarrow> int \<Rightarrow> nat \<Rightarrow> 'g CsState \<Rightarrow> 'g CsState" where
  "cs_spill_node env now z st =
     (case spill_line (ce_spill_cap env) now 0 (cs_aff st ! z) (cs_queue st) (cs_aff_spills st) of
        (az, q, n) \<Rightarrow> st\<lparr>cs_aff := (cs_aff st)[z := az], cs_queue := q, cs_aff_spills := n\<rparr>)"

definition cs_spill :: "'g CsEnv \<Rightarrow> int \<Rightarrow> 'g CsState \<Rightarrow> 'g CsState" where
  "cs_spill env now st = (if ce_affinity env then fold (cs_spill_node env now) [0..<ce_Z env] st else st)"

text \<open>The KV sum of a micro-batch and how many of its decoders met their first-token target.\<close>

definition mb_stats :: "SimDecoder list \<Rightarrow> nat list \<Rightarrow> int \<times> int" where
  "mb_stats pl p =
     fold (\<lambda>i (s, metc). (s + sd_live_kv (pl ! i), if sd_met_ttft (pl ! i) then metc + 1 else metc)) p (0, 0)"

definition cs_record_mb :: "'g CsEnv \<Rightarrow> int \<Rightarrow> bool \<Rightarrow> SimDecoder list \<Rightarrow> nat list \<Rightarrow> 'g CsState \<Rightarrow> 'g CsState" where
  "cs_record_mb env it b2 pl p st =
     (case mb_stats pl p of
        (s, metc) \<Rightarrow>
          if ce_warm env \<le> it
          then st\<lparr>cs_m := record_batch (int (length p)) s (ce_op env) b2 (cs_m st),
                  cs_k := record_mubatch (int (length p)) s metc (ce_d env) (ce_slo env) (ce_beta env) (cs_k st)\<rparr>
          else st)"

definition cs_decoders :: "SimDecoder list \<Rightarrow> Decoder list" where
  "cs_decoders pl = map (\<lambda>q. \<lparr>kv_length = sd_live_kv q, wait = sd_wait q\<rparr>) pl"

definition cs_compose :: "'g CsEnv \<Rightarrow> int \<Rightarrow> SimDecoder list \<Rightarrow> 'g CsState \<Rightarrow> bool list \<times> 'g CsState" where
  "cs_compose env it pl st =
     (case compose_round (cs_decoders pl) (ce_op env) of
        (p1, p2, used) \<Rightarrow>
          let st = cs_record_mb env it False pl p1 st
          in (used, case p2 of None \<Rightarrow> st | Some p \<Rightarrow> cs_record_mb env it True pl p st))"

text \<open>A decoder that gets its turn produces a token; the gap since the last one is recorded.\<close>

definition cs_step_decoder :: "bool \<Rightarrow> SimDecoder \<Rightarrow> SimDecoder" where
  "cs_step_decoder u q =
     (if u
      then (let gap = sd_wait q + 1;
                q = (if sd_max_gap q < gap then q\<lparr>sd_max_gap := gap\<rparr> else q)
            in q\<lparr>sd_dec := sd_dec q + 1, sd_wait := 0\<rparr>)
      else q\<lparr>sd_wait := sd_wait q + 1\<rparr>)"

definition cs_gaps :: "bool list \<Rightarrow> SimDecoder list \<Rightarrow> int list" where
  "cs_gaps used pl = map (\<lambda>i. sd_wait (pl ! i) + 1) (filter (\<lambda>i. used ! i) [0..<length pl])"

definition cs_advance :: "'g CsEnv \<Rightarrow> int \<Rightarrow> bool list \<Rightarrow> SimDecoder list \<Rightarrow> 'g CsState \<Rightarrow> SimDecoder list \<times> 'g CsState" where
  "cs_advance env it used pl st =
     (map (\<lambda>i. cs_step_decoder (used ! i) (pl ! i)) [0..<length pl],
      if ce_warm env \<le> it then st\<lparr>cs_gap_all := fold gap_add (cs_gaps used pl) (cs_gap_all st)\<rparr> else st)"

definition cs_finished :: "SimDecoder \<Rightarrow> bool" where
  "cs_finished q \<longleftrightarrow> sd_max_tokens q \<le> sd_dec q"

text \<open>A finished decoder leaves its cache, and its conversation goes away or ends.\<close>

definition cs_complete :: "'g CsEnv \<Rightarrow> nat \<Rightarrow> int \<Rightarrow> int \<Rightarrow> SimDecoder \<Rightarrow> 'g CsState \<Rightarrow> 'g CsState option" where
  "cs_complete env z now it q st =
     (let st = (if ce_warm env \<le> it then st\<lparr>cs_gap_reqmax := gap_add (sd_max_gap q) (cs_gap_reqmax st)\<rparr> else st);
          st = st\<lparr>cs_cache := on_complete z (sd_id q) (sd_prompt q + sd_dec q) now (cs_cache st)\<rparr>;
          asReq = \<lparr>r_id = sd_id q, r_prompt = sd_prompt q, r_max_tokens = sd_max_tokens q,
                   r_cached_prefix = sd_cached_prefix q, r_arrival = now, r_turn = sd_turn q\<rparr>
      in case maybe_return (ce_lib env) asReq now (cs_wl st) of
           (ret, w) \<Rightarrow>
             let st = st\<lparr>cs_wl := w\<rparr>
             in if ret_returns ret then Some (st\<lparr>cs_pend := pending_add (ret_round ret) (ret_next ret) (cs_pend st)\<rparr>)
                else (case fresh_arrival (ce_lib env) now (cs_wl st) of
                        None \<Rightarrow> None
                      | Some (r, w) \<Rightarrow> Some (st\<lparr>cs_wl := w, cs_queue := gq_push r (cs_queue st)\<rparr>)))"

fun cs_retire ::
  "'g CsEnv \<Rightarrow> nat \<Rightarrow> int \<Rightarrow> int \<Rightarrow> SimDecoder list \<Rightarrow> 'g CsState \<Rightarrow> (SimDecoder list \<times> int list \<times> 'g CsState) option" where
  "cs_retire env z now it [] st = Some ([], [], st)"
| "cs_retire env z now it (q # qs) st =
     (if cs_finished q
      then (case cs_complete env z now it q st of
              None \<Rightarrow> None
            | Some st \<Rightarrow>
                (case cs_retire env z now it qs st of
                   None \<Rightarrow> None
                 | Some (keep, holes, st) \<Rightarrow> Some (keep, sd_prompt q # holes, st)))
      else (case cs_retire env z now it qs st of
              None \<Rightarrow> None
            | Some (keep, holes, st) \<Rightarrow> Some (q # keep, holes, st)))"

text \<open>The request of a line that has waited longest, the first of several.\<close>

definition oldest_in_line :: "Request list \<Rightarrow> nat" where
  "oldest_in_line az = fold (\<lambda>i best. if r_arrival (az ! i) < r_arrival (az ! best) then i else best) [1..<length az] 0"

definition cs_from_line :: "nat \<Rightarrow> int \<Rightarrow> 'g CsState \<Rightarrow> Request \<times> 'g CsState" where
  "cs_from_line z now st =
     (let az = cs_aff st ! z; best = oldest_in_line az; r = az ! best;
          st = st\<lparr>cs_aff := (cs_aff st)[z := butlast (az[best := last az])], cs_aff_admits := cs_aff_admits st + 1\<rparr>
      in (r, if cs_aff_wait_max st < now - r_arrival r then st\<lparr>cs_aff_wait_max := now - r_arrival r\<rparr> else st))"

definition cs_admit :: "'g CsEnv \<Rightarrow> nat \<Rightarrow> int \<Rightarrow> int \<Rightarrow> Request \<Rightarrow> SimDecoder list \<Rightarrow> 'g CsState \<Rightarrow> SimDecoder list \<times> 'g CsState" where
  "cs_admit env z now it r pl st = (case cs_admit_ttft env r z now it st of (met, st) \<Rightarrow> (pl @ [decoder_of r met], st))"

fun cs_heal ::
  "'g CsEnv \<Rightarrow> nat \<Rightarrow> int \<Rightarrow> int \<Rightarrow> int list \<Rightarrow> SimDecoder list \<Rightarrow> 'g CsState \<Rightarrow> SimDecoder list \<times> 'g CsState" where
  "cs_heal env z now it [] pl st = (pl, st)"
| "cs_heal env z now it (hole # holes) pl st =
     (if ce_affinity env \<and> cs_aff st ! z \<noteq> []
      then (case cs_from_line z now st of
              (r, st) \<Rightarrow> (case cs_admit env z now it r pl st of (pl, st) \<Rightarrow> cs_heal env z now it holes pl st))
      else (case gq_pull_slot (cs_queue st) (dbl hole) (ce_cap_room env) now of
              (r, q) \<Rightarrow>
                if r_id r < 0 then (pl, st\<lparr>cs_queue := q\<rparr>)
                else (case cs_admit env z now it r pl (st\<lparr>cs_queue := q\<rparr>) of
                        (pl, st) \<Rightarrow> cs_heal env z now it holes pl st)))"

definition pool_stats :: "SimDecoder list \<Rightarrow> int \<times> int list" where
  "pool_stats pl =
     fold (\<lambda>q (s, rc). (s + sd_live_kv q, rc[class_of (sd_prompt q) := rc ! class_of (sd_prompt q) + 1])) pl (0, [0, 0, 0])"

definition cs_excess :: "'g CsEnv \<Rightarrow> int \<Rightarrow> int" where
  "cs_excess env s =
     (let actual_bytes = s * ce_kv_bpt env
      in if ce_design_pool_bytes env < actual_bytes then actual_bytes - ce_design_pool_bytes env else 0)"

definition cs_diagnose ::
  "'g CsEnv \<Rightarrow> nat \<Rightarrow> int \<Rightarrow> SimDecoder list \<Rightarrow> 'g CsState \<times> PoolAcc \<Rightarrow> 'g CsState \<times> PoolAcc" where
  "cs_diagnose env z it pl sa =
     (case sa of
        (st, acc) \<Rightarrow>
          (case pool_stats pl of
             (s, rc) \<Rightarrow>
               let excess = cs_excess env s;
                   st = (if ce_warm env \<le> it
                         then st\<lparr>cs_excess_sum := cs_excess_sum st + dbl excess, cs_excess_n := cs_excess_n st + 1\<rparr> else st);
                   st = (if ce_dyncache env
                         then st\<lparr>cs_cache := enforce_budget z (ce_cache_cap env - excess) (cs_cache st)\<rparr> else st)
               in (st,
                   if ce_warm env \<le> it \<and> pl \<noteq> []
                   then acc\<lparr>pa_mean := pa_mean acc + dbl s / dbl (int (length pl)),
                            pa_resid := map (\<lambda>c. pa_resid acc ! c + dbl (rc ! c) / dbl (int (length pl))) [0..<3],
                            pa_nodes := pa_nodes acc + 1\<rparr>
                   else acc)))"

definition cs_node_step :: "'g CsEnv \<Rightarrow> int \<Rightarrow> nat \<Rightarrow> 'g CsState \<times> PoolAcc \<Rightarrow> ('g CsState \<times> PoolAcc) option" where
  "cs_node_step env it z sa =
     (case sa of
        (st, acc) \<Rightarrow>
          (case cs_compose env it (cs_pools st ! z) st of
             (used, st) \<Rightarrow>
               (case cs_advance env it used (cs_pools st ! z) st of
                  (pl, st) \<Rightarrow>
                    (case cs_retire env z it it pl st of
                       None \<Rightarrow> None
                     | Some (keep, holes, st) \<Rightarrow>
                         (case cs_heal env z it it holes keep st of
                            (pl, st) \<Rightarrow> Some (cs_diagnose env z it pl (st\<lparr>cs_pools := (cs_pools st)[z := pl]\<rparr>, acc)))))))"

fun cs_nodes :: "'g CsEnv \<Rightarrow> int \<Rightarrow> nat list \<Rightarrow> 'g CsState \<times> PoolAcc \<Rightarrow> ('g CsState \<times> PoolAcc) option" where
  "cs_nodes env it [] sa = Some sa"
| "cs_nodes env it (z # zs) sa = (case cs_node_step env it z sa of None \<Rightarrow> None | Some sa \<Rightarrow> cs_nodes env it zs sa)"

definition cs_arrivals :: "'g CsEnv \<Rightarrow> int \<Rightarrow> 'g CsState \<Rightarrow> 'g CsState" where
  "cs_arrivals env now st =
     (let st = st\<lparr>cs_cache := evict_tick now (cs_cache st)\<rparr>
      in case pending_due now (cs_pend st) of
           (due, p) \<Rightarrow> cs_spill env now (fold (cs_route env) due (st\<lparr>cs_pend := p\<rparr>)))"

definition csched_round :: "'g CsEnv \<Rightarrow> int \<Rightarrow> 'g CsState \<Rightarrow> 'g CsState option" where
  "csched_round env it st =
     (case cs_nodes env it [0..<ce_Z env]
             (cs_arrivals env it st, \<lparr>pa_resid = [dlit 0, dlit 0, dlit 0], pa_mean = dlit 0, pa_nodes = 0\<rparr>) of
        None \<Rightarrow> None
      | Some (st, acc) \<Rightarrow>
          Some (if ce_warm env \<le> it \<and> 0 < pa_nodes acc
                then st\<lparr>cs_m := record_pool (pa_mean acc / dbl (pa_nodes acc))
                       (map (\<lambda>c. pa_resid acc ! c / dbl (pa_nodes acc)) [0..<3]) (cs_m st)\<rparr>
                else st))"

fun csched_loop :: "'g CsEnv \<Rightarrow> nat \<Rightarrow> int \<Rightarrow> 'g CsState \<Rightarrow> 'g CsState option" where
  "csched_loop env 0 it st = Some st"
| "csched_loop env (Suc n) it st =
     (case csched_round env it st of None \<Rightarrow> None | Some st \<Rightarrow> csched_loop env n (it + 1) st)"

section \<open>The driver\<close>

text \<open>What the lines after the loop print.\<close>

record CsReport =
  rp_summary :: Summary
  rp_forced :: int
  rp_kpi :: KpiSummary
  rp_queue_size :: int
  rp_max_wait :: int
  rp_gap_mean :: double
  rp_gap_p99 :: int
  rp_gap_max :: int
  rp_paused :: double
  rp_reqmax_mean :: double
  rp_reqmax_p99 :: int
  rp_reqmax_max :: int
  rp_reqs :: int
  rp_phys_hit :: int
  rp_remote_hit :: int
  rp_phys_share :: double
  rp_aff_admits :: int
  rp_aff_spills :: int
  rp_aff_wait_max :: int
  rp_excess_tb :: double
  rp_cache_cap_tb :: double

definition csched_report :: "'g CsEnv \<Rightarrow> int \<Rightarrow> 'g CsState \<Rightarrow> CsReport" where
  "csched_report env iters st =
     (let m = (cs_m st)\<lparr>m_forced := gq_forced (cs_queue st)\<rparr>;
          k = (cs_k st)\<lparr>k_sim_us := dbl (iters - ce_warm env) * round_us (ce_d env)\<rparr>;
          gall = cs_gap_all st; greq = cs_gap_reqmax st;
          hits_tot = cs_phys_hit st + cs_remote_hit st
      in \<lparr>rp_summary = print_summary m, rp_forced = m_forced m, rp_kpi = kpi_print k,
          rp_queue_size = gq_size (cs_queue st), rp_max_wait = gq_max_wait (cs_queue st) iters,
          rp_gap_mean = gap_mean gall, rp_gap_p99 = gap_pctl gall (dlit (99 / 100)), rp_gap_max = gh_mx gall,
          rp_paused = (if gh_n gall \<noteq> 0 then dlit 100 * dbl (gap_count_gt gall 1) / dbl (gh_n gall) else dlit 0),
          rp_reqmax_mean = gap_mean greq, rp_reqmax_p99 = gap_pctl greq (dlit (99 / 100)), rp_reqmax_max = gh_mx greq,
          rp_reqs = gh_n greq,
          rp_phys_hit = cs_phys_hit st, rp_remote_hit = cs_remote_hit st,
          rp_phys_share = (if hits_tot \<noteq> 0 then dlit 100 * dbl (cs_phys_hit st) / dbl hits_tot else dlit 0),
          rp_aff_admits = cs_aff_admits st, rp_aff_spills = cs_aff_spills st, rp_aff_wait_max = cs_aff_wait_max st,
          rp_excess_tb = (if cs_excess_n st \<noteq> 0 then cs_excess_sum st / dbl (cs_excess_n st) / dlit (10 ^ 12) else dlit 0),
          rp_cache_cap_tb = dbl (ce_cache_cap env) / dlit (10 ^ 12)\<rparr>)"

definition csched_run :: "'g CsEnv \<Rightarrow> CsArgs \<Rightarrow> SimConfig \<Rightarrow> int \<Rightarrow> int \<Rightarrow> nat \<Rightarrow> 'g CsState option" where
  "csched_run env a cfg cutoff backlog iters =
     (case csched_init env backlog (csched_state env a cfg cutoff) of
        None \<Rightarrow> None
      | Some st \<Rightarrow> csched_loop env iters 0 st)"

definition csched_main :: "'g Lib \<Rightarrow> CsArgs \<Rightarrow> CsReport option" where
  "csched_main lib a =
     (let d = make_deployment; cfg = default_sim;
          iters = given (arg_iters a) (sc_iters cfg);
          env = csched_env lib d a cfg
      in case csched_run env a cfg (edge_cutoff lib (ce_op env) (ce_seed env)) (given (arg_seed_backlog a) (sc_seed_backlog cfg)) (nat iters) of
           None \<Rightarrow> None
         | Some st \<Rightarrow> Some (csched_report env iters st))"

end
