(* ===== verification/Csched_Correct.thy ===== *)
theory Csched_Correct
  imports Csched
begin

text \<open>
  Correctness of the driver: every round refines the transition system of \<open>Conversation\<close>,
  so that no conversation is lost or duplicated; the state stays well formed, with the
  cache within its budgets and the counters consistent; lines are served oldest first
  and before the queue, and nobody stays in line beyond the spill cap.
\<close>

section \<open>Admission: what it leaves alone\<close>

text \<open>Admission touches the cache, the metrics, the indicators and the hit counters only.\<close>

definition cs_lookups :: "'g CsState \<Rightarrow> 'g CsState \<Rightarrow> bool" where
  "cs_lookups st st' \<longleftrightarrow> (cs_cache st' = cs_cache st \<or> (\<exists>i now. cs_cache st' = snd (cache_lookup i now (cs_cache st))))"

lemma cs_admit_ttft_frame:
  assumes "cs_admit_ttft env r z now it st = (met, st')"
  shows "cs_queue st' = cs_queue st" "cs_wl st' = cs_wl st" "cs_pend st' = cs_pend st" "cs_aff st' = cs_aff st"
    "cs_pools st' = cs_pools st" "cs_gap_all st' = cs_gap_all st" "cs_gap_reqmax st' = cs_gap_reqmax st" "cs_lookups st st'"
    "cs_aff_admits st' = cs_aff_admits st" "cs_aff_spills st' = cs_aff_spills st"
  using assms
  by (auto simp: cs_admit_ttft_def Let_def cs_count_hit_def cs_lookups_def split: prod.splits if_splits)
    (metis snd_conv)+

definition counters_ok :: "'g CsState \<Rightarrow> bool" where
  "counters_ok st \<longleftrightarrow> metrics_inv (cs_m st) \<and> kpi_inv (cs_k st)
     \<and> m_returns (cs_m st) = m_hbm_hit (cs_m st) + m_ssd_reload (cs_m st) + m_recompute (cs_m st)
     \<and> m_hbm_hit (cs_m st) = cs_phys_hit st + cs_remote_hit st"

lemma cs_admit_ttft_counters:
  assumes "cs_admit_ttft env r z now it st = (met, st')" and "counters_ok st" shows "counters_ok st'"
proof -
  obtain lk c where lk: "cache_lookup (r_id r) now (cs_cache st) = (lk, c)" by fastforce
  have k: "kpi_inv k \<Longrightarrow> record_ttft x s k = (met, k') \<Longrightarrow> kpi_inv k'" for x s k k' met
    using record_ttft_inv [of k x s] by simp
  show ?thesis
    using assms k record_return_inv
    by (cases "l_result lk")
      (auto simp: cs_admit_ttft_def Let_def cs_count_hit_def lk counters_ok_def metrics_inv_ttft record_return_counts
        split: prod.splits if_splits)
qed

section \<open>The population of a state\<close>

definition ids_in :: "SimDecoder list \<Rightarrow> int multiset" where
  "ids_in pl = image_mset sd_id (mset pl)"

lemma ids_in_simps [simp]:
  "ids_in [] = {#}" "ids_in (q # qs) = add_mset (sd_id q) (ids_in qs)" "ids_in (xs @ ys) = ids_in xs + ids_in ys"
  "ids_in [decoder_of r met] = {#r_id r#}"
  by (simp_all add: ids_in_def decoder_of_def)

text \<open>The population when the multiset \<open>R\<close> of conversations is resident; a round takes a pool out and puts it back.\<close>

definition cs_pop :: "int multiset \<Rightarrow> 'g CsState \<Rightarrow> Population" where
  "cs_pop R st =
     \<lparr>residents = R, in_queue = ids_of (gq_q (cs_queue st)), in_line = ids_of (concat (cs_aff st)),
      away = ids_of (map snd (by_round (cs_pend st))), next_conv = mt_next_id (cs_wl st)\<rparr>"

definition cs_abs :: "'g CsState \<Rightarrow> Population" where
  "cs_abs st = cs_pop (ids_in (concat (cs_pools st))) st"

lemma cs_pop_simps [simp]:
  "residents (cs_pop R st) = R" "in_queue (cs_pop R st) = ids_of (gq_q (cs_queue st))"
  "in_line (cs_pop R st) = ids_of (concat (cs_aff st))" "away (cs_pop R st) = ids_of (map snd (by_round (cs_pend st)))"
  "next_conv (cs_pop R st) = mt_next_id (cs_wl st)"
  by (simp_all add: cs_pop_def)

lemma cs_pop_same:
  "cs_queue st' = cs_queue st \<Longrightarrow> cs_aff st' = cs_aff st \<Longrightarrow> cs_pend st' = cs_pend st \<Longrightarrow> cs_wl st' = cs_wl st \<Longrightarrow>
     cs_pop R st' = cs_pop R st"
  by (simp add: cs_pop_def)

lemma cs_admit_ttft_pop: "cs_admit_ttft env r z now it st = (met, st') \<Longrightarrow> cs_pop R st' = cs_pop R st"
  by (rule cs_pop_same) (simp_all add: cs_admit_ttft_frame)

lemma ids_in_concat_update:
  "z < length xss \<Longrightarrow> ids_in (concat (xss[z := ys])) + ids_in (xss ! z) = ids_in (concat xss) + ids_in ys"
  using concat_update_mset [of z xss ys] by (simp add: ids_in_def flip: image_mset_union)

section \<open>Well-formed states\<close>

definition decoder_ok :: "SimDecoder \<Rightarrow> bool" where
  "decoder_ok q \<longleftrightarrow> 0 \<le> sd_id q \<and> 0 \<le> sd_prompt q \<and> 0 \<le> sd_max_tokens q \<and> 0 \<le> sd_dec q \<and> 0 \<le> sd_wait q"

lemma decoder_of_ok: "rq_ok r \<Longrightarrow> decoder_ok (decoder_of r met)"
  by (simp add: rq_ok_def decoder_ok_def decoder_of_def)

abbreviation env_ok :: "'g CsEnv \<Rightarrow> bool" where
  "env_ok env \<equiv> sim_ok (ce_lib env) (ce_mt env)"

definition cs_ok :: "'g CsEnv \<Rightarrow> 'g CsState \<Rightarrow> bool" where
  "cs_ok env st \<longleftrightarrow> cache_inv (cs_cache st) \<and> length (node_budget (cs_cache st)) = ce_Z env
     \<and> length (cs_aff st) = ce_Z env \<and> length (cs_pools st) = ce_Z env \<and> pending_ok (cs_pend st) \<and> counters_ok st
     \<and> (\<forall>r \<in> set (gq_q (cs_queue st)). rq_ok r) \<and> (\<forall>r \<in> set (concat (cs_aff st)). rq_ok r)
     \<and> (\<forall>x \<in> set (by_round (cs_pend st)). rq_ok (snd x)) \<and> mt_cfg (cs_wl st) = ce_mt env \<and> 0 \<le> mt_next_id (cs_wl st)"

lemma cs_admit_ttft_ok:
  assumes "cs_admit_ttft env r z now it st = (met, st')" and "cs_ok env st" shows "cs_ok env st'"
  using cs_admit_ttft_frame [OF assms(1)] cs_admit_ttft_counters [OF assms(1)] assms(2)
  by (auto simp: cs_ok_def cs_lookups_def lookup_inv budget_length)

section \<open>Arrivals of a round\<close>

lemma peek_hit_node:
  assumes "cache_inv c" and "l_result (cache_peek i c) = Hit"
  shows "\<exists>e. map_of (cc_idx c) i = Some e \<and> e_tier e = HBM \<and> l_node (cache_peek i c) = int (e_node e)
    \<and> e_node e < length (node_budget c)"
proof -
  obtain e where e: "map_of (cc_idx c) i = Some e" "e_tier e = HBM"
    using assms(2) by (auto simp: cache_peek_def split: option.splits Tier.splits)
  then have "e_node e < length (node_budget c)" using assms(1) map_of_SomeD [OF e(1)] by (auto simp: cache_inv_def)
  with e show ?thesis by (simp add: cache_peek_def)
qed

text \<open>A due return goes in line at the holder of its cache or into the queue.\<close>

lemma cs_route_cases:
  assumes "cs_ok env st"
  obtains (line) z where "z < ce_Z env" "cs_route env r st = st\<lparr>cs_aff := (cs_aff st)[z := cs_aff st ! z @ [r]]\<rparr>"
  | (queue) "cs_route env r st = st\<lparr>cs_queue := gq_push r (cs_queue st)\<rparr>"
proof (cases "ce_affinity env \<and> l_result (cache_peek (r_id r) (cs_cache st)) = Hit")
  case True
  moreover have c: "cache_inv (cs_cache st)" "length (node_budget (cs_cache st)) = ce_Z env" using assms by (simp_all add: cs_ok_def)
  ultimately have "\<exists>e :: Entry. l_node (cache_peek (r_id r) (cs_cache st)) = int (e_node e) \<and> e_node e < ce_Z env"
    using peek_hit_node [OF c(1), of "r_id r"] by metis
  then obtain e :: Entry where "l_node (cache_peek (r_id r) (cs_cache st)) = int (e_node e)" "e_node e < ce_Z env" by blast
  with True show thesis by (intro line [of "e_node e"]) (simp_all add: cs_route_def Let_def)
next
  case False
  then show thesis by (intro queue) (auto simp: cs_route_def Let_def)
qed

lemma cs_route_step:
  assumes "cs_ok env st" and "rq_ok r"
  shows "cs_ok env (cs_route env r st)"
    and "pop_step ((cs_pop R st)\<lparr>away := add_mset (r_id r) A\<rparr>) ((cs_pop R (cs_route env r st))\<lparr>away := A\<rparr>)"
proof -
  have "cs_ok env (cs_route env r st)
    \<and> pop_step ((cs_pop R st)\<lparr>away := add_mset (r_id r) A\<rparr>) ((cs_pop R (cs_route env r st))\<lparr>away := A\<rparr>)"
    using assms(1)
  proof (cases rule: cs_route_cases [where r = r])
    case (line z)
    have len: "length (cs_aff st) = ce_Z env" using assms(1) by (simp add: cs_ok_def)
    then have z: "z < length (cs_aff st)" using line(1) by simp
    have "ids_of (concat ((cs_aff st)[z := cs_aff st ! z @ [r]])) = add_mset (r_id r) (ids_of (concat (cs_aff st)))"
      using ids_of_concat_update [OF z, of "cs_aff st ! z @ [r]"] by simp
    then have "(cs_pop R (cs_route env r st))\<lparr>away := A\<rparr>
        = ((cs_pop R st)\<lparr>away := add_mset (r_id r) A\<rparr>)\<lparr>away := A, in_line := add_mset (r_id r) (in_line ((cs_pop R st)\<lparr>away := add_mset (r_id r) A\<rparr>))\<rparr>"
      by (simp add: line(2) cs_pop_def)
    moreover have "\<forall>x \<in> set (concat ((cs_aff st)[z := cs_aff st ! z @ [r]])). rq_ok x"
    proof
      fix x assume "x \<in> set (concat ((cs_aff st)[z := cs_aff st ! z @ [r]]))"
      then have "x \<in> set (concat (cs_aff st)) \<or> x = r" using in_concat_update z nth_mem [OF z] by fastforce
      with assms show "rq_ok x" by (auto simp: cs_ok_def)
    qed
    moreover have "pop_step ((cs_pop R st)\<lparr>away := add_mset (r_id r) A\<rparr>) (((cs_pop R st)\<lparr>away := add_mset (r_id r) A\<rparr>)
        \<lparr>away := A, in_line := add_mset (r_id r) (in_line ((cs_pop R st)\<lparr>away := add_mset (r_id r) A\<rparr>))\<rparr>)"
      by (rule returns_to_line) simp
    ultimately show ?thesis using assms(1) line(2) by (simp add: cs_ok_def counters_ok_def)
  next
    case queue
    have "(cs_pop R (cs_route env r st))\<lparr>away := A\<rparr>
        = ((cs_pop R st)\<lparr>away := add_mset (r_id r) A\<rparr>)\<lparr>away := A, in_queue := add_mset (r_id r) (in_queue ((cs_pop R st)\<lparr>away := add_mset (r_id r) A\<rparr>))\<rparr>"
      by (simp add: queue cs_pop_def)
    moreover have "pop_step ((cs_pop R st)\<lparr>away := add_mset (r_id r) A\<rparr>) (((cs_pop R st)\<lparr>away := add_mset (r_id r) A\<rparr>)
        \<lparr>away := A, in_queue := add_mset (r_id r) (in_queue ((cs_pop R st)\<lparr>away := add_mset (r_id r) A\<rparr>))\<rparr>)"
      by (rule returns_to_queue) simp
    moreover have "cs_ok env (cs_route env r st)" using assms queue by (auto simp: cs_ok_def counters_ok_def)
    ultimately show ?thesis by (simp only: simp_thms)
  qed
  then show "cs_ok env (cs_route env r st)"
    and "pop_step ((cs_pop R st)\<lparr>away := add_mset (r_id r) A\<rparr>) ((cs_pop R (cs_route env r st))\<lparr>away := A\<rparr>)" by simp_all
qed

lemma cs_route_fold:
  assumes "cs_ok env st" and "\<forall>r \<in> set rs. rq_ok r"
  shows "cs_ok env (fold (cs_route env) rs st)
    \<and> pop_steps ((cs_pop R st)\<lparr>away := ids_of rs + A\<rparr>) ((cs_pop R (fold (cs_route env) rs st))\<lparr>away := A\<rparr>)"
  using assms
proof (induction rs arbitrary: st)
  case (Cons r rs)
  then have r: "rq_ok r" by simp
  note s = cs_route_step [OF Cons.prems(1) r]
  have "pop_step ((cs_pop R st)\<lparr>away := ids_of (r # rs) + A\<rparr>) ((cs_pop R (cs_route env r st))\<lparr>away := ids_of rs + A\<rparr>)"
    using s(2) [where R = R and A = "ids_of rs + A"] by simp
  with Cons.IH [OF s(1)] Cons.prems(2) show ?case by (auto intro: converse_rtranclp_into_rtranclp)
qed simp

lemma pop_same: "in_line p = L \<Longrightarrow> in_queue p = Q \<Longrightarrow> p\<lparr>in_line := L, in_queue := Q\<rparr> = p"
  by (cases p) simp

lemma spill_line_result:
  assumes "spill_line cap now i az q n = (az', q', n')" and "i \<le> length az"
  shows "set az' \<subseteq> set az" "set (gq_q q') \<subseteq> set (gq_q q) \<union> set az"
    "\<forall>r \<in> set (drop i az'). now - r_arrival r \<le> cap" "take i az' = take i az" "n' = n + int (length az - length az')"
    "length az' \<le> length az" "gq_age_cap q' = gq_age_cap q" "gq_forced q' = gq_forced q"
    "in_line p = ids_of az + L \<Longrightarrow> in_queue p = ids_of (gq_q q) \<Longrightarrow>
       pop_steps p (p\<lparr>in_line := ids_of az' + L, in_queue := ids_of (gq_q q')\<rparr>)"
proof -
  have "set az' \<subseteq> set az \<and> set (gq_q q') \<subseteq> set (gq_q q) \<union> set az \<and> (\<forall>r \<in> set (drop i az'). now - r_arrival r \<le> cap)
    \<and> take i az' = take i az \<and> n' = n + int (length az - length az') \<and> length az' \<le> length az
    \<and> gq_age_cap q' = gq_age_cap q \<and> gq_forced q' = gq_forced q \<and> i \<le> length az'
    \<and> (\<forall>p. in_line p = ids_of az + L \<longrightarrow> in_queue p = ids_of (gq_q q) \<longrightarrow>
       pop_steps p (p\<lparr>in_line := ids_of az' + L, in_queue := ids_of (gq_q q')\<rparr>))"
    using assms
  proof (induction cap now i az q n rule: spill_line.induct)
    case (1 cap now i az q n)
    show ?case
    proof (cases "i < length az")
      case False
      with 1 have "az' = az" "q' = q" "n' = n" "i = length az" by (simp_all add: spill_line.simps [of cap now i az q n])
      then show ?thesis by (simp add: pop_same)
    next
      case i: True
      show ?thesis
      proof (cases "cap < now - r_arrival (az ! i)")
        case True
        let ?az = "butlast (az[i := last az])" and ?q = "gq_push (az ! i) q"
        have run: "spill_line cap now i ?az ?q (n + 1) = (az', q', n')"
          using 1(3) i True by (simp add: spill_line.simps [of cap now i az q n])
        have m: "mset az = add_mset (az ! i) (mset ?az)" by (rule mset_swap_pop [OF i])
        have ids: "ids_of az = add_mset (r_id (az ! i)) (ids_of ?az)" by (rule ids_of_swap_pop [OF i])
        have st: "set ?az \<subseteq> set az" "az ! i \<in> set az"
          using m i by (metis set_mset_mset set_mset_add_mset_insert subset_insertI, simp)
        have len: "length ?az = length az - 1" "i \<le> length ?az" using i by auto
        have tk: "take i ?az = take i az" using i by (simp add: take_butlast)
        note IH = 1(1) [OF i True run len(2)]
        have "pop_steps p (p\<lparr>in_line := ids_of az' + L, in_queue := ids_of (gq_q q')\<rparr>)"
          if p: "in_line p = ids_of az + L" "in_queue p = ids_of (gq_q q)" for p
        proof -
          let ?p = "p\<lparr>in_line := ids_of ?az + L, in_queue := ids_of (gq_q ?q)\<rparr>"
          have "pop_step p ?p"
            using spills [of p "r_id (az ! i)" "ids_of ?az + L"] p ids by simp
          moreover have "in_line p' = ids_of ?az + L \<Longrightarrow> in_queue p' = ids_of (gq_q ?q) \<Longrightarrow>
              pop_steps p' (p'\<lparr>in_line := ids_of az' + L, in_queue := ids_of (gq_q q')\<rparr>)" for p' :: Population
            using IH by blast
          from this [of ?p] have "pop_steps ?p (?p\<lparr>in_line := ids_of az' + L, in_queue := ids_of (gq_q q')\<rparr>)" by simp
          ultimately show ?thesis by (auto intro: converse_rtranclp_into_rtranclp)
        qed
        moreover have "set az' \<subseteq> set az" "set (gq_q q') \<subseteq> set (gq_q q) \<union> set az" using IH st by auto
        moreover have "n' = n + int (length az - length az')" "length az' \<le> length az" using IH len i by auto
        moreover have "gq_age_cap q' = gq_age_cap q" "gq_forced q' = gq_forced q" using IH by (simp_all add: gq_push_def)
        ultimately show ?thesis using IH tk by simp
      next
        case False
        then have run: "spill_line cap now (i + 1) az q n = (az', q', n')"
          using 1(3) i by (simp add: spill_line.simps [of cap now i az q n])
        have "i + 1 \<le> length az" using i by simp
        note IH = 1(2) [OF i False run this]
        then have il: "i < length az'" by simp
        have "az' ! i = az ! i" using IH i il by (metis less_add_one nth_take)
        then have "set (drop i az') = insert (az ! i) (set (drop (i + 1) az'))"
          using il by (metis Cons_nth_drop_Suc Suc_eq_plus1 list.simps(15))
        moreover have "take i az' = take i az" using IH by (metis le_add1 min.absorb1 take_take)
        ultimately show ?thesis using IH False by auto
      qed
    qed
  qed
  then show "set az' \<subseteq> set az" "set (gq_q q') \<subseteq> set (gq_q q) \<union> set az"
    "\<forall>r \<in> set (drop i az'). now - r_arrival r \<le> cap" "take i az' = take i az" "n' = n + int (length az - length az')"
    "length az' \<le> length az" "gq_age_cap q' = gq_age_cap q" "gq_forced q' = gq_forced q"
    "in_line p = ids_of az + L \<Longrightarrow> in_queue p = ids_of (gq_q q) \<Longrightarrow>
       pop_steps p (p\<lparr>in_line := ids_of az' + L, in_queue := ids_of (gq_q q')\<rparr>)"
    by simp_all
qed

end
