(* ===== verification/Csched_Round.thy ===== *)
theory Csched_Round
  imports Csched_Correct
begin

text \<open>The steps of a round of the driver, one after the other: each keeps the state well formed and
  refines the transition system of conversations.\<close>

section \<open>Spilling\<close>

lemma ids_of_split:
  "z < length xss \<Longrightarrow> ids_of (concat (xss[z := ys])) = ids_of ys + ids_of (concat (xss[z := []]))"
  using ids_of_concat_update [of z "xss[z := []]" ys] by (simp add: add.commute)

lemma ids_in_split:
  "z < length xss \<Longrightarrow> ids_in (concat (xss[z := ys])) = ids_in ys + ids_in (concat (xss[z := []]))"
  using ids_in_concat_update [of z "xss[z := []]" ys] by (simp add: add.commute)

lemma cs_spill_node_step:
  assumes "cs_ok env st" and "z < ce_Z env"
  shows "cs_ok env (cs_spill_node env now z st)" "pop_steps (cs_pop R st) (cs_pop R (cs_spill_node env now z st))"
    "\<forall>r \<in> set (cs_aff (cs_spill_node env now z st) ! z). now - r_arrival r \<le> ce_spill_cap env"
    "\<And>y. y \<noteq> z \<Longrightarrow> cs_aff (cs_spill_node env now z st) ! y = cs_aff st ! y"
    "cs_pools (cs_spill_node env now z st) = cs_pools st"
proof -
  obtain az q n where run: "spill_line (ce_spill_cap env) now 0 (cs_aff st ! z) (cs_queue st) (cs_aff_spills st) = (az, q, n)"
    using prod_cases3 by blast
  then have st': "cs_spill_node env now z st = st\<lparr>cs_aff := (cs_aff st)[z := az], cs_queue := q, cs_aff_spills := n\<rparr>"
    by (simp add: cs_spill_node_def)
  have len: "length (cs_aff st) = ce_Z env" using assms(1) by (simp add: cs_ok_def)
  then have z: "z < length (cs_aff st)" using assms(2) by simp
  note sp = spill_line_result [OF run]
  have in_aff: "set (cs_aff st ! z) \<subseteq> set (concat (cs_aff st))" using nth_mem [OF z] by auto
  have "\<forall>r \<in> set (concat ((cs_aff st)[z := az])). rq_ok r"
  proof
    fix r assume "r \<in> set (concat ((cs_aff st)[z := az]))"
    then have "r \<in> set (concat (cs_aff st))" using in_concat_update sp(1) in_aff by fastforce
    then show "rq_ok r" using assms(1) unfolding cs_ok_def by blast
  qed
  moreover have "\<forall>r \<in> set (gq_q q). rq_ok r"
    using sp(2) in_aff assms(1) by (fastforce simp: cs_ok_def)
  ultimately show "cs_ok env (cs_spill_node env now z st)"
    using assms(1) by (simp add: st' cs_ok_def counters_ok_def)
  show "\<forall>r \<in> set (cs_aff (cs_spill_node env now z st) ! z). now - r_arrival r \<le> ce_spill_cap env"
    using sp(3) z by (simp add: st')
  show "\<And>y. y \<noteq> z \<Longrightarrow> cs_aff (cs_spill_node env now z st) ! y = cs_aff st ! y"
    "cs_pools (cs_spill_node env now z st) = cs_pools st" by (simp_all add: st')
  let ?L = "ids_of (concat ((cs_aff st)[z := []]))"
  have "ids_of (concat (cs_aff st)) = ids_of (cs_aff st ! z) + ?L"
    using ids_of_split [OF z, of "cs_aff st ! z"] by simp
  then have "pop_steps (cs_pop R st) ((cs_pop R st)\<lparr>in_line := ids_of az + ?L, in_queue := ids_of (gq_q q)\<rparr>)"
    by (intro sp(9)) simp_all
  moreover have "(cs_pop R st)\<lparr>in_line := ids_of az + ?L, in_queue := ids_of (gq_q q)\<rparr> = cs_pop R (cs_spill_node env now z st)"
    using ids_of_split [OF z, of az] by (simp add: st' cs_pop_def)
  ultimately show "pop_steps (cs_pop R st) (cs_pop R (cs_spill_node env now z st))" by (simp only:)
qed

lemma cs_spill_fold:
  assumes "cs_ok env st" and "\<forall>z \<in> set zs. z < ce_Z env" and "distinct zs"
  shows "cs_ok env (fold (cs_spill_node env now) zs st)
    \<and> pop_steps (cs_pop R st) (cs_pop R (fold (cs_spill_node env now) zs st))
    \<and> (\<forall>z \<in> set zs. \<forall>r \<in> set (cs_aff (fold (cs_spill_node env now) zs st) ! z). now - r_arrival r \<le> ce_spill_cap env)
    \<and> (\<forall>z. z \<notin> set zs \<longrightarrow> cs_aff (fold (cs_spill_node env now) zs st) ! z = cs_aff st ! z)
    \<and> cs_pools (fold (cs_spill_node env now) zs st) = cs_pools st"
  using assms
proof (induction zs arbitrary: st)
  case (Cons z zs)
  then have z: "z < ce_Z env" by simp
  note s = cs_spill_node_step [OF Cons.prems(1) z, where now = now]
  have tl: "\<forall>z \<in> set zs. z < ce_Z env" "distinct zs" "z \<notin> set zs" using Cons.prems by simp_all
  note IH = Cons.IH [OF s(1) tl(1,2)]
  show ?case using IH s tl(3) by (auto intro: rtranclp_trans [OF s(2)])
qed simp

lemma cs_spill_step:
  assumes "cs_ok env st"
  shows "cs_ok env (cs_spill env now st)" "pop_steps (cs_pop R st) (cs_pop R (cs_spill env now st))"
    "cs_pools (cs_spill env now st) = cs_pools st"
    "ce_affinity env \<Longrightarrow> z < ce_Z env \<Longrightarrow> r \<in> set (cs_aff (cs_spill env now st) ! z) \<Longrightarrow> now - r_arrival r \<le> ce_spill_cap env"
  using cs_spill_fold [OF assms, of "[0..<ce_Z env]" now R] assms by (auto simp: cs_spill_def)

section \<open>Arrivals\<close>

lemma cs_route_pools: "cs_pools (cs_route env r st) = cs_pools st"
  by (simp add: cs_route_def Let_def)

lemma cs_route_fold_pools: "cs_pools (fold (cs_route env) rs st) = cs_pools st"
  by (induction rs arbitrary: st) (simp_all add: cs_route_pools)

lemma cs_arrivals_step:
  assumes "cs_ok env st"
  shows "cs_ok env (cs_arrivals env now st)" "pop_steps (cs_pop R st) (cs_pop R (cs_arrivals env now st))"
    "cs_pools (cs_arrivals env now st) = cs_pools st"
    "ce_affinity env \<Longrightarrow> z < ce_Z env \<Longrightarrow> r \<in> set (cs_aff (cs_arrivals env now st) ! z) \<Longrightarrow> now - r_arrival r \<le> ce_spill_cap env"
proof -
  let ?st1 = "st\<lparr>cs_cache := evict_tick now (cs_cache st)\<rparr>"
  let ?bd = "by_round (cs_pend st)"
  let ?due = "map snd (filter (\<lambda>x. fst x \<le> now) ?bd)"
  let ?p = "(cs_pend st)\<lparr>by_round := filter (\<lambda>x. \<not> fst x \<le> now) ?bd\<rparr>"
  let ?st2 = "?st1\<lparr>cs_pend := ?p\<rparr>"
  let ?st3 = "fold (cs_route env) ?due ?st2"
  have p_ok: "pending_ok (cs_pend st)" using assms by (simp add: cs_ok_def)
  then have st': "cs_arrivals env now st = cs_spill env now ?st3"
    by (simp add: cs_arrivals_def Let_def pending_due_eq)
  have "pending_ok ?p" using pending_due_ok [OF p_ok, of now] pending_due_eq [OF p_ok, of now] by simp
  then have ok2: "cs_ok env ?st2"
    using assms by (auto simp: cs_ok_def counters_ok_def evict_inv budget_length)
  have rs: "\<forall>r \<in> set ?due. rq_ok r" using assms by (auto simp: cs_ok_def)
  let ?A = "ids_of (map snd (by_round ?p))"
  note f = cs_route_fold [OF ok2 rs, where R = R and A = "?A"]
  have "mset ?bd = mset (filter (\<lambda>x. fst x \<le> now) ?bd) + mset (filter (\<lambda>x. \<not> fst x \<le> now) ?bd)"
    by (simp add: mset_filter)
  then have "ids_of (map snd ?bd) = ids_of ?due + ?A"
    by (simp add: ids_of_def del: mset_filter)
  then have start: "(cs_pop R ?st2)\<lparr>away := ids_of ?due + ?A\<rparr> = cs_pop R st" by (simp add: cs_pop_def)
  have pend: "cs_pend (fold (cs_route env) rs st0) = cs_pend st0" for rs and st0 :: "'a CsState"
    by (induction rs arbitrary: st0) (simp_all add: cs_route_def Let_def)
  have stop: "(cs_pop R ?st3)\<lparr>away := ?A\<rparr> = cs_pop R ?st3" by (simp add: cs_pop_def pend)
  have ok3: "cs_ok env ?st3" and steps: "pop_steps (cs_pop R st) (cs_pop R ?st3)"
    using f unfolding start stop by simp_all
  show "cs_ok env (cs_arrivals env now st)" "pop_steps (cs_pop R st) (cs_pop R (cs_arrivals env now st))"
    using cs_spill_step(1,2) [OF ok3] rtranclp_trans [OF steps] unfolding st' by blast+
  show "cs_pools (cs_arrivals env now st) = cs_pools st"
    using cs_spill_step(3) [OF ok3] unfolding st' by (simp add: cs_route_fold_pools)
  show "ce_affinity env \<Longrightarrow> z < ce_Z env \<Longrightarrow> r \<in> set (cs_aff (cs_arrivals env now st) ! z) \<Longrightarrow> now - r_arrival r \<le> ce_spill_cap env"
    using cs_spill_step(4) [OF ok3] unfolding st' by blast
qed

section \<open>Composition and advance\<close>

lemma mb_stats_met:
  "fold (\<lambda>i (s, metc). (s + sd_live_kv (pl ! i), if sd_met_ttft (pl ! i) then metc + 1 else metc)) p (s0, m0) = (s, m) \<Longrightarrow>
     m0 \<le> m \<and> m \<le> m0 + int (length p)"
  by (induction p arbitrary: s0 m0) (force split: if_splits)+

text \<open>What a step that only records leaves alone.\<close>

definition cs_same :: "'g CsState \<Rightarrow> 'g CsState \<Rightarrow> bool" where
  "cs_same st st' \<longleftrightarrow> cs_wl st' = cs_wl st \<and> cs_queue st' = cs_queue st \<and> cs_cache st' = cs_cache st \<and> cs_pend st' = cs_pend st
     \<and> cs_pools st' = cs_pools st \<and> cs_aff st' = cs_aff st"

lemma cs_same_refl [simp]: "cs_same st st"
  by (simp add: cs_same_def)

lemma cs_same_trans: "cs_same a b \<Longrightarrow> cs_same b c \<Longrightarrow> cs_same a c"
  by (simp add: cs_same_def)

lemma cs_same_ok: "cs_same st st' \<Longrightarrow> counters_ok st' \<Longrightarrow> cs_ok env st \<Longrightarrow> cs_ok env st'"
  by (simp add: cs_same_def cs_ok_def)

lemma cs_same_pop: "cs_same st st' \<Longrightarrow> cs_pop R st' = cs_pop R st"
  by (simp add: cs_same_def cs_pop_def)

lemma cs_record_mb_step:
  "cs_same st (cs_record_mb env it b2 pl p st)" "counters_ok st \<Longrightarrow> counters_ok (cs_record_mb env it b2 pl p st)"
proof -
  obtain s metc where ms: "mb_stats pl p = (s, metc)" by fastforce
  have m: "0 \<le> metc" "metc \<le> int (length p)" using mb_stats_met [OF ms [unfolded mb_stats_def]] by simp_all
  show "cs_same st (cs_record_mb env it b2 pl p st)" by (simp add: cs_record_mb_def ms cs_same_def)
  show "counters_ok st \<Longrightarrow> counters_ok (cs_record_mb env it b2 pl p st)"
    using record_batch_inv record_mubatch_inv [OF _ m]
    by (simp add: cs_record_mb_def ms counters_ok_def) (simp add: record_batch_def Let_def)
qed

lemma cs_compose_step:
  assumes "cs_compose env it pl st = (used, st')"
  shows "cs_same st st'" "counters_ok st \<Longrightarrow> counters_ok st'"
    "\<exists>p1 p2. compose_round (cs_decoders pl) (ce_op env) = (p1, p2, used)"
proof -
  obtain p1 p2 u where c: "compose_round (cs_decoders pl) (ce_op env) = (p1, p2, u)" using prod_cases3 by blast
  with assms have u: "u = used" "st' = (case p2 of None \<Rightarrow> cs_record_mb env it False pl p1 st
      | Some p \<Rightarrow> cs_record_mb env it True pl p (cs_record_mb env it False pl p1 st))"
    by (simp_all add: cs_compose_def Let_def)
  show "cs_same st st'"
    by (simp add: u(2) cs_record_mb_step(1) cs_same_trans [OF cs_record_mb_step(1) cs_record_mb_step(1)] split: option.split)
  show "counters_ok st \<Longrightarrow> counters_ok st'"
    by (simp add: u(2) cs_record_mb_step(2) split: option.split)
  show "\<exists>p1 p2. compose_round (cs_decoders pl) (ce_op env) = (p1, p2, used)" using c u by blast
qed

lemma cs_step_decoder_simps [simp]:
  "sd_id (cs_step_decoder u q) = sd_id q" "sd_prompt (cs_step_decoder u q) = sd_prompt q"
  "sd_max_tokens (cs_step_decoder u q) = sd_max_tokens q" "sd_dec (cs_step_decoder u q) = sd_dec q + (if u then 1 else 0)"
  "sd_wait (cs_step_decoder u q) = (if u then 0 else sd_wait q + 1)"
  by (simp_all add: cs_step_decoder_def Let_def)

lemma cs_advance_step:
  assumes "cs_advance env it used pl st = (pl', st')"
  shows "length pl' = length pl" "\<forall>i < length pl. pl' ! i = cs_step_decoder (used ! i) (pl ! i)" "ids_in pl' = ids_in pl"
    "(\<forall>q \<in> set pl. decoder_ok q) \<Longrightarrow> \<forall>q \<in> set pl'. decoder_ok q" "cs_same st st'" "counters_ok st \<Longrightarrow> counters_ok st'"
proof -
  have pl': "pl' = map (\<lambda>i. cs_step_decoder (used ! i) (pl ! i)) [0..<length pl]" using assms by (simp add: cs_advance_def)
  then show "length pl' = length pl" "\<forall>i < length pl. pl' ! i = cs_step_decoder (used ! i) (pl ! i)" by simp_all
  have "map sd_id pl' = map sd_id pl" using pl' by (auto intro: nth_equalityI)
  then show "ids_in pl' = ids_in pl" by (metis ids_in_def mset_map)
  show "(\<forall>q \<in> set pl. decoder_ok q) \<Longrightarrow> \<forall>q \<in> set pl'. decoder_ok q" using pl' by (auto simp: decoder_ok_def)
  show "cs_same st st'" "counters_ok st \<Longrightarrow> counters_ok st'"
    using assms by (auto simp: cs_advance_def cs_same_def counters_ok_def split: if_splits)
qed

section \<open>Completion\<close>

lemma cs_complete_step:
  assumes "cs_complete env z now it q st = Some st'" and "cs_ok env st" and "env_ok env" and "decoder_ok q" and "z < ce_Z env"
  shows "cs_ok env st'" "pop_step (cs_pop (add_mset (sd_id q) R) st) (cs_pop R st')" "cs_pools st' = cs_pools st" "cs_aff st' = cs_aff st"
proof -
  let ?c = "on_complete z (sd_id q) (sd_prompt q + sd_dec q) now (cs_cache st)"
  let ?g = "if ce_warm env \<le> it then gap_add (sd_max_gap q) (cs_gap_reqmax st) else cs_gap_reqmax st"
  let ?st = "st\<lparr>cs_gap_reqmax := ?g, cs_cache := ?c\<rparr>"
  let ?r = "\<lparr>r_id = sd_id q, r_prompt = sd_prompt q, r_max_tokens = sd_max_tokens q,
                   r_cached_prefix = sd_cached_prefix q, r_arrival = now, r_turn = sd_turn q\<rparr>"
  have r: "rq_ok ?r" using assms(4) by (simp add: rq_ok_def decoder_ok_def)
  have w: "mt_cfg (cs_wl st) = ce_mt env" using assms(2) by (simp add: cs_ok_def)
  have c: "cache_inv ?c" "length (node_budget ?c) = ce_Z env"
    using assms(2,4,5) on_complete_inv [of "cs_cache st" z] by (simp_all add: cs_ok_def decoder_ok_def budget_length)
  obtain ret w' where ret: "maybe_return (ce_lib env) ?r now (cs_wl st) = (ret, w')" by fastforce
  note fr = maybe_return_frame [OF ret]
  have "cs_ok env st' \<and> pop_step (cs_pop (add_mset (sd_id q) R) st) (cs_pop R st') \<and> cs_pools st' = cs_pools st \<and> cs_aff st' = cs_aff st"
  proof (cases "ret_returns ret")
    case True
    with assms(1) ret have st': "st' = ?st\<lparr>cs_wl := w', cs_pend := pending_add (ret_round ret) (ret_next ret) (cs_pend st)\<rparr>"
      by (auto simp: cs_complete_def Let_def split: if_splits)
    have n: "rq_ok (ret_next ret)" by (rule maybe_return_ok [OF assms(3) ret w r True])
    have m: "mset (by_round (cs_pend st')) = add_mset (ret_round ret, ret_next ret) (mset (by_round (cs_pend st)))"
      by (simp add: st' pending_add_mset)
    then have "set (by_round (cs_pend st')) = insert (ret_round ret, ret_next ret) (set (by_round (cs_pend st)))"
      by (metis set_mset_add_mset_insert set_mset_mset)
    then have ok: "cs_ok env st'"
      using assms(2) n c fr pending_add_ok [of "cs_pend st"] by (simp add: st' cs_ok_def counters_ok_def)
    have "ids_of (map snd (by_round (cs_pend st'))) = add_mset (sd_id q) (ids_of (map snd (by_round (cs_pend st))))"
      using m fr(4) [OF True] by (simp add: ids_of_def)
    then have e: "cs_pop R st' = (cs_pop (add_mset (sd_id q) R) st)\<lparr>residents := R,
        away := add_mset (sd_id q) (away (cs_pop (add_mset (sd_id q) R) st))\<rparr>"
      using fr by (simp add: cs_pop_def st')
    have "pop_step (cs_pop (add_mset (sd_id q) R) st) (cs_pop R st')" unfolding e by (rule goes_away) simp
    with ok show ?thesis by (simp add: st')
  next
    case False
    with assms(1) ret obtain r1 w1 where f: "fresh_arrival (ce_lib env) now w' = Some (r1, w1)"
      and st': "st' = ?st\<lparr>cs_wl := w1, cs_queue := gq_push r1 (cs_queue st)\<rparr>"
      by (auto simp: cs_complete_def Let_def split: if_splits option.splits)
    have "mt_cfg w' = ce_mt env" "0 \<le> mt_next_id w'" using fr(1,2) assms(2) by (simp_all add: cs_ok_def)
    note fo = fresh_arrival_ok [OF assms(3) f this] and fs = fresh_arrival_Some [OF f]
    have ok: "cs_ok env st'" using assms(2) c fo by (auto simp: st' cs_ok_def counters_ok_def)
    have e: "cs_pop R st' = (cs_pop (add_mset (sd_id q) R) st)\<lparr>residents := R,
        in_queue := add_mset (next_conv (cs_pop (add_mset (sd_id q) R) st)) (in_queue (cs_pop (add_mset (sd_id q) R) st)),
        next_conv := next_conv (cs_pop (add_mset (sd_id q) R) st) + 1\<rparr>"
      using fs(1,2) fr(2) by (simp add: cs_pop_def st')
    have "pop_step (cs_pop (add_mset (sd_id q) R) st) (cs_pop R st')" unfolding e by (rule ends) simp
    with ok show ?thesis by (simp add: st')
  qed
  then show "cs_ok env st'" "pop_step (cs_pop (add_mset (sd_id q) R) st) (cs_pop R st')" "cs_pools st' = cs_pools st" "cs_aff st' = cs_aff st"
    by simp_all
qed

lemma cs_retire_step:
  assumes "cs_retire env z now it pl st = Some (keep, holes, st')" and "cs_ok env st" and "env_ok env"
    and "\<forall>q \<in> set pl. decoder_ok q" and "z < ce_Z env"
  shows "cs_ok env st' \<and> pop_steps (cs_pop (ids_in pl + R) st) (cs_pop (ids_in keep + R) st')
    \<and> keep = filter (\<lambda>q. \<not> cs_finished q) pl \<and> holes = map sd_prompt (filter cs_finished pl) \<and> cs_pools st' = cs_pools st
    \<and> cs_aff st' = cs_aff st"
  using assms(1,2,4)
proof (induction pl arbitrary: st keep holes R)
  case (Cons q qs)
  have q: "decoder_ok q" "\<forall>q \<in> set qs. decoder_ok q" using Cons.prems(3) by simp_all
  show ?case
  proof (cases "cs_finished q")
    case True
    with Cons.prems(1) obtain st1 holes1 where c: "cs_complete env z now it q st = Some st1"
      and r: "cs_retire env z now it qs st1 = Some (keep, holes1, st')" "holes = sd_prompt q # holes1"
      by (auto split: option.splits)
    note cs = cs_complete_step [OF c Cons.prems(2) assms(3) q(1) assms(5)]
    have "pop_step (cs_pop (ids_in (q # qs) + R) st) (cs_pop (ids_in qs + R) st1)" using cs(2) by simp
    moreover note Cons.IH [OF r(1) cs(1) q(2), of R]
    ultimately show ?thesis using True cs(3,4) r(2) by (auto intro: converse_rtranclp_into_rtranclp)
  next
    case False
    with Cons.prems(1) obtain keep1 where r: "cs_retire env z now it qs st = Some (keep1, holes, st')" "keep = q # keep1"
      by (auto split: option.splits)
    from Cons.IH [OF r(1) Cons.prems(2) q(2), of "add_mset (sd_id q) R"] False r(2) show ?thesis by auto
  qed
qed simp

section \<open>Healing\<close>

lemma oldest_fold:
  "\<forall>i \<in> set is. i < n \<Longrightarrow> b < n \<Longrightarrow>
     fold (\<lambda>i best. if (f i :: int) < f best then i else best) is b < n
     \<and> f (fold (\<lambda>i best. if f i < f best then i else best) is b) \<le> f b
     \<and> (\<forall>i \<in> set is. f (fold (\<lambda>i best. if f i < f best then i else best) is b) \<le> f i)"
proof (induction "is" arbitrary: b)
  case (Cons i "is")
  from Cons.IH [of "if f i < f b then i else b"] Cons.prems show ?case by auto
qed simp

lemma oldest_in_line:
  assumes "az \<noteq> []"
  shows "oldest_in_line az < length az" "r \<in> set az \<Longrightarrow> r_arrival (az ! oldest_in_line az) \<le> r_arrival r"
proof -
  have n: "\<forall>i \<in> set [1..<length az]. i < length az" "0 < length az" using assms by auto
  note f = oldest_fold [OF n, of "\<lambda>i. r_arrival (az ! i)", folded oldest_in_line_def]
  show "oldest_in_line az < length az" using f by simp
  assume "r \<in> set az"
  then obtain i where i: "i < length az" "r = az ! i" by (auto simp: in_set_conv_nth)
  then show "r_arrival (az ! oldest_in_line az) \<le> r_arrival r"
    using f by (cases "i = 0") auto
qed

lemma cs_from_line_step:
  assumes "cs_from_line z now st = (r, st')" and "cs_ok env st" and "z < ce_Z env" and "cs_aff st ! z \<noteq> []"
  shows "cs_ok env st'" "rq_ok r" "pop_step (cs_pop R st) (cs_pop (add_mset (r_id r) R) st')" "cs_pools st' = cs_pools st"
    "r \<in> set (cs_aff st ! z)" "\<forall>x \<in> set (cs_aff st ! z). r_arrival r \<le> r_arrival x"
    "mset (cs_aff st ! z) = add_mset r (mset (cs_aff st' ! z))" "\<forall>y. y \<noteq> z \<longrightarrow> cs_aff st' ! y = cs_aff st ! y"
    "cs_queue st' = cs_queue st" "cs_cache st' = cs_cache st"
proof -
  let ?az = "cs_aff st ! z"
  let ?b = "oldest_in_line ?az"
  let ?rest = "butlast (?az[?b := last ?az])"
  note o = oldest_in_line [OF assms(4)]
  have z: "z < length (cs_aff st)" using assms(2,3) by (simp add: cs_ok_def)
  have r: "r = ?az ! ?b" using assms(1) by (simp add: cs_from_line_def Let_def)
  have st': "cs_aff st' = (cs_aff st)[z := ?rest]" "cs_pools st' = cs_pools st" "cs_queue st' = cs_queue st"
    "cs_pend st' = cs_pend st" "cs_wl st' = cs_wl st" "cs_cache st' = cs_cache st" "cs_m st' = cs_m st" "cs_k st' = cs_k st"
    "cs_phys_hit st' = cs_phys_hit st" "cs_remote_hit st' = cs_remote_hit st"
    using assms(1) by (auto simp: cs_from_line_def Let_def split: if_splits)
  show "cs_pools st' = cs_pools st" "cs_queue st' = cs_queue st" "cs_cache st' = cs_cache st" by fact+
  show m: "mset ?az = add_mset r (mset (cs_aff st' ! z))" using mset_swap_pop [OF o(1)] r z by (simp add: st')
  show "r \<in> set ?az" using r o(1) by simp
  then have in_aff: "r \<in> set (concat (cs_aff st))" using nth_mem [OF z] by auto
  then show "rq_ok r" using assms(2) unfolding cs_ok_def by blast
  show "\<forall>x \<in> set ?az. r_arrival r \<le> r_arrival x" using o(2) r by blast
  show "\<forall>y. y \<noteq> z \<longrightarrow> cs_aff st' ! y = cs_aff st ! y" by (simp add: st')
  have sub: "set ?rest \<subseteq> set ?az" using m z by (simp add: st') (metis set_mset_add_mset_insert set_mset_mset subset_insertI)
  have "\<forall>x \<in> set (concat (cs_aff st')). rq_ok x"
  proof
    fix x assume "x \<in> set (concat (cs_aff st'))"
    then have "x \<in> set (concat (cs_aff st)) \<or> x \<in> set ?az" using in_concat_update sub unfolding st' by fastforce
    then have "x \<in> set (concat (cs_aff st))" using nth_mem [OF z] by auto
    then show "rq_ok x" using assms(2) unfolding cs_ok_def by blast
  qed
  then show "cs_ok env st'" using assms(2) by (simp add: st' cs_ok_def counters_ok_def)
  have "ids_of (concat (cs_aff st)) = add_mset (r_id r) (ids_of (concat (cs_aff st')))"
    using ids_of_split [OF z, of ?az] ids_of_split [OF z, of ?rest] ids_of_swap_pop [OF o(1)] r by (simp add: st')
  then have "pop_step (cs_pop R st) ((cs_pop R st)\<lparr>in_line := ids_of (concat (cs_aff st')), residents := add_mset (r_id r) (residents (cs_pop R st))\<rparr>)"
    by (intro enters_from_line) simp
  moreover have "(cs_pop R st)\<lparr>in_line := ids_of (concat (cs_aff st')), residents := add_mset (r_id r) (residents (cs_pop R st))\<rparr>
      = cs_pop (add_mset (r_id r) R) st'" by (simp add: cs_pop_def st')
  ultimately show "pop_step (cs_pop R st) (cs_pop (add_mset (r_id r) R) st')" by (simp only:)
qed

lemma cs_pull_step:
  assumes "gq_pull_slot (cs_queue st) ideal room now = (r, q)" and "cs_ok env st" and "0 \<le> r_id r"
  shows "cs_ok env (st\<lparr>cs_queue := q\<rparr>)" "rq_ok r" "pop_step (cs_pop R st) (cs_pop (add_mset (r_id r) R) (st\<lparr>cs_queue := q\<rparr>))"
proof -
  note f = slot_pull.pull_from [OF assms(1,3)]
  show "rq_ok r" using f(1) assms(2) unfolding cs_ok_def by blast
  show "cs_ok env (st\<lparr>cs_queue := q\<rparr>)" using f(2) assms(2) by (auto simp: cs_ok_def counters_ok_def)
  show "pop_step (cs_pop R st) (cs_pop (add_mset (r_id r) R) (st\<lparr>cs_queue := q\<rparr>))"
    using slot_pull.pull_enters [OF assms(1,3), of "cs_pop R st"] by (simp add: cs_pop_def)
qed

lemma cs_pull_nothing:
  assumes "gq_pull_slot (cs_queue st) ideal room now = (r, q)" and "cs_ok env st" and "\<not> 0 \<le> r_id r"
  shows "cs_ok env (st\<lparr>cs_queue := q\<rparr>)" "cs_pop R (st\<lparr>cs_queue := q\<rparr>) = cs_pop R st"
proof -
  have "gq_q q = gq_q (cs_queue st)"
    using slot_pull.pull_nothing [OF assms(1)] assms(2,3) by (simp add: cs_ok_def rq_ok_def)
  then show "cs_ok env (st\<lparr>cs_queue := q\<rparr>)" "cs_pop R (st\<lparr>cs_queue := q\<rparr>) = cs_pop R st"
    using assms(2) by (simp_all add: cs_ok_def counters_ok_def cs_pop_def)
qed

lemma decoder_of_id [simp]: "sd_id (decoder_of r met) = r_id r"
  by (simp add: decoder_of_def)

text \<open>An admitted request becomes the last decoder of the pool.\<close>

lemma cs_admit_step:
  assumes "cs_admit env z now it r pl st = (pl', st')" and "cs_ok env st" and "rq_ok r" and "\<forall>q \<in> set pl. decoder_ok q"
  shows "cs_ok env st'" "cs_pop R st' = cs_pop R st" "ids_in pl' = add_mset (r_id r) (ids_in pl)" "\<forall>q \<in> set pl'. decoder_ok q"
    "length pl' = length pl + 1" "cs_pools st' = cs_pools st" "cs_aff st' = cs_aff st" "cs_queue st' = cs_queue st"
    "\<exists>met. pl' = pl @ [decoder_of r met]"
proof -
  obtain met where a: "cs_admit_ttft env r z now it st = (met, st')" and pl': "pl' = pl @ [decoder_of r met]"
    using assms(1) by (auto simp: cs_admit_def split: prod.splits)
  show "cs_ok env st'" "cs_pop R st' = cs_pop R st" "cs_pools st' = cs_pools st" "cs_aff st' = cs_aff st" "cs_queue st' = cs_queue st"
    using cs_admit_ttft_ok [OF a assms(2)] cs_admit_ttft_pop [OF a] cs_admit_ttft_frame [OF a] by simp_all
  show "ids_in pl' = add_mset (r_id r) (ids_in pl)" "\<forall>q \<in> set pl'. decoder_ok q" "length pl' = length pl + 1" "\<exists>met. pl' = pl @ [decoder_of r met]"
    using pl' assms(3,4) decoder_of_ok by auto
qed

text \<open>Healing one hole: from the line of the node if somebody waits there, else from the queue, else not at all.\<close>

lemma cs_heal_hole:
  assumes "cs_ok env st" and "z < ce_Z env" and "\<forall>q \<in> set pl. decoder_ok q"
  obtains
    (healed) r st0 pl1 st1 where "cs_heal env z now it (hole # holes) pl st = cs_heal env z now it holes pl1 st1"
      "cs_admit env z now it r pl st0 = (pl1, st1)" "rq_ok r" "cs_ok env st0" "\<And>R. pop_step (cs_pop R st) (cs_pop (add_mset (r_id r) R) st0)"
      "cs_pools st0 = cs_pools st"
      "ce_affinity env \<and> cs_aff st ! z \<noteq> [] \<and> cs_from_line z now st = (r, st0)
       \<or> \<not> (ce_affinity env \<and> cs_aff st ! z \<noteq> []) \<and> cs_aff st0 = cs_aff st \<and> r \<in> set (gq_q (cs_queue st))"
  | (dry) q where "cs_heal env z now it (hole # holes) pl st = (pl, st\<lparr>cs_queue := q\<rparr>)" "cs_ok env (st\<lparr>cs_queue := q\<rparr>)"
      "\<And>R. cs_pop R (st\<lparr>cs_queue := q\<rparr>) = cs_pop R st" "\<not> (ce_affinity env \<and> cs_aff st ! z \<noteq> [])"
      "r_id (fst (gq_pull_slot (cs_queue st) (dbl hole) (ce_cap_room env) now)) < 0"
proof (cases "ce_affinity env \<and> cs_aff st ! z \<noteq> []")
  case True
  obtain r st0 where l: "cs_from_line z now st = (r, st0)" by fastforce
  obtain pl1 st1 where a: "cs_admit env z now it r pl st0 = (pl1, st1)" by fastforce
  from True have ne: "cs_aff st ! z \<noteq> []" by simp
  note s = cs_from_line_step [OF l assms(1,2) ne]
  from True l a show thesis by (intro healed [OF _ a s(2,1) s(3,4)]) simp_all
next
  case False
  obtain r q where p: "gq_pull_slot (cs_queue st) (dbl hole) (ce_cap_room env) now = (r, q)" by fastforce
  show thesis
  proof (cases "0 \<le> r_id r")
    case True
    obtain pl1 st1 where a: "cs_admit env z now it r pl (st\<lparr>cs_queue := q\<rparr>) = (pl1, st1)" by fastforce
    note s = cs_pull_step [OF p assms(1) True]
    from False True p a slot_pull.pull_from(1) [OF p True] show thesis by (intro healed [OF _ a s(2,1) s(3)]) auto
  next
    case no: False
    note n = cs_pull_nothing [OF p assms(1) no]
    from False no p show thesis by (intro dry [OF _ n]) auto
  qed
qed

lemma cs_heal_step:
  assumes "cs_heal env z now it holes pl st = (pl', st')" and "cs_ok env st" and "z < ce_Z env" and "\<forall>q \<in> set pl. decoder_ok q"
  shows "cs_ok env st' \<and> pop_steps (cs_pop (ids_in pl + R) st) (cs_pop (ids_in pl' + R) st') \<and> (\<forall>q \<in> set pl'. decoder_ok q)
    \<and> length pl' \<le> length pl + length holes \<and> cs_pools st' = cs_pools st"
  using assms(1,2,4)
proof (induction holes arbitrary: pl st)
  case (Cons hole holes)
  from Cons.prems(2) assms(3) Cons.prems(3) show ?case
  proof (cases rule: cs_heal_hole [where now = now and it = it and hole = hole and holes = holes])
    case (healed r st0 pl1 st1)
    note a = cs_admit_step [OF healed(2,4,3) Cons.prems(3)]
    have run: "cs_heal env z now it holes pl1 st1 = (pl', st')" using Cons.prems(1) healed(1) by simp
    note IH = Cons.IH [OF run a(1,4)]
    have "pop_step (cs_pop (ids_in pl + R) st) (cs_pop (ids_in pl1 + R) st1)"
      using healed(5) [of "ids_in pl + R"] a(2,3) by simp
    with IH a(5,6) healed(6) show ?thesis by (auto intro: converse_rtranclp_into_rtranclp)
  next
    case (dry q)
    with Cons.prems show ?thesis by simp
  qed
qed simp

section \<open>A node's turn\<close>

definition cs_state_ok :: "'g CsEnv \<Rightarrow> 'g CsState \<Rightarrow> bool" where
  "cs_state_ok env st \<longleftrightarrow> cs_ok env st \<and> (\<forall>q \<in> set (concat (cs_pools st)). decoder_ok q)"

lemma cs_diagnose_step:
  assumes "cs_diagnose env z it pl (st, acc) = (st', acc')" and "cs_ok env st" and "z < ce_Z env"
  shows "cs_ok env st'" "cs_pop R st' = cs_pop R st" "cs_pools st' = cs_pools st" "cs_aff st' = cs_aff st"
    "cs_cache st' = (if ce_dyncache env then enforce_budget z (ce_cache_cap env - cs_excess env (fst (pool_stats pl))) (cs_cache st)
       else cs_cache st)"
proof -
  obtain s rc where ps: "pool_stats pl = (s, rc)" by fastforce
  have len: "z < length (node_budget (cs_cache st))" using assms(2,3) by (simp add: cs_ok_def)
  have inv: "cache_inv (cs_cache st)" using assms(2) by (simp add: cs_ok_def)
  show "cs_ok env st'"
    using assms(1,2) enforce_inv [OF inv len]
    by (auto simp: cs_diagnose_def ps Let_def cs_ok_def counters_ok_def budget_length split: if_splits)
  show "cs_pop R st' = cs_pop R st" "cs_pools st' = cs_pools st" "cs_aff st' = cs_aff st"
    using assms(1) by (auto simp: cs_diagnose_def ps Let_def cs_pop_def split: if_splits)
  show "cs_cache st' = (if ce_dyncache env then enforce_budget z (ce_cache_cap env - cs_excess env (fst (pool_stats pl))) (cs_cache st)
       else cs_cache st)"
    using assms(1) by (auto simp: cs_diagnose_def ps Let_def split: if_splits)
qed

text \<open>The stages of the turn, by name.\<close>

lemma cs_node_step_stages:
  assumes "cs_node_step env it z (st, acc) = Some (st', acc')"
  obtains used st1 pl1 st2 keep holes st3 pl st4 where
    "cs_compose env it (cs_pools st ! z) st = (used, st1)" "cs_advance env it used (cs_pools st1 ! z) st1 = (pl1, st2)"
    "cs_retire env z it it pl1 st2 = Some (keep, holes, st3)" "cs_heal env z it it holes keep st3 = (pl, st4)"
    "cs_diagnose env z it pl (st4\<lparr>cs_pools := (cs_pools st4)[z := pl]\<rparr>, acc) = (st', acc')"
proof -
  obtain used st1 where c: "cs_compose env it (cs_pools st ! z) st = (used, st1)" by fastforce
  obtain pl1 st2 where a: "cs_advance env it used (cs_pools st1 ! z) st1 = (pl1, st2)" by fastforce
  from assms c a obtain keep holes st3 where r: "cs_retire env z it it pl1 st2 = Some (keep, holes, st3)"
    by (auto simp: cs_node_step_def split: option.splits)
  obtain pl st4 where h: "cs_heal env z it it holes keep st3 = (pl, st4)" by fastforce
  from that [OF c a r h] assms c a r h show thesis by (simp add: cs_node_step_def)
qed

lemma cs_node_turn:
  assumes c: "cs_compose env it (cs_pools st ! z) st = (used, st1)" and a: "cs_advance env it used (cs_pools st1 ! z) st1 = (pl1, st2)"
    and r: "cs_retire env z it it pl1 st2 = Some (keep, holes, st3)" and h: "cs_heal env z it it holes keep st3 = (pl, st4)"
    and state: "cs_state_ok env st" and env: "env_ok env" and zz: "z < ce_Z env"
  shows "cs_ok env st4" "z < length (cs_pools st4)" "cs_pools st4 = cs_pools st" "\<forall>q \<in> set pl. decoder_ok q"
    "length pl1 = length (cs_pools st ! z)" "length pl \<le> length (cs_pools st ! z)" "cs_ok env st3" "\<forall>q \<in> set keep. decoder_ok q"
    "\<And>R. pop_steps (cs_pop (ids_in (cs_pools st ! z) + R) st) (cs_pop (ids_in pl + R) st4)" "cs_aff st3 = cs_aff st"
proof -
  have ok: "cs_ok env st" and dec: "\<forall>q \<in> set (concat (cs_pools st)). decoder_ok q"
    using state by (simp_all add: cs_state_ok_def)
  have z: "z < length (cs_pools st)" using ok zz by (simp add: cs_ok_def)
  note cc = cs_compose_step [OF c]
  have "counters_ok st" using ok by (simp add: cs_ok_def)
  then have k1: "counters_ok st1" by (rule cc(2))
  have ok1: "cs_ok env st1" by (rule cs_same_ok [OF cc(1) k1 ok])
  have pools1: "cs_pools st1 = cs_pools st" using cc(1) by (simp add: cs_same_def)
  note aa = cs_advance_step [OF a]
  have ok2: "cs_ok env st2" by (rule cs_same_ok [OF aa(5) aa(6) [OF k1] ok1])
  have dz: "\<forall>q \<in> set (cs_pools st ! z). decoder_ok q" using dec nth_mem [OF z] by auto
  then have d1: "\<forall>q \<in> set pl1. decoder_ok q" using aa(4) by (simp add: pools1)
  note rr = cs_retire_step [OF r ok2 env d1 zz]
  show dk: "\<forall>q \<in> set keep. decoder_ok q" using rr d1 by simp
  show ok3: "cs_ok env st3" using rr by simp
  note hh = cs_heal_step [OF h ok3 zz dk]
  show "cs_ok env st4" using hh by blast
  show pools: "cs_pools st4 = cs_pools st" using hh rr aa(5) by (simp add: cs_same_def pools1)
  then show "z < length (cs_pools st4)" using z by simp
  show "\<forall>q \<in> set pl. decoder_ok q" using hh by blast
  show len: "length pl1 = length (cs_pools st ! z)" using aa(1) by (simp add: pools1)
  have "length keep + length holes = length pl1" using rr by (simp add: sum_length_filter_compl add.commute)
  then show "length pl \<le> length (cs_pools st ! z)" using hh len by simp
  show "cs_aff st3 = cs_aff st" using rr cc(1) aa(5) by (simp add: cs_same_def)
  fix R
  have "cs_pop (ids_in (cs_pools st ! z) + R) st = cs_pop (ids_in pl1 + R) st2"
    using aa(3) cs_same_pop [OF cc(1)] cs_same_pop [OF aa(5)] by (simp add: pools1)
  moreover have "pop_steps (cs_pop (ids_in pl1 + R) st2) (cs_pop (ids_in keep + R) st3)"
    using cs_retire_step [OF r ok2 env d1 zz] by blast
  moreover have "pop_steps (cs_pop (ids_in keep + R) st3) (cs_pop (ids_in pl + R) st4)"
    using cs_heal_step [OF h ok3 zz dk] by blast
  ultimately show "pop_steps (cs_pop (ids_in (cs_pools st ! z) + R) st) (cs_pop (ids_in pl + R) st4)"
    by (simp only: rtranclp_trans)
qed

lemma cs_node_step_ok:
  assumes "cs_node_step env it z (st, acc) = Some (st', acc')" and "cs_state_ok env st" and "env_ok env" and "z < ce_Z env"
  shows "cs_state_ok env st'" "pop_steps (cs_abs st) (cs_abs st')"
    "length (cs_pools st' ! z) \<le> length (cs_pools st ! z)" "\<forall>y. y \<noteq> z \<longrightarrow> cs_pools st' ! y = cs_pools st ! y"
proof -
  from assms(1) obtain used st1 pl1 st2 keep holes st3 pl st4 where
    c: "cs_compose env it (cs_pools st ! z) st = (used, st1)" and a: "cs_advance env it used (cs_pools st1 ! z) st1 = (pl1, st2)"
    and r: "cs_retire env z it it pl1 st2 = Some (keep, holes, st3)" and h: "cs_heal env z it it holes keep st3 = (pl, st4)"
    and d: "cs_diagnose env z it pl (st4\<lparr>cs_pools := (cs_pools st4)[z := pl]\<rparr>, acc) = (st', acc')"
    by (rule cs_node_step_stages)
  note turn = cs_node_turn [OF c a r h assms(2-4)]
  let ?R = "ids_in (concat ((cs_pools st)[z := []]))" and ?st5 = "st4\<lparr>cs_pools := (cs_pools st4)[z := pl]\<rparr>"
  have z: "z < length (cs_pools st)" using turn(2,3) by simp
  have R: "ids_in (concat ((cs_pools st)[z := xs])) = ids_in xs + ?R" for xs by (rule ids_in_split [OF z])
  have ok5: "cs_ok env ?st5" using turn(1) by (simp add: cs_ok_def counters_ok_def)
  note dd = cs_diagnose_step [OF d ok5 assms(4)]
  have pools': "cs_pools st' = (cs_pools st)[z := pl]" using dd(3) turn(3) by simp
  have "\<forall>q \<in> set (concat (cs_pools st')). decoder_ok q"
    using turn(4) assms(2) unfolding pools' cs_state_ok_def by (metis in_concat_update)
  then show "cs_state_ok env st'" using dd(1) by (simp add: cs_state_ok_def)
  have "cs_abs st = cs_pop (ids_in (cs_pools st ! z) + ?R) st" using R [of "cs_pools st ! z"] by (simp add: cs_abs_def)
  moreover have "cs_abs st' = cs_pop (ids_in pl + ?R) st4"
  proof -
    have "cs_abs st' = cs_pop (ids_in pl + ?R) st'" by (simp only: cs_abs_def pools' R [of pl])
    also have "\<dots> = cs_pop (ids_in pl + ?R) ?st5" by (rule dd(2))
    also have "\<dots> = cs_pop (ids_in pl + ?R) st4" by (simp add: cs_pop_def)
    finally show ?thesis .
  qed
  ultimately show "pop_steps (cs_abs st) (cs_abs st')" using turn(9) by (simp only:)
  show "length (cs_pools st' ! z) \<le> length (cs_pools st ! z)" using turn(6) z by (simp add: pools')
  show "\<forall>y. y \<noteq> z \<longrightarrow> cs_pools st' ! y = cs_pools st ! y" by (simp add: pools')
qed

lemma cs_nodes_ok:
  assumes "cs_nodes env it zs (st, acc) = Some (st', acc')" and "cs_state_ok env st" and "env_ok env" and "\<forall>z \<in> set zs. z < ce_Z env"
  shows "cs_state_ok env st' \<and> pop_steps (cs_abs st) (cs_abs st') \<and> (\<forall>y. length (cs_pools st' ! y) \<le> length (cs_pools st ! y))"
  using assms(1,2,4)
proof (induction zs arbitrary: st acc)
  case (Cons z zs)
  from Cons.prems(1) obtain st1 acc1 where s: "cs_node_step env it z (st, acc) = Some (st1, acc1)"
    and r: "cs_nodes env it zs (st1, acc1) = Some (st', acc')"
    by (auto split: option.splits)
  have z: "z < ce_Z env" "\<forall>z \<in> set zs. z < ce_Z env" using Cons.prems(3) by simp_all
  note n = cs_node_step_ok [OF s Cons.prems(2) assms(3) z(1)]
  note IH = Cons.IH [OF r n(1) z(2)]
  have "length (cs_pools st1 ! y) \<le> length (cs_pools st ! y)" for y using n(3,4) by (cases "y = z") auto
  then have "length (cs_pools st' ! y) \<le> length (cs_pools st ! y)" for y using IH le_trans by blast
  with IH n(2) show ?case by (meson rtranclp_trans)
qed simp

lemma csched_round_ok:
  assumes "csched_round env it st = Some st'" and "cs_state_ok env st" and "env_ok env"
  shows "cs_state_ok env st'" "pop_steps (cs_abs st) (cs_abs st')" "\<And>y. length (cs_pools st' ! y) \<le> length (cs_pools st ! y)"
proof -
  let ?acc = "\<lparr>pa_resid = [dlit 0, dlit 0, dlit 0], pa_mean = dlit 0, pa_nodes = 0\<rparr>"
  from assms(1) obtain st2 acc where n: "cs_nodes env it [0..<ce_Z env] (cs_arrivals env it st, ?acc) = Some (st2, acc)"
    and st': "st' = (if ce_warm env \<le> it \<and> 0 < pa_nodes acc
                then st2\<lparr>cs_m := record_pool (pa_mean acc / dbl (pa_nodes acc))
                       (map (\<lambda>c. pa_resid acc ! c / dbl (pa_nodes acc)) [0..<3]) (cs_m st2)\<rparr> else st2)"
    by (auto simp: csched_round_def split: option.splits)
  have ok: "cs_ok env st" using assms(2) by (simp add: cs_state_ok_def)
  note a = cs_arrivals_step [OF ok, where now = it]
  have ok1: "cs_state_ok env (cs_arrivals env it st)" using a(1,3) assms(2) by (simp add: cs_state_ok_def)
  note b = cs_nodes_ok [OF n ok1 assms(3)]
  have same: "cs_pools st' = cs_pools st2" "cs_pop R st' = cs_pop R st2" for R
    by (simp_all add: st' cs_pop_def)
  show "cs_state_ok env st'"
    using b by (auto simp: st' cs_state_ok_def cs_ok_def counters_ok_def record_pool_def metrics_inv_def)
  have "pop_steps (cs_abs st) (cs_abs (cs_arrivals env it st))" using a(2,3) by (simp add: cs_abs_def)
  moreover have "cs_abs st' = cs_abs st2" by (simp add: cs_abs_def same)
  ultimately show "pop_steps (cs_abs st) (cs_abs st')" using b by (auto intro: rtranclp_trans)
  show "\<And>y. length (cs_pools st' ! y) \<le> length (cs_pools st ! y)" using b a(3) by (simp add: same)
qed

lemma csched_loop_ok:
  assumes "csched_loop env n it st = Some st'" and "cs_state_ok env st" and "env_ok env"
  shows "cs_state_ok env st' \<and> pop_steps (cs_abs st) (cs_abs st') \<and> (\<forall>y. length (cs_pools st' ! y) \<le> length (cs_pools st ! y))"
  using assms(1,2)
proof (induction n arbitrary: it st)
  case (Suc n)
  from Suc.prems(1) obtain st1 where r: "csched_round env it st = Some st1" "csched_loop env n (it + 1) st1 = Some st'"
    by (auto split: option.splits)
  note a = csched_round_ok [OF r(1) Suc.prems(2) assms(3)]
  note IH = Suc.IH [OF r(2) a(1)]
  have "length (cs_pools st' ! y) \<le> length (cs_pools st ! y)" for y using IH a(3) le_trans by blast
  with IH a(2) show ?case by (meson rtranclp_trans)
qed simp

section \<open>The start\<close>

lemma cs_cold_admit_step:
  assumes "cs_cold_admit env z lens rng dec_id pl st = (pl', rng', dec_id', st')"
    and "cs_ok env st" and "env_ok env" and "\<forall>q \<in> set pl. decoder_ok q" and "\<forall>x \<in> set lens. 0 \<le> x" and "0 \<le> dec_id"
  shows "cs_ok env st' \<and> (\<forall>q \<in> set pl'. decoder_ok q) \<and> dec_id' = dec_id + int (length lens) \<and> length pl' = length pl + length lens
    \<and> ids_in pl' = ids_in pl + mset (map (\<lambda>k. dec_id + int k) [0..<length lens]) \<and> cs_pools st' = cs_pools st
    \<and> (\<forall>R. cs_pop R st' = cs_pop R st) \<and> cs_queue st' = cs_queue st"
  using assms(1,2,4,5,6)
proof (induction lens arbitrary: rng dec_id pl st)
  case (Cons prompt lens)
  obtain dtot rng1 where i: "lib_int (ce_lib env) (dtot_lo (ce_mt env)) (dtot_hi (ce_mt env)) rng = (dtot, rng1)" by fastforce
  let ?r = "\<lparr>r_id = dec_id, r_prompt = prompt, r_max_tokens = dtot, r_cached_prefix = 0, r_arrival = 0, r_turn = 0\<rparr>"
  obtain met st1 where a: "cs_admit_ttft env ?r z 0 (- 1) st = (met, st1)" by fastforce
  have run: "cs_cold_admit env z lens rng1 (dec_id + 1) (pl @ [decoder_of ?r met]) st1 = (pl', rng', dec_id', st')"
    using Cons.prems(1) i a by (simp add: Let_def)
  have "lib_ok (ce_lib env)" "0 \<le> dtot_lo (ce_mt env)" "dtot_lo (ce_mt env) \<le> dtot_hi (ce_mt env)"
    using assms(3) by (simp_all add: sim_ok_def mt_ok_def)
  then have "0 \<le> dtot" using lib_int_range [OF _ i] by fastforce
  then have "rq_ok ?r" using Cons.prems(4,5) by (simp add: rq_ok_def)
  then have "\<forall>q \<in> set (pl @ [decoder_of ?r met]). decoder_ok q" using Cons.prems(3) decoder_of_ok by auto
  moreover have "\<forall>x \<in> set lens. 0 \<le> x" "0 \<le> dec_id + 1" using Cons.prems(4,5) by simp_all
  ultimately have IH: "cs_ok env st' \<and> (\<forall>q \<in> set pl'. decoder_ok q) \<and> dec_id' = dec_id + 1 + int (length lens)
    \<and> length pl' = length (pl @ [decoder_of ?r met]) + length lens
    \<and> ids_in pl' = ids_in (pl @ [decoder_of ?r met]) + mset (map (\<lambda>k. dec_id + 1 + int k) [0..<length lens])
    \<and> cs_pools st' = cs_pools st1 \<and> (\<forall>R. cs_pop R st' = cs_pop R st1) \<and> cs_queue st' = cs_queue st1"
    using Cons.IH [OF run cs_admit_ttft_ok [OF a Cons.prems(2)]] by blast
  have "map (\<lambda>k. dec_id + int k) [0..<length (prompt # lens)] = dec_id # map (\<lambda>k. dec_id + 1 + int k) [0..<length lens]"
    by (simp add: upt_conv_Cons map_Suc_upt [symmetric] algebra_simps del: upt_Suc)
  then show ?case using IH cs_admit_ttft_frame [OF a] cs_admit_ttft_pop [OF a] by simp
qed simp

lemma cs_top_up_step:
  assumes "cs_top_up env z rng pl st = (pl', rng', st')" and "cs_ok env st" and "\<forall>q \<in> set pl. decoder_ok q"
  shows "cs_ok env st' \<and> (\<forall>q \<in> set pl'. decoder_ok q) \<and> pop_steps (cs_pop (ids_in pl + R) st) (cs_pop (ids_in pl' + R) st')
    \<and> cs_pools st' = cs_pools st \<and> int (length pl') \<le> max (int (length pl)) (decode_pool (ce_op env)) \<and> cs_wl st' = cs_wl st"
  using assms
proof (induction env z rng pl st rule: cs_top_up.induct)
  case (1 env z rng pl st)
  show ?case
  proof (cases "int (length pl) < decode_pool (ce_op env)")
    case False
    with 1(2-) show ?thesis by (simp add: cs_top_up.simps [of env z rng pl st])
  next
    case True
    obtain hole rng1 where h: "cs_hole env pl rng = (hole, rng1)" by fastforce
    obtain r q where p: "gq_pull_slot (cs_queue st) (dbl hole) (ce_cap_room env) 0 = (r, q)" by fastforce
    show ?thesis
    proof (cases "r_id r < 0")
      case neg: True
      with 1(2) True h p have "pl' = pl" "st' = st\<lparr>cs_queue := q\<rparr>"
        by (simp_all add: cs_top_up.simps [of env z rng pl st] Let_def)
      with cs_pull_nothing [OF p 1(3)] neg 1(4) show ?thesis by simp
    next
      case False
      then have pos: "0 \<le> r_id r" by simp
      obtain met st1 where a: "cs_admit_ttft env r z 0 (- 1) (st\<lparr>cs_queue := q\<rparr>) = (met, st1)" by fastforce
      have run: "cs_top_up env z rng1 (pl @ [decoder_of r met]) st1 = (pl', rng', st')"
        using 1(2) True h p False a by (simp add: cs_top_up.simps [of env z rng pl st] Let_def)
      note s = cs_pull_step(1,2) [OF p 1(3) pos] cs_pull_step(3) [OF p 1(3) pos, where R = "ids_in pl + R"]
      have "\<forall>x \<in> set (pl @ [decoder_of r met]). decoder_ok x" using 1(4) decoder_of_ok [OF s(2)] by auto
      note IH = 1(1) [OF True h [symmetric] p [symmetric] refl False a [symmetric] run cs_admit_ttft_ok [OF a s(1)] this]
      have "pop_step (cs_pop (ids_in pl + R) st) (cs_pop (ids_in (pl @ [decoder_of r met]) + R) st1)"
        using s(3) cs_admit_ttft_pop [OF a] by simp
      with IH cs_admit_ttft_frame(2,5) [OF a] True show ?thesis by (auto intro: converse_rtranclp_into_rtranclp)
    qed
  qed
qed

lemma everyone_cs_pop: "everyone (cs_pop (A + R) st) = A + everyone (cs_pop R st)"
  by (simp add: everyone_def)

lemma cs_cold_node_step:
  assumes "cs_cold_node env cnodes z (rng, dec_id, st) = (rng', dec_id', st')" and "cs_state_ok env st" and "env_ok env"
    and "\<forall>x \<in> set (cn_lengths (cnodes ! z)). 0 \<le> x" and "0 \<le> dec_id" and "z < ce_Z env" and "cs_pools st ! z = []"
  shows "cs_state_ok env st' \<and> dec_id \<le> dec_id' \<and> cs_wl st' = cs_wl st
    \<and> everyone (cs_abs st') = everyone (cs_abs st) + mset (map (\<lambda>k. dec_id + int k) [0..<nat (dec_id' - dec_id)])
    \<and> (\<forall>y. y \<noteq> z \<longrightarrow> cs_pools st' ! y = cs_pools st ! y) \<and> int (length (cs_pools st' ! z)) \<le> max 0 (decode_pool (ce_op env))"
proof -
  let ?lens = "take (nat (min (int (length (cn_lengths (cnodes ! z)))) (decode_pool (ce_op env)))) (cn_lengths (cnodes ! z))"
  obtain pl1 rng1 st1 where a: "cs_cold_admit env z ?lens rng dec_id [] st = (pl1, rng1, dec_id', st1)"
    and t: "\<exists>pl st2. cs_top_up env z rng1 pl1 st1 = (pl, rng', st2) \<and> st' = st2\<lparr>cs_pools := (cs_pools st2)[z := pl]\<rparr>"
    using assms(1,7) by (auto simp: cs_cold_node_def Let_def split: prod.splits)
  then obtain pl st2 where t: "cs_top_up env z rng1 pl1 st1 = (pl, rng', st2)" and st': "st' = st2\<lparr>cs_pools := (cs_pools st2)[z := pl]\<rparr>"
    by blast
  have ok: "cs_ok env st" and dec: "\<forall>q \<in> set (concat (cs_pools st)). decoder_ok q" using assms(2) by (simp_all add: cs_state_ok_def)
  have z: "z < length (cs_pools st)" using ok assms(6) by (simp add: cs_ok_def)
  have lens: "\<forall>x \<in> set ?lens. 0 \<le> x" using assms(4) by (meson in_set_takeD)
  have ca: "cs_ok env st1 \<and> (\<forall>q \<in> set pl1. decoder_ok q) \<and> dec_id' = dec_id + int (length ?lens) \<and> length pl1 = length ?lens
    \<and> ids_in pl1 = mset (map (\<lambda>k. dec_id + int k) [0..<length ?lens]) \<and> cs_pools st1 = cs_pools st
    \<and> (\<forall>R. cs_pop R st1 = cs_pop R st)"
    using cs_cold_admit_step [OF a ok assms(3) _ lens assms(5)] by simp
  let ?R = "ids_in (concat ((cs_pools st)[z := []]))"
  have ok1: "cs_ok env st1" "\<forall>q \<in> set pl1. decoder_ok q" using ca by blast+
  note tu = cs_top_up_step [OF t ok1, of ?R]
  have pools: "cs_pools st2 = cs_pools st" using tu ca by simp
  then have pools': "cs_pools st' = (cs_pools st)[z := pl]" by (simp add: st')
  have ok2: "cs_ok env st2" using tu by blast
  have "\<forall>q \<in> set (concat (cs_pools st')). decoder_ok q"
    using tu dec unfolding pools' by (metis in_concat_update)
  then have 1: "cs_state_ok env st'" using ok2 by (simp add: cs_state_ok_def st' cs_ok_def counters_ok_def)
  have wl: "cs_wl st1 = cs_wl st"
  proof -
    have "cs_admit_ttft env r z 0 (- 1) s = (met, s') \<Longrightarrow> cs_wl s' = cs_wl s" for r met and s s' :: "'a CsState"
      by (rule cs_admit_ttft_frame)
    then have "cs_cold_admit env z ls rng i p s = (p', rng', i', s') \<Longrightarrow> cs_wl s' = cs_wl s"
      for ls rng i p p' rng' i' and s s' :: "'a CsState"
      by (induction ls arbitrary: rng i p s) (auto simp: Let_def split: prod.splits)
    then show ?thesis using a by blast
  qed
  then have 2: "cs_wl st' = cs_wl st" using tu by (simp add: st')
  have "everyone (cs_abs st') = everyone (cs_pop (ids_in pl + ?R) st2)"
    using ids_in_split [OF z, of pl] by (simp add: cs_abs_def st' cs_pop_def pools)
  also have "\<dots> = everyone (cs_pop (ids_in pl1 + ?R) st1)"
    using tu by (intro pop_steps_everyone) simp_all
  also have "\<dots> = ids_in pl1 + everyone (cs_pop ?R st)" using ca by (simp add: everyone_cs_pop)
  also have "cs_pop ?R st = cs_abs st" using ids_in_split [OF z, of "[]"] list_update_id [of "cs_pools st" z] assms(7)
    by (simp add: cs_abs_def)
  finally have 3: "everyone (cs_abs st') = everyone (cs_abs st) + mset (map (\<lambda>k. dec_id + int k) [0..<nat (dec_id' - dec_id)])"
    using ca by (simp add: add.commute)
  have "int (length pl1) \<le> max 0 (decode_pool (ce_op env))" using ca by auto
  then have "int (length pl) \<le> max 0 (decode_pool (ce_op env))" using tu by auto
  with 1 2 3 ca z show ?thesis by (auto simp: pools')
qed

lemma cs_cold_fold:
  assumes "fold (cs_cold_node env cnodes) zs (rng, dec_id, st) = (rng', dec_id', st')" and "cs_state_ok env st" and "env_ok env"
    and "\<forall>z \<in> set zs. \<forall>x \<in> set (cn_lengths (cnodes ! z)). 0 \<le> x" and "0 \<le> dec_id" and "\<forall>z \<in> set zs. z < ce_Z env"
    and "\<forall>z \<in> set zs. cs_pools st ! z = []" and "distinct zs"
  shows "cs_state_ok env st' \<and> dec_id \<le> dec_id' \<and> cs_wl st' = cs_wl st
    \<and> everyone (cs_abs st') = everyone (cs_abs st) + mset (map (\<lambda>k. dec_id + int k) [0..<nat (dec_id' - dec_id)])
    \<and> (\<forall>y. y \<notin> set zs \<longrightarrow> cs_pools st' ! y = cs_pools st ! y)
    \<and> (\<forall>z \<in> set zs. int (length (cs_pools st' ! z)) \<le> max 0 (decode_pool (ce_op env)))"
  using assms(1,2,4-8)
proof (induction zs arbitrary: rng dec_id st)
  case (Cons z zs)
  obtain rng1 dec1 st1 where n: "cs_cold_node env cnodes z (rng, dec_id, st) = (rng1, dec1, st1)" using prod_cases3 by blast
  have s: "cs_state_ok env st1 \<and> dec_id \<le> dec1 \<and> cs_wl st1 = cs_wl st
    \<and> everyone (cs_abs st1) = everyone (cs_abs st) + mset (map (\<lambda>k. dec_id + int k) [0..<nat (dec1 - dec_id)])
    \<and> (\<forall>y. y \<noteq> z \<longrightarrow> cs_pools st1 ! y = cs_pools st ! y) \<and> int (length (cs_pools st1 ! z)) \<le> max 0 (decode_pool (ce_op env))"
    by (rule cs_cold_node_step [OF n Cons.prems(2) assms(3)]) (use Cons.prems in auto)
  have run: "fold (cs_cold_node env cnodes) zs (rng1, dec1, st1) = (rng', dec_id', st')" using Cons.prems(1) n by simp
  have "\<forall>z' \<in> set zs. cs_pools st1 ! z' = []" using s Cons.prems(6,7) by auto
  then have IH: "cs_state_ok env st' \<and> dec1 \<le> dec_id' \<and> cs_wl st' = cs_wl st1
    \<and> everyone (cs_abs st') = everyone (cs_abs st1) + mset (map (\<lambda>k. dec1 + int k) [0..<nat (dec_id' - dec1)])
    \<and> (\<forall>y. y \<notin> set zs \<longrightarrow> cs_pools st' ! y = cs_pools st1 ! y)
    \<and> (\<forall>z \<in> set zs. int (length (cs_pools st' ! z)) \<le> max 0 (decode_pool (ce_op env)))"
    using s Cons.prems by (intro Cons.IH [OF run]) auto
  have "map (\<lambda>k. dec_id + int k) [0..<nat (dec_id' - dec_id)]
      = map (\<lambda>k. dec_id + int k) [0..<nat (dec1 - dec_id)] @ map (\<lambda>k. dec1 + int k) [0..<nat (dec_id' - dec1)]"
  proof -
    have le: "dec_id \<le> dec1" "dec1 \<le> dec_id'" using s IH by blast+
    then have "nat (dec_id' - dec_id) = nat (dec1 - dec_id) + nat (dec_id' - dec1)" by linarith
    then show ?thesis using le by (auto simp: nth_append intro!: nth_equalityI)
  qed
  moreover have "\<forall>y \<in> set (z # zs). int (length (cs_pools st' ! y)) \<le> max 0 (decode_pool (ce_op env))"
    using IH s Cons.prems(7) by auto
  ultimately show ?case using IH s by auto
qed simp

text \<open>A state before the start: everything is empty, and the counter of the workload is 0.\<close>

definition cs_blank :: "'g CsEnv \<Rightarrow> 'g CsState \<Rightarrow> bool" where
  "cs_blank env st \<longleftrightarrow> cs_ok env st \<and> cs_pools st = replicate (ce_Z env) [] \<and> gq_q (cs_queue st) = []
     \<and> cs_aff st = replicate (ce_Z env) [] \<and> by_round (cs_pend st) = [] \<and> mt_next_id (cs_wl st) = 0"

lemma csched_init_step:
  assumes "csched_init env backlog st = Some st'" and "cs_blank env st" and "env_ok env"
  shows "\<exists>m. cs_state_ok env st' \<and> next_conv (cs_abs st') = int (nat (backlog + 2 * int (ce_Z env)))
    \<and> everyone (cs_abs st') = mset (map int [0..<m]) + mset (map int [0..<nat (backlog + 2 * int (ce_Z env))])
    \<and> (\<forall>z < ce_Z env. int (length (cs_pools st' ! z)) \<le> max 0 (decode_pool (ce_op env)))
    \<and> mt_edge_cutoff (cs_wl st') = mt_edge_cutoff (cs_wl st)"
proof -
  let ?n = "nat (backlog + 2 * int (ce_Z env))"
  obtain q w where s: "seed_queue (ce_lib env) ?n (cs_wl st) (cs_queue st) = Some (q, w)"
    and c: "st' = cs_cold_start env (st\<lparr>cs_queue := q, cs_wl := w\<rparr>)"
    using assms(1) by (auto simp: csched_init_def split: option.splits)
  have b: "cs_ok env st" "cs_pools st = replicate (ce_Z env) []" "gq_q (cs_queue st) = []" "cs_aff st = replicate (ce_Z env) []"
    "by_round (cs_pend st) = []" "mt_next_id (cs_wl st) = 0"
    using assms(2) by (simp_all add: cs_blank_def)
  have cfg: "mt_cfg (cs_wl st) = ce_mt env" using b(1) by (simp add: cs_ok_def)
  obtain rs where rs: "gq_q q = rs" "map r_id rs = map int [0..<?n]" "mt_next_id w = int ?n" "mt_cfg w = ce_mt env"
    "mt_edge_cutoff w = mt_edge_cutoff (cs_wl st)"
    using seed_queue_result [OF s] b cfg by auto
  have "\<forall>r \<in> set (gq_q q). rq_ok r" using seed_queue_ok [OF s assms(3) cfg] b by simp
  let ?st = "st\<lparr>cs_queue := q, cs_wl := w\<rparr>"
  have ok: "cs_state_ok env ?st"
    using b \<open>\<forall>r \<in> set (gq_q q). rq_ok r\<close> rs by (simp add: cs_state_ok_def cs_ok_def counters_ok_def concat_replicate_trivial)
  have "ids_of rs = mset (map int [0..<?n])" using rs(2) by (metis ids_of_def mset_map)
  then have e: "everyone (cs_abs ?st) = mset (map int [0..<?n])"
    using b rs by (simp add: cs_abs_def everyone_def concat_replicate_trivial)
  let ?nd = "nat (int (ce_Z env) * decode_pool (ce_op env) * 2)" and ?g = "lib_seed (ce_lib env) (ce_seed env)"
  obtain draw rng where d: "draw_list (ce_lib env) ?nd ?g = (draw, rng)" by fastforce
  let ?cn = "fst (cold_start (lib_shuffle (ce_lib env)) (kept (gate draw (ce_op env)))
      (replicate (ce_Z env) \<lparr>cn_lengths = [], cn_total = 0\<rparr>) (ce_op env) (ce_seed env))"
  obtain rng' dec' st'' where f: "fold (cs_cold_node env ?cn) [0..<ce_Z env] (rng, 0, ?st) = (rng', dec', st'')" using prod_cases3 by blast
  have "st' = st''" using c f by (simp add: cs_cold_start_def d Let_def)
  have "\<forall>z \<in> set [0..<ce_Z env]. \<forall>x \<in> set (cn_lengths (?cn ! z)). 0 \<le> x"
    using cold_lengths_nonneg [OF assms(3), of ?cn ?nd ?g] d by auto
  then have "cs_state_ok env st'' \<and> 0 \<le> dec' \<and> cs_wl st'' = cs_wl ?st
    \<and> everyone (cs_abs st'') = everyone (cs_abs ?st) + mset (map (\<lambda>k. 0 + int k) [0..<nat (dec' - 0)])
    \<and> (\<forall>y. y \<notin> set [0..<ce_Z env] \<longrightarrow> cs_pools st'' ! y = cs_pools ?st ! y)
    \<and> (\<forall>z \<in> set [0..<ce_Z env]. int (length (cs_pools st'' ! z)) \<le> max 0 (decode_pool (ce_op env)))"
    using b by (intro cs_cold_fold [OF f ok assms(3)]) auto
  then show ?thesis unfolding \<open>st' = st''\<close> using e rs(3,5) by (intro exI [of _ "nat dec'"]) (simp add: cs_abs_def add.commute)
qed

lemma csched_state_blank:
  assumes "env_ok env" and "0 \<le> ce_cache_cap env" and "0 \<le> ce_kv_bpt env"
  shows "cs_blank env (csched_state env a cfg cutoff)"
  using assms cache_inv_make [OF assms(2,3)]
  by (simp add: cs_blank_def csched_state_def cs_ok_def counters_ok_def make_mt_def make_queue_def pending_ok_def make_metrics_def
      metrics_inv_def make_kpi_def kpi_inv_def concat_replicate_trivial) (simp add: make_cache_def)

end
