(* ===== verification/Csched_Props.thy ===== *)
theory Csched_Props
  imports Csched_Round
begin

text \<open>The properties of the driver, from the step lemmas of \<open>Csched_Round\<close>.\<close>

section \<open>Runs\<close>

text \<open>The run of the driver from its empty state, on a valid library and configuration.\<close>

definition run_ok :: "'g CsEnv \<Rightarrow> bool" where
  "run_ok env \<longleftrightarrow> env_ok env \<and> 0 \<le> ce_cache_cap env \<and> 0 \<le> ce_kv_bpt env"

lemma csched_run_ok:
  assumes "csched_run env a cfg cutoff backlog n = Some st" and "run_ok env"
  shows "\<exists>m. cs_state_ok env st \<and> size (everyone (cs_abs st)) = m + nat (backlog + 2 * int (ce_Z env))
    \<and> (\<forall>z < ce_Z env. int (length (cs_pools st ! z)) \<le> max 0 (decode_pool (ce_op env)))"
proof -
  obtain st0 where i: "csched_init env backlog (csched_state env a cfg cutoff) = Some st0" and l: "csched_loop env n 0 st0 = Some st"
    using assms(1) by (auto simp: csched_run_def split: option.splits)
  have e: "env_ok env" using assms(2) by (simp add: run_ok_def)
  have "cs_blank env (csched_state env a cfg cutoff)" using assms(2) by (simp add: csched_state_blank run_ok_def)
  from csched_init_step [OF i this e] obtain m where m: "cs_state_ok env st0"
    "everyone (cs_abs st0) = mset (map int [0..<m]) + mset (map int [0..<nat (backlog + 2 * int (ce_Z env))])"
    "\<forall>z < ce_Z env. int (length (cs_pools st0 ! z)) \<le> max 0 (decode_pool (ce_op env))" by blast
  note s = csched_loop_ok [OF l m(1) e]
  have "size (everyone (cs_abs st)) = size (everyone (cs_abs st0))" using s pop_steps_size by blast
  moreover have "int (length (cs_pools st ! z)) \<le> max 0 (decode_pool (ce_op env))" if "z < ce_Z env" for z
  proof -
    have "int (length (cs_pools st ! z)) \<le> int (length (cs_pools st0 ! z))" using s by simp
    also have "\<dots> \<le> max 0 (decode_pool (ce_op env))" using m(3) that by blast
    finally show ?thesis .
  qed
  ultimately show ?thesis using s m(2) by (intro exI [of _ m]) simp
qed

lemma everyone_lengths:
  "size (everyone (cs_abs st)) =
     length (concat (cs_pools st)) + length (gq_q (cs_queue st)) + length (concat (cs_aff st)) + length (by_round (cs_pend st))"
  by (simp add: cs_abs_def everyone_def ids_in_def ids_of_def)

text \<open>The start leaves lines and pending returns as they are.\<close>

lemma cs_cold_admit_frame:
  "cs_cold_admit env z lens rng i pl st = (pl', rng', i', st') \<Longrightarrow> cs_aff st' = cs_aff st \<and> cs_pend st' = cs_pend st"
proof (induction lens arbitrary: rng i pl st)
  case (Cons l lens)
  obtain d rng1 where d: "lib_int (ce_lib env) (dtot_lo (ce_mt env)) (dtot_hi (ce_mt env)) rng = (d, rng1)" by fastforce
  let ?r = "\<lparr>r_id = i, r_prompt = l, r_max_tokens = d, r_cached_prefix = 0, r_arrival = 0, r_turn = 0\<rparr>"
  obtain met st1 where a: "cs_admit_ttft env ?r z 0 (- 1) st = (met, st1)" by fastforce
  from Cons.IH [of rng1 "i + 1" "pl @ [decoder_of ?r met]" st1] Cons.prems d a cs_admit_ttft_frame(3,4) [OF a]
  show ?case by (simp add: Let_def)
qed simp

lemma cs_top_up_frame:
  "cs_top_up env z rng pl st = (pl', rng', st') \<Longrightarrow> cs_aff st' = cs_aff st \<and> cs_pend st' = cs_pend st"
proof (induction env z rng pl st rule: cs_top_up.induct)
  case (1 env z rng pl st)
  obtain hole rng1 where h: "cs_hole env pl rng = (hole, rng1)" by fastforce
  obtain r q where p: "gq_pull_slot (cs_queue st) (dbl hole) (ce_cap_room env) 0 = (r, q)" by fastforce
  obtain met st1 where a: "cs_admit_ttft env r z 0 (- 1) (st\<lparr>cs_queue := q\<rparr>) = (met, st1)" by fastforce
  show ?case
  proof (cases "int (length pl) < decode_pool (ce_op env) \<and> \<not> r_id r < 0")
    case True
    then have "cs_top_up env z rng1 (pl @ [decoder_of r met]) st1 = (pl', rng', st')"
      using 1(2) h p a by (simp add: cs_top_up.simps [of env z rng pl st] Let_def)
    from 1(1) [OF _ h [symmetric] p [symmetric] refl _ a [symmetric] this] True cs_admit_ttft_frame(3,4) [OF a]
    show ?thesis by simp
  next
    case False
    with 1(2) h p show ?thesis by (auto simp: cs_top_up.simps [of env z rng pl st] Let_def split: if_splits)
  qed
qed

lemma csched_init_frame:
  assumes "csched_init env backlog st = Some st'"
  shows "cs_aff st' = cs_aff st \<and> cs_pend st' = cs_pend st"
proof -
  have n: "cs_aff s' = cs_aff s \<and> cs_pend s' = cs_pend s"
    if "cs_cold_node env cn z (rng, i, s) = (rng', i', s')" for cn z rng i rng' i' and s s' :: "'a CsState"
    using that cs_cold_admit_frame cs_top_up_frame by (fastforce simp: cs_cold_node_def Let_def split: prod.splits)
  have f: "cs_aff s' = cs_aff s \<and> cs_pend s' = cs_pend s"
    if "fold (cs_cold_node env cn) zs (rng, i, s) = (rng', i', s')" for cn zs rng i rng' i' and s s' :: "'a CsState"
    using that
  proof (induction zs arbitrary: rng i s)
    case (Cons z zs)
    obtain rng1 i1 s1 where s: "cs_cold_node env cn z (rng, i, s) = (rng1, i1, s1)" using prod_cases3 by blast
    from Cons.IH [of rng1 i1 s1] Cons.prems s n [OF s] show ?case by simp
  qed simp
  have c: "cs_aff (cs_cold_start env s) = cs_aff s \<and> cs_pend (cs_cold_start env s) = cs_pend s" for s :: "'a CsState"
  proof -
    obtain draw rng where d: "draw_list (ce_lib env) (nat (int (ce_Z env) * decode_pool (ce_op env) * 2))
        (lib_seed (ce_lib env) (ce_seed env)) = (draw, rng)" by fastforce
    let ?cn = "fst (cold_start (lib_shuffle (ce_lib env)) (kept (gate draw (ce_op env)))
        (replicate (ce_Z env) \<lparr>cn_lengths = [], cn_total = 0\<rparr>) (ce_op env) (ce_seed env))"
    obtain rng' i' s' where r: "fold (cs_cold_node env ?cn) [0..<ce_Z env] (rng, 0, s) = (rng', i', s')" using prod_cases3 by blast
    then have "cs_cold_start env s = s'" by (simp add: cs_cold_start_def d Let_def)
    with f [OF r] show ?thesis by simp
  qed
  show ?thesis using assms by (auto simp: csched_init_def c split: option.splits)
qed

section \<open>Lines\<close>

lemma cs_diagnose_aff: "cs_diagnose env z it pl (st, acc) = (st', acc') \<Longrightarrow> cs_aff st' = cs_aff st"
  by (auto simp: cs_diagnose_def Let_def split: prod.splits if_splits)

lemma cs_heal_aff:
  assumes "cs_heal env z now it holes pl st = (pl', st')" and "cs_ok env st" and "z < ce_Z env" and "\<forall>q \<in> set pl. decoder_ok q"
  shows "set (cs_aff st' ! y) \<subseteq> set (cs_aff st ! y)"
  using assms(1,2,4)
proof (induction holes arbitrary: pl st)
  case (Cons hole holes)
  from Cons.prems(2) assms(3) Cons.prems(3) show ?case
  proof (cases rule: cs_heal_hole [where now = now and it = it and hole = hole and holes = holes])
    case (healed r st0 pl1 st1)
    note a = cs_admit_step [OF healed(2,4,3) Cons.prems(3)]
    have run: "cs_heal env z now it holes pl1 st1 = (pl', st')" using Cons.prems(1) healed(1) by simp
    have "set (cs_aff st0 ! y) \<subseteq> set (cs_aff st ! y)"
      using healed(7)
    proof (elim disjE conjE)
      assume ne: "cs_aff st ! z \<noteq> []" and l: "cs_from_line z now st = (r, st0)"
      note f = cs_from_line_step [OF l Cons.prems(2) assms(3) ne]
      show ?thesis
      proof (cases "y = z")
        case True
        have "set (cs_aff st ! z) = insert r (set (cs_aff st0 ! z))" using f(7) by (metis set_mset_add_mset_insert set_mset_mset)
        with True show ?thesis by blast
      next
        case False
        with f(8) show ?thesis by simp
      qed
    qed simp
    with Cons.IH [OF run a(1,4)] a(7) show ?thesis by auto
  next
    case (dry q)
    with Cons.prems show ?thesis by simp
  qed
qed simp

lemma cs_node_step_aff:
  assumes "cs_node_step env it z (st, acc) = Some (st', acc')" and "cs_state_ok env st" and "env_ok env" and "z < ce_Z env"
  shows "set (cs_aff st' ! y) \<subseteq> set (cs_aff st ! y)"
proof -
  from assms(1) obtain used st1 pl1 st2 keep holes st3 pl st4 where
    c: "cs_compose env it (cs_pools st ! z) st = (used, st1)" and a: "cs_advance env it used (cs_pools st1 ! z) st1 = (pl1, st2)"
    and r: "cs_retire env z it it pl1 st2 = Some (keep, holes, st3)" and h: "cs_heal env z it it holes keep st3 = (pl, st4)"
    and d: "cs_diagnose env z it pl (st4\<lparr>cs_pools := (cs_pools st4)[z := pl]\<rparr>, acc) = (st', acc')"
    by (rule cs_node_step_stages)
  note turn = cs_node_turn [OF c a r h assms(2-4)]
  show ?thesis
    using cs_heal_aff [OF h turn(7) assms(4) turn(8), of y] cs_diagnose_aff [OF d] turn(10) by simp
qed

lemma cs_nodes_aff:
  assumes "cs_nodes env it zs (st, acc) = Some (st', acc')" and "cs_state_ok env st" and "env_ok env" and "\<forall>z \<in> set zs. z < ce_Z env"
  shows "set (cs_aff st' ! y) \<subseteq> set (cs_aff st ! y)"
  using assms(1,2,4)
proof (induction zs arbitrary: st acc)
  case (Cons z zs)
  from Cons.prems(1) obtain st1 acc1 where s: "cs_node_step env it z (st, acc) = Some (st1, acc1)"
    and r: "cs_nodes env it zs (st1, acc1) = Some (st', acc')"
    by (auto split: option.splits)
  have z: "z < ce_Z env" "\<forall>z \<in> set zs. z < ce_Z env" using Cons.prems(3) by simp_all
  from Cons.IH [OF r cs_node_step_ok(1) [OF s Cons.prems(2) assms(3) z(1)] z(2)] cs_node_step_aff [OF s Cons.prems(2) assms(3) z(1)]
  show ?case by blast
qed simp

text \<open>What healing takes from the line: the requests that arrived first.\<close>

lemma cs_heal_line:
  assumes "cs_heal env z now it holes pl st = (pl', st')" and "cs_ok env st" and "z < ce_Z env" and "\<forall>q \<in> set pl. decoder_ok q"
    and "ce_affinity env"
  shows "\<exists>served rest. mset (cs_aff st ! z) = mset served + mset (cs_aff st' ! z)
    \<and> length served = min (length holes) (length (cs_aff st ! z)) \<and> sorted (map r_arrival served)
    \<and> (\<forall>s \<in> set served. \<forall>r \<in> set (cs_aff st' ! z). r_arrival s \<le> r_arrival r)
    \<and> map sd_id pl' = map sd_id pl @ map r_id served @ rest
    \<and> (length holes \<le> length (cs_aff st ! z) \<longrightarrow> rest = [] \<and> cs_queue st' = cs_queue st)"
  using assms(1,2,4)
proof (induction holes arbitrary: pl st)
  case Nil
  then show ?case by (intro exI [of _ "[]"]) simp
next
  case (Cons hole holes)
  show ?case
  proof (cases "cs_aff st ! z = []")
    case True
    have "set (cs_aff st' ! z) \<subseteq> {}" using cs_heal_aff [OF Cons.prems(1,2) assms(3) Cons.prems(3), of z] True by simp
    then have e: "cs_aff st' ! z = []" by simp
    have "\<exists>rest. map sd_id pl' = map sd_id pl @ rest"
    proof -
      have "\<exists>rest. pl1' = pl1 @ rest" if "cs_heal env z now it hs pl1 st1 = (pl1', st1')" for hs pl1 st1 pl1' st1'
        using that
      proof (induction hs arbitrary: pl1 st1)
        case (Cons h hs)
        have ad: "\<exists>x. fst (cs_admit env z now it r p s) = p @ [x]" for r p s by (simp add: cs_admit_def split: prod.splits)
        show ?case
        proof (cases "ce_affinity env \<and> cs_aff st1 ! z \<noteq> []")
          case True
          obtain r s0 where l: "cs_from_line z now st1 = (r, s0)" by fastforce
          obtain p2 s2 where a: "cs_admit env z now it r pl1 s0 = (p2, s2)" by fastforce
          from Cons.IH [of p2 s2] Cons.prems True l a ad [of r pl1 s0] show ?thesis by auto
        next
          case False
          obtain r q where p: "gq_pull_slot (cs_queue st1) (dbl h) (ce_cap_room env) now = (r, q)" by fastforce
          obtain p2 s2 where a: "cs_admit env z now it r pl1 (st1\<lparr>cs_queue := q\<rparr>) = (p2, s2)" by fastforce
          from Cons.IH [of p2 s2] Cons.prems False p a ad [of r pl1 "st1\<lparr>cs_queue := q\<rparr>"] show ?thesis
            by (auto split: if_splits)
        qed
      qed simp
      then have "\<exists>rest. pl' = pl @ rest" using Cons.prems(1) by blast
      then show ?thesis by auto
    qed
    then obtain rest where "map sd_id pl' = map sd_id pl @ rest" by blast
    with True e show ?thesis by - (rule exI [of _ "[]"], rule exI [of _ rest], simp)
  next
    case False
    from Cons.prems(2) assms(3) Cons.prems(3) show ?thesis
    proof (cases rule: cs_heal_hole [where now = now and it = it and hole = hole and holes = holes])
      case (healed r st0 pl1 st1)
      with False assms(5) have l: "cs_from_line z now st = (r, st0)" by blast
      note f = cs_from_line_step [OF l Cons.prems(2) assms(3) False]
      note a = cs_admit_step [OF healed(2,4,3) Cons.prems(3)]
      have run: "cs_heal env z now it holes pl1 st1 = (pl', st')" using Cons.prems(1) healed(1) by simp
      from Cons.IH [OF run a(1,4)] obtain served rest where IH: "mset (cs_aff st1 ! z) = mset served + mset (cs_aff st' ! z)"
        "length served = min (length holes) (length (cs_aff st1 ! z))" "sorted (map r_arrival served)"
        "\<forall>s \<in> set served. \<forall>r \<in> set (cs_aff st' ! z). r_arrival s \<le> r_arrival r"
        "map sd_id pl' = map sd_id pl1 @ map r_id served @ rest"
        "length holes \<le> length (cs_aff st1 ! z) \<longrightarrow> rest = [] \<and> cs_queue st' = cs_queue st1" by blast
      have m: "mset (cs_aff st ! z) = add_mset r (mset (cs_aff st1 ! z))" using f(7) a(7) by simp
      then have len: "length (cs_aff st ! z) = length (cs_aff st1 ! z) + 1" by (metis size_add_mset size_mset Suc_eq_plus1)
      have le: "\<forall>x \<in> set (cs_aff st1 ! z). r_arrival r \<le> r_arrival x"
        using f(6) m by (metis insertCI set_mset_add_mset_insert set_mset_mset)
      have sub: "set served \<union> set (cs_aff st' ! z) = set (cs_aff st1 ! z)" using IH(1) by (metis set_mset_mset set_mset_union)
      show ?thesis
      proof (intro exI [of _ "r # served"] exI [of _ rest] conjI)
        show "mset (cs_aff st ! z) = mset (r # served) + mset (cs_aff st' ! z)" using m IH(1) by simp
        show "length (r # served) = min (length (hole # holes)) (length (cs_aff st ! z))" using IH(2) len by simp
        show "sorted (map r_arrival (r # served))" using IH(3) le sub by auto
        show "\<forall>s \<in> set (r # served). \<forall>x \<in> set (cs_aff st' ! z). r_arrival s \<le> r_arrival x" using IH(4) le sub by auto
        show "map sd_id pl' = map sd_id pl @ map r_id (r # served) @ rest" using IH(5) a(9) by auto
        show "length (hole # holes) \<le> length (cs_aff st ! z) \<longrightarrow> rest = [] \<and> cs_queue st' = cs_queue st"
          using IH(6) len a(8) f(9) by simp
      qed
    next
      case (dry q)
      with False assms(5) show ?thesis by simp
    qed
  qed
qed

section \<open>The end of healing\<close>

lemma cs_heal_stop:
  assumes "cs_heal env z now it holes pl st = (pl', st')" and "cs_ok env st" and "z < ce_Z env" and "\<forall>q \<in> set pl. decoder_ok q"
  shows "length pl' = length pl + length holes
    \<or> \<not> (ce_affinity env \<and> cs_aff st' ! z \<noteq> [])
      \<and> (\<exists>hole \<in> set holes. r_id (fst (gq_pull_slot (cs_queue st') (dbl hole) (ce_cap_room env) now)) < 0)"
  using assms(1,2,4)
proof (induction holes arbitrary: pl st)
  case (Cons hole holes)
  from Cons.prems(2) assms(3) Cons.prems(3) show ?case
  proof (cases rule: cs_heal_hole [where now = now and it = it and hole = hole and holes = holes])
    case (healed r st0 pl1 st1)
    note a = cs_admit_step [OF healed(2,4,3) Cons.prems(3)]
    have run: "cs_heal env z now it holes pl1 st1 = (pl', st')" using Cons.prems(1) healed(1) by simp
    from Cons.IH [OF run a(1,4)] a(5) show ?thesis by auto
  next
    case (dry q)
    let ?p = "gq_pull_slot (cs_queue st) (dbl hole) (ce_cap_room env) now"
    have st': "st' = st\<lparr>cs_queue := q\<rparr>" using Cons.prems(1) dry(1) by simp
    have "snd ?p = q"
    proof -
      have "cs_heal env z now it (hole # holes) pl st = (pl, st\<lparr>cs_queue := snd ?p\<rparr>)"
        using dry(4,5) by (auto split: prod.splits)
      with dry(1) have "st\<lparr>cs_queue := snd ?p\<rparr> = st\<lparr>cs_queue := q\<rparr>" by simp
      from arg_cong [OF this, of cs_queue] show ?thesis by simp
    qed
    then have p: "?p = (fst ?p, q)" by (metis prod.collapse)
    note neg = dry(5)
    have "q = cs_queue st"
    proof (cases "find_oldest_aged (cs_queue st) now")
      case None
      with p have n: "gq_pull_near (cs_queue st) (dbl hole) (ce_cap_room env) = (fst ?p, q)" by (simp add: gq_pull_slot_def)
      show ?thesis
      proof (cases "find_near (cs_queue st) (dbl hole) (ce_cap_room env)")
        case (Some i)
        with n have t: "gq_take i (cs_queue st) = (fst ?p, q)" by (simp add: gq_pull_near_def)
        have "fst ?p \<in> set (gq_q (cs_queue st))" using gq_take_set [OF find_near_Some(1) [OF Some] t] .
        then have "rq_ok (fst ?p)" using Cons.prems(2) unfolding cs_ok_def by blast
        with neg show ?thesis by (simp add: rq_ok_def)
      qed (use n in \<open>simp add: gq_pull_near_def\<close>)
    next
      case (Some i)
      let ?g = "(cs_queue st)\<lparr>gq_forced := gq_forced (cs_queue st) + 1\<rparr>"
      from Some p have t: "gq_take i ?g = (fst ?p, q)" by (simp add: gq_pull_slot_def)
      have "i < length (gq_q ?g)" using find_oldest_Some(1) [OF Some] by simp
      from gq_take_set [OF this t] have "fst ?p \<in> set (gq_q (cs_queue st))" by simp
      then have "rq_ok (fst ?p)" using Cons.prems(2) unfolding cs_ok_def by blast
      with neg show ?thesis by (simp add: rq_ok_def)
    qed
    with st' have "st' = st" by simp
    with dry(4,5) show ?thesis by auto
  qed
qed simp

section \<open>The byte budget\<close>

lemma pool_stats_sum: "fst (pool_stats pl) = (\<Sum>q \<leftarrow> pl. sd_live_kv q)"
proof -
  have "fst (fold (\<lambda>q (s, rc). (s + sd_live_kv q, rc[class_of (sd_prompt q) := rc ! class_of (sd_prompt q) + 1])) pl (s0, rc0))
      = s0 + (\<Sum>q \<leftarrow> pl. sd_live_kv q)" for s0 and rc0 :: "int list"
    by (induction pl arbitrary: s0 rc0) auto
  then show ?thesis by (simp add: pool_stats_def)
qed

lemma enforce_used:
  assumes "cache_inv c" and "z < length (node_budget c)"
  shows "node_used (enforce_budget z budget c) ! z \<le> max 0 budget"
proof -
  let ?c = "enforce_budget z budget c"
  have "node_used ?c ! z \<le> node_budget ?c ! z"
    using enforce_inv [OF assms, of budget] assms(2) by (auto simp: cache_inv_def budget_length)
  also have "node_budget ?c ! z = max 0 budget"
    using assms(2) by (auto simp: enforce_budget_def Let_def max_def split: prod.splits)
  finally show ?thesis .
qed

section \<open>The histogram\<close>

lemma gap_clamp_range: "0 \<le> gap_clamp g" "gap_clamp g \<le> 4095" "nat (gap_clamp g) < 4096"
  by (auto simp: gap_clamp_def Let_def)

text \<open>The histogram of a list of gaps: the counts of the clamped gaps.\<close>

lemma gap_fold:
  assumes "gh = fold gap_add gs make_hist"
  shows "length (gh_h gh) = 4096 \<and> (\<forall>k < 4096. gh_h gh ! k = int (length (filter (\<lambda>g. gap_clamp g = int k) gs)))
    \<and> gh_n gh = int (length gs) \<and> (\<forall>g \<in> set gs. gap_clamp g \<le> gh_mx gh) \<and> (gh_mx gh = 0 \<or> gh_mx gh \<in> gap_clamp ` set gs)"
  using assms
proof (induction gs arbitrary: gh rule: rev_induct)
  case Nil
  then show ?case by (simp add: make_hist_def)
next
  case (snoc g gs)
  let ?gh = "fold gap_add gs make_hist"
  note IH = snoc.IH [OF refl]
  have e: "gh = gap_add g ?gh" using snoc.prems by simp
  have h: "gh_h gh = (gh_h ?gh)[nat (gap_clamp g) := gh_h ?gh ! nat (gap_clamp g) + 1]" "gh_n gh = gh_n ?gh + 1"
    "gh_mx gh = (if gh_mx ?gh < gap_clamp g then gap_clamp g else gh_mx ?gh)"
    by (simp_all add: e gap_add_def Let_def)
  have "gh_h gh ! k = int (length (filter (\<lambda>g. gap_clamp g = int k) (gs @ [g])))" if k: "k < 4096" for k
  proof (cases "int k = gap_clamp g")
    case True
    then have "nat (gap_clamp g) = k" by simp
    with True k IH show ?thesis by (simp add: h)
  next
    case False
    then have "nat (gap_clamp g) \<noteq> k" using gap_clamp_range(1) [of g] by auto
    with False k IH show ?thesis by (simp add: h)
  qed
  moreover have "\<forall>x \<in> set (gs @ [g]). gap_clamp x \<le> gh_mx gh" using IH by (auto simp: h(3))
  moreover have "gh_mx gh = 0 \<or> gh_mx gh \<in> gap_clamp ` set (gs @ [g])" using IH by (auto simp: h(3))
  ultimately show ?case using IH h by simp
qed

text \<open>The scan of the counts of values from \<open>k\<close> on finds the value at the position asked for.\<close>

lemma pctl_loop_rank:
  assumes "sorted ys" and "\<forall>y \<in> set ys. k \<le> y \<and> y < k + int m" and "0 \<le> t" and "t < int (length ys)"
  shows "pctl_loop (acc + t) acc k (map (\<lambda>j. int (length (filter (\<lambda>y. y = k + int j) ys))) [0..<m]) = Some (ys ! nat t)"
  using assms
proof (induction m arbitrary: k ys t acc)
  case 0
  then show ?case by (cases ys) auto
next
  case (Suc m)
  let ?c = "length (filter (\<lambda>y. y = k) ys)"
  have ys: "ys = replicate ?c k @ filter (\<lambda>y. k < y) ys"
  proof -
    have "sorted xs \<Longrightarrow> \<forall>y \<in> set xs. k \<le> y \<Longrightarrow> xs = replicate (length (filter (\<lambda>y. y = k) xs)) k @ filter (\<lambda>y. k < y) xs" for xs
    proof (induction xs)
      case (Cons x xs)
      show ?case
      proof (cases "x = k")
        case True
        with Cons show ?thesis by simp
      next
        case False
        with Cons.prems have "\<forall>y \<in> set (x # xs). k < y" by fastforce
        then show ?thesis by (simp add: filter_id_conv) (auto simp: filter_empty_conv)
      qed
    qed simp
    then show ?thesis using Suc.prems(1,2) by blast
  qed
  have cnt: "map (\<lambda>j. int (length (filter (\<lambda>y. y = k + int j) ys))) [0..<Suc m]
      = int ?c # map (\<lambda>j. int (length (filter (\<lambda>y. y = k + 1 + int j) (filter (\<lambda>y. k < y) ys)))) [0..<m]"
  proof -
    have "filter (\<lambda>y. y = k + int (Suc j)) ys = filter (\<lambda>y. y = k + 1 + int j) (filter (\<lambda>y. k < y) ys)" for j
      by (auto intro!: filter_cong)
    then show ?thesis by (simp only: upt_conv_Cons [OF zero_less_Suc] map_Suc_upt [symmetric] list.map map_map o_def) simp
  qed
  show ?case
  proof (cases "t < int ?c")
    case True
    then have "nat t < ?c" using Suc.prems(3) by linarith
    then have "(replicate ?c k @ filter (\<lambda>y. k < y) ys) ! nat t = k" by (simp add: nth_append)
    then have "ys ! nat t = k" using ys by (metis (full_types))
    with True show ?thesis unfolding cnt by simp
  next
    case False
    let ?zs = "filter (\<lambda>y. k < y) ys"
    have len: "length ys = ?c + length ?zs" using ys by (metis length_append length_replicate)
    have "\<not> nat t < ?c" using False by linarith
    then have "(replicate ?c k @ ?zs) ! nat t = ?zs ! (nat t - ?c)" by (simp add: nth_append)
    then have "ys ! nat t = ?zs ! (nat t - ?c)" using ys by (metis (full_types))
    moreover have "nat t - ?c = nat (t - int ?c)" using False by linarith
    moreover have "pctl_loop (acc + int ?c + (t - int ?c)) (acc + int ?c) (k + 1)
        (map (\<lambda>j. int (length (filter (\<lambda>y. y = k + 1 + int j) ?zs))) [0..<m]) = Some (?zs ! nat (t - int ?c))"
      using Suc.prems False len by (intro Suc.IH) (auto simp: sorted_wrt_filter)
    ultimately show ?thesis using False unfolding cnt by simp
  qed
qed

section \<open>Returning\<close>

definition cs_cut :: "'g CsEnv \<Rightarrow> 'g CsState \<Rightarrow> bool" where
  "cs_cut env st \<longleftrightarrow> cutoff_ok (ce_lib env) (mt_edge_cutoff (cs_wl st))"

lemma cs_complete_returns: "cs_cut env st \<Longrightarrow> \<exists>st'. cs_complete env z now it q st = Some st' \<and> cs_cut env st'"
proof -
  assume cut: "cs_cut env st"
  let ?r = "\<lparr>r_id = sd_id q, r_prompt = sd_prompt q, r_max_tokens = sd_max_tokens q,
                   r_cached_prefix = sd_cached_prefix q, r_arrival = now, r_turn = sd_turn q\<rparr>"
  obtain ret w' where ret: "maybe_return (ce_lib env) ?r now (cs_wl st) = (ret, w')" by fastforce
  have "mt_edge_cutoff w' = mt_edge_cutoff (cs_wl st)" using maybe_return_frame(3) [OF ret] .
  with cut have c: "cutoff_ok (ce_lib env) (mt_edge_cutoff w')" by (simp add: cs_cut_def)
  then obtain r1 w1 where f: "fresh_arrival (ce_lib env) now w' = Some (r1, w1)" using fresh_arrival_returns by blast
  show ?thesis using ret f c fresh_arrival_Some(4) [OF f] by (auto simp: cs_complete_def Let_def cs_cut_def)
qed

lemma cs_retire_returns: "cs_cut env st \<Longrightarrow> \<exists>keep holes st'. cs_retire env z now it pl st = Some (keep, holes, st') \<and> cs_cut env st'"
proof (induction pl arbitrary: st)
  case (Cons q qs)
  show ?case
  proof (cases "cs_finished q")
    case True
    obtain st1 where c: "cs_complete env z now it q st = Some st1" "cs_cut env st1" using cs_complete_returns [OF Cons.prems] by blast
    from Cons.IH [OF c(2)] c(1) True show ?thesis by auto
  next
    case False
    from Cons.IH [OF Cons.prems] False show ?thesis by auto
  qed
qed simp

lemma cs_heal_wl: "cs_heal env z now it holes pl st = (pl', st') \<Longrightarrow> cs_wl st' = cs_wl st"
proof (induction holes arbitrary: pl st)
  case (Cons h hs)
  have ad: "cs_wl s' = cs_wl s" if "cs_admit env z now it r p s = (p', s')" for r p p' and s s' :: "'a CsState"
    using that cs_admit_ttft_frame(2) by (fastforce simp: cs_admit_def split: prod.splits)
  show ?case
  proof (cases "ce_affinity env \<and> cs_aff st ! z \<noteq> []")
    case True
    obtain r s0 where l: "cs_from_line z now st = (r, s0)" by fastforce
    obtain p2 s2 where a: "cs_admit env z now it r pl s0 = (p2, s2)" by fastforce
    have "cs_wl s0 = cs_wl st" using l by (auto simp: cs_from_line_def Let_def split: if_splits)
    with Cons.IH [of p2 s2] Cons.prems True l a ad [OF a] show ?thesis by auto
  next
    case False
    obtain r q where p: "gq_pull_slot (cs_queue st) (dbl h) (ce_cap_room env) now = (r, q)" by fastforce
    obtain p2 s2 where a: "cs_admit env z now it r pl (st\<lparr>cs_queue := q\<rparr>) = (p2, s2)" by fastforce
    from Cons.IH [of p2 s2] Cons.prems False p a ad [OF a] show ?thesis by (auto split: if_splits)
  qed
qed simp

lemma cs_arrivals_wl: "cs_wl (cs_arrivals env now st) = cs_wl st"
proof -
  have r: "cs_wl (fold (cs_route env) rs s) = cs_wl s" for rs and s :: "'a CsState"
    by (induction rs arbitrary: s) (simp_all add: cs_route_def Let_def)
  have "cs_wl (cs_spill_node env now z s) = cs_wl s" for z and s :: "'a CsState"
    by (simp add: cs_spill_node_def split: prod.splits)
  then have "cs_wl (fold (cs_spill_node env now) zs s) = cs_wl s" for zs and s :: "'a CsState"
    by (induction zs arbitrary: s) simp_all
  with r show ?thesis by (simp add: cs_arrivals_def cs_spill_def Let_def split: prod.splits)
qed

lemma cs_node_step_returns: "cs_cut env st \<Longrightarrow> \<exists>st' acc'. cs_node_step env it z (st, acc) = Some (st', acc') \<and> cs_cut env st'"
proof -
  assume cut: "cs_cut env st"
  obtain used st1 where c: "cs_compose env it (cs_pools st ! z) st = (used, st1)" by fastforce
  obtain pl1 st2 where a: "cs_advance env it used (cs_pools st1 ! z) st1 = (pl1, st2)" by fastforce
  have "cs_wl st2 = cs_wl st" using cs_compose_step(1) [OF c] cs_advance_step(5) [OF a] by (simp add: cs_same_def)
  with cut have "cs_cut env st2" by (simp add: cs_cut_def)
  then obtain keep holes st3 where r: "cs_retire env z it it pl1 st2 = Some (keep, holes, st3)" "cs_cut env st3"
    using cs_retire_returns by blast
  obtain pl st4 where h: "cs_heal env z it it holes keep st3 = (pl, st4)" by fastforce
  obtain st' acc' where d: "cs_diagnose env z it pl (st4\<lparr>cs_pools := (cs_pools st4)[z := pl]\<rparr>, acc) = (st', acc')" by fastforce
  have "cs_wl st' = cs_wl st4" using d by (auto simp: cs_diagnose_def Let_def split: prod.splits if_splits)
  then have "cs_cut env st'" using r(2) cs_heal_wl [OF h] by (simp add: cs_cut_def)
  with c a r(1) h d show ?thesis by (simp add: cs_node_step_def)
qed

lemma cs_nodes_returns: "cs_cut env st \<Longrightarrow> \<exists>st' acc'. cs_nodes env it zs (st, acc) = Some (st', acc') \<and> cs_cut env st'"
proof (induction zs arbitrary: st acc)
  case (Cons z zs)
  obtain st1 acc1 where s: "cs_node_step env it z (st, acc) = Some (st1, acc1)" "cs_cut env st1"
    using cs_node_step_returns [OF Cons.prems] by blast
  from Cons.IH [OF s(2), of acc1] s(1) show ?case by auto
qed simp

lemma csched_round_returns: "cs_cut env st \<Longrightarrow> \<exists>st'. csched_round env it st = Some st' \<and> cs_cut env st'"
proof -
  assume "cs_cut env st"
  then have "cs_cut env (cs_arrivals env it st)" by (simp add: cs_cut_def cs_arrivals_wl)
  from cs_nodes_returns [OF this, of it "[0..<ce_Z env]" "\<lparr>pa_resid = [dlit 0, dlit 0, dlit 0], pa_mean = dlit 0, pa_nodes = 0\<rparr>"]
  show ?thesis by (auto simp: csched_round_def cs_cut_def)
qed

lemma csched_loop_returns: "cs_cut env st \<Longrightarrow> \<exists>st'. csched_loop env n it st = Some st'"
proof (induction n arbitrary: it st)
  case (Suc n)
  obtain st1 where "csched_round env it st = Some st1" "cs_cut env st1" using csched_round_returns [OF Suc.prems] by blast
  with Suc.IH [of st1 "it + 1"] show ?case by simp
qed simp

lemma csched_run_some:
  assumes "run_ok env" and "cutoff_ok (ce_lib env) cutoff"
  shows "\<exists>st. csched_run env a cfg cutoff backlog n = Some st"
proof -
  let ?st = "csched_state env a cfg cutoff"
  have w: "mt_edge_cutoff (cs_wl ?st) = cutoff" by (simp add: csched_state_def make_mt_def)
  then have "cutoff_ok (ce_lib env) (mt_edge_cutoff (cs_wl ?st))" using assms(2) by simp
  from seed_queue_returns [OF this, of "nat (backlog + 2 * int (ce_Z env))" "cs_queue ?st"]
  obtain st0 where i: "csched_init env backlog ?st = Some st0" by (auto simp: csched_init_def)
  have b: "cs_blank env ?st" and e: "env_ok env" using assms(1) by (simp_all add: csched_state_blank run_ok_def)
  have "cs_cut env st0" using csched_init_step [OF i b e] w assms(2) by (auto simp: cs_cut_def)
  from csched_loop_returns [OF this] i show ?thesis by (simp add: csched_run_def)
qed

section \<open>A small cluster\<close>

definition demo_env :: "nat CsEnv" where
  "demo_env = \<lparr>ce_lib = toy_lib, ce_d = small_deployment\<lparr>d_op := demo_op\<rparr>, ce_op = demo_op,
     ce_slo = \<lparr>t_ttft_us = dlit 5000000, t_tbt_us = dlit 2600\<rparr>, ce_beta = dlit (1 / 2), ce_warm = 0, ce_Z = 2, ce_seed = 0,
     ce_mt = demo_mt, ce_affinity = True, ce_dyncache = True, ce_spill_cap = 1, ce_cap_room = 600000, ce_kv_bpt = 2,
     ce_design_pool_bytes = 300000, ce_cache_cap = 400000\<rparr>"

lemma demo_run_ok: "run_ok demo_env"
  by (simp add: run_ok_def sim_ok_def demo_env_def toy_lib_ok toy_lengths mt_ok_def demo_mt_def small_mt_def)

lemma demo_run: "\<exists>st. csched_run demo_env demo_args default_sim 100000 backlog n = Some st"
  by (rule csched_run_some [OF demo_run_ok]) (simp add: demo_env_def toy_cutoff)

section \<open>Properties\<close>

text \<open>C1: Refinement: a round of the driver, with its returns, spills, completions and admissions on
  every node, is a sequence of steps of the abstract cluster, in which each conversation is at
  one place and an ended one is replaced by a new one.\<close>
theorem csched_round_refines:
  assumes "csched_round env it st = Some st'" and "cs_state_ok env st" and "env_ok env"
  shows "pop_steps (cs_abs st) (cs_abs st')"
  using assms by (rule csched_round_ok)

text \<open>C10: Well-formedness: a round keeps the state well formed, with valid requests and decoders, lines and
  pools for every node, the store of returns ordered, the cache accounts exact and the counters consistent.\<close>
theorem csched_round_wf:
  assumes "csched_round env it st = Some st'" and "cs_state_ok env st" and "env_ok env"
  shows "cs_state_ok env st'"
  using assms by (rule csched_round_ok)

text \<open>The state before the first round.\<close>

lemma demo_state: "\<exists>st. csched_run demo_env demo_args default_sim 100000 2 k = Some st \<and> cs_state_ok demo_env st"
proof -
  obtain st where r: "csched_run demo_env demo_args default_sim 100000 2 k = Some st" using demo_run by blast
  with csched_run_ok [OF r demo_run_ok] show ?thesis by blast
qed

lemma csched_loop_last:
  "csched_loop env (Suc n) it st = (case csched_loop env n it st of None \<Rightarrow> None | Some st' \<Rightarrow> csched_round env (it + int n) st')"
proof (induction n arbitrary: it st)
  case (Suc n)
  show ?case
  proof (cases "csched_round env it st")
    case (Some st1)
    have "csched_loop env (Suc (Suc n)) it st = csched_loop env (Suc n) (it + 1) st1" using Some by (simp only: csched_loop.simps option.case)
    also have "\<dots> = (case csched_loop env n (it + 1) st1 of None \<Rightarrow> None | Some st' \<Rightarrow> csched_round env (it + int (Suc n)) st')"
      using Suc.IH [of "it + 1" st1] by (simp only: of_nat_Suc add.assoc)
    also have "csched_loop env n (it + 1) st1 = csched_loop env (Suc n) it st" using Some by (simp only: csched_loop.simps option.case)
    finally show ?thesis .
  next
    case None
    then show ?thesis by (simp only: csched_loop.simps option.case)
  qed
qed (simp split: option.split)

lemma demo_round: "\<exists>st st'. csched_run demo_env demo_args default_sim 100000 2 4 = Some st \<and> cs_state_ok demo_env st
    \<and> csched_round demo_env 4 st = Some st'"
proof -
  obtain st where st: "csched_run demo_env demo_args default_sim 100000 2 4 = Some st" "cs_state_ok demo_env st" using demo_state by blast
  obtain s5 where r: "csched_run demo_env demo_args default_sim 100000 2 5 = Some s5" using demo_run by blast
  obtain st0 where i: "csched_init demo_env 2 (csched_state demo_env demo_args default_sim 100000) = Some st0"
    using r by (auto simp: csched_run_def split: option.splits)
  with st(1) r have "csched_loop demo_env 4 0 st0 = Some st" "csched_loop demo_env (Suc 4) 0 st0 = Some s5"
    by (simp_all add: csched_run_def del: csched_loop.simps)
  with csched_loop_last [of demo_env 4 0 st0] have "csched_round demo_env 4 st = Some s5" by (simp del: csched_loop.simps)
  with st show ?thesis by blast
qed

lemma demo_env_ok: "env_ok demo_env"
  using demo_run_ok by (simp add: run_ok_def)

theorem csched_round_refines_witness:
  "\<exists>st st'. csched_run demo_env demo_args default_sim 100000 2 4 = Some st \<and> csched_round demo_env 4 st = Some st'
     \<and> pop_steps (cs_abs st) (cs_abs st')"
  using demo_round csched_round_refines [OF _ _ demo_env_ok] by blast

theorem csched_round_wf_witness:
  "\<exists>st st'. csched_run demo_env demo_args default_sim 100000 2 4 = Some st \<and> csched_round demo_env 4 st = Some st'
     \<and> cs_state_ok demo_env st'"
  using demo_round csched_round_wf [OF _ _ demo_env_ok] by blast

text \<open>C2: The population is exact: whatever is retired, routed, spilled or admitted in a run of any number of
  rounds, the conversations on all nodes, in the queue, in the lines and away, together with those
  that have ended, are the decoders of the cold start and all that the workload ever handed
  out, each id as often as it was given; as many have ended as were drawn after the start, so that the
  decoders, the requests and the pending returns stay as many. None is lost or duplicated.\<close>
theorem csched_population:
  assumes "csched_run env a cfg cutoff backlog n = Some st" and "csched_init env backlog (csched_state env a cfg cutoff) = Some st0"
    and "run_ok env"
  shows "\<exists>cold ended. everyone (cs_abs st0) = mset (map int [0..<cold]) + mset (map int [0..<nat (mt_next_id (cs_wl st0))])
    \<and> everyone (cs_abs st) + ended = mset (map int [0..<cold]) + mset (map int [0..<nat (mt_next_id (cs_wl st))])
    \<and> int (size ended) = mt_next_id (cs_wl st) - mt_next_id (cs_wl st0)
    \<and> length (concat (cs_pools st)) + length (gq_q (cs_queue st)) + length (concat (cs_aff st)) + length (by_round (cs_pend st))
      = length (concat (cs_pools st0)) + length (gq_q (cs_queue st0))"
proof -
  have b: "cs_blank env (csched_state env a cfg cutoff)" and e: "env_ok env"
    using assms(3) by (simp_all add: csched_state_blank run_ok_def)
  let ?N = "nat (backlog + 2 * int (ce_Z env))"
  from csched_init_step [OF assms(2) b e] obtain m where ok: "cs_state_ok env st0" and next0: "next_conv (cs_abs st0) = int ?N"
    and m: "everyone (cs_abs st0) = mset (map int [0..<m]) + mset (map int [0..<?N])" by blast
  have "csched_loop env n 0 st0 = Some st" using assms(1,2) by (simp add: csched_run_def)
  then have steps: "pop_steps (cs_abs st0) (cs_abs st)" using csched_loop_ok [OF _ ok e] by blast
  have nx: "next_conv (cs_abs s) = mt_next_id (cs_wl s)" for s :: "'a CsState" by (simp add: cs_abs_def)
  have n0: "mt_next_id (cs_wl st0) = int ?N" using next0 nx [of st0] by simp
  obtain ended where l: "everyone (cs_abs st) + ended = everyone (cs_abs st0) + mset (map int [?N..<nat (mt_next_id (cs_wl st))])"
    "int (size ended) = mt_next_id (cs_wl st) - int ?N"
    using pop_steps_ledger [OF steps, unfolded nx n0 nat_int] by (meson of_nat_0_le_iff)
  have "?N \<le> nat (mt_next_id (cs_wl st))" using pop_steps_next [OF steps] next0 nx [of st] by linarith
  then have "[0..<nat (mt_next_id (cs_wl st))] = [0..<?N] @ [?N..<nat (mt_next_id (cs_wl st))]" by (metis le_add_diff_inverse upt_add_eq_append zero_le)
  then have "everyone (cs_abs st) + ended = mset (map int [0..<m]) + mset (map int [0..<nat (mt_next_id (cs_wl st))])"
    using l(1) m by simp
  moreover have "length (concat (cs_pools st)) + length (gq_q (cs_queue st)) + length (concat (cs_aff st)) + length (by_round (cs_pend st))
      = length (concat (cs_pools st0)) + length (gq_q (cs_queue st0))"
    using pop_steps_size [OF steps] csched_init_frame [OF assms(2)] by (simp add: everyone_lengths csched_state_def concat_replicate_trivial)
  ultimately show ?thesis using m l(2) n0 by (intro exI [of _ m] exI [of _ ended]) simp
qed

theorem csched_population_witness:
  "\<exists>st st0 cold ended. csched_run demo_env demo_args default_sim 100000 2 7 = Some st
     \<and> csched_init demo_env 2 (csched_state demo_env demo_args default_sim 100000) = Some st0
     \<and> everyone (cs_abs st0) = mset (map int [0..<cold]) + mset (map int [0..<6])
     \<and> everyone (cs_abs st) + ended = mset (map int [0..<cold]) + mset (map int [0..<nat (mt_next_id (cs_wl st))])
     \<and> int (size ended) = mt_next_id (cs_wl st) - 6"
proof -
  obtain st where r: "csched_run demo_env demo_args default_sim 100000 2 7 = Some st" using demo_run by blast
  then obtain st0 where i: "csched_init demo_env 2 (csched_state demo_env demo_args default_sim 100000) = Some st0"
    by (auto simp: csched_run_def split: option.splits)
  have "cs_blank demo_env (csched_state demo_env demo_args default_sim 100000)"
    using demo_run_ok by (simp add: csched_state_blank run_ok_def)
  from csched_init_step [OF i this demo_env_ok] have "next_conv (cs_abs st0) = int (nat (2 + 2 * int (ce_Z demo_env)))" by blast
  then have six: "mt_next_id (cs_wl st0) = 6" "nat (6 :: int) = 6" by (simp_all add: cs_abs_def demo_env_def)
  from csched_population [OF r i demo_run_ok, unfolded six] r i show ?thesis by blast
qed

text \<open>C3: The cache through a whole run: the bytes recorded for each node are the sum over the entries
  held there and never exceed the node's budget, while completions, lookups, evictions
  and budget cuts of all nodes interleave.\<close>
theorem csched_cache_safe:
  assumes "csched_run env a cfg cutoff backlog n = Some st" and "run_ok env" and "z < ce_Z env"
  shows "node_used (cs_cache st) ! z = hbm_bytes (kv_bpt (cs_cache st)) z (cc_idx (cs_cache st))
    \<and> node_used (cs_cache st) ! z \<le> node_budget (cs_cache st) ! z"
  using csched_run_ok [OF assms(1,2)] assms(3) by (auto simp: cs_state_ok_def cs_ok_def cache_inv_def)

theorem csched_cache_safe_witness:
  "\<exists>st. csched_run demo_env demo_args default_sim 100000 2 6 = Some st
     \<and> node_used (cs_cache st) ! 1 = hbm_bytes (kv_bpt (cs_cache st)) 1 (cc_idx (cs_cache st))
     \<and> node_used (cs_cache st) ! 1 \<le> node_budget (cs_cache st) ! 1"
proof -
  obtain st where r: "csched_run demo_env demo_args default_sim 100000 2 6 = Some st" using demo_run by blast
  have "1 < ce_Z demo_env" by (simp add: demo_env_def)
  from csched_cache_safe [OF r demo_run_ok this] r show ?thesis by blast
qed

text \<open>No pool ever holds more than \<open>decode_pool\<close> decoders: the cold start fills up to it, and each
  node's turn admits at most one conversation for each that it retires.\<close>
theorem csched_pools_bounded:
  assumes "csched_run env a cfg cutoff backlog n = Some st" and "run_ok env" and "z < ce_Z env" and "0 \<le> decode_pool (ce_op env)"
  shows "int (length (cs_pools st ! z)) \<le> decode_pool (ce_op env)"
  using csched_run_ok [OF assms(1,2)] assms(3,4) by auto

theorem csched_pools_bounded_witness:
  "\<exists>st. csched_run demo_env demo_args default_sim 100000 2 6 = Some st \<and> int (length (cs_pools st ! 0)) \<le> 3"
proof -
  obtain st where r: "csched_run demo_env demo_args default_sim 100000 2 6 = Some st" using demo_run by blast
  have "0 < ce_Z demo_env" "0 \<le> decode_pool (ce_op demo_env)" by (simp_all add: demo_env_def demo_op_def)
  from csched_pools_bounded [OF r demo_run_ok this] r show ?thesis by (auto simp: demo_env_def demo_op_def)
qed

text \<open>The reported counters agree at the end of every run: batches are hits or misses of the four
  kinds, returning turns are hits, reloads or recomputations, hits are on the node or remote, and
  tokens within the service levels nest.\<close>
theorem csched_counters:
  assumes "csched_run env a cfg cutoff backlog n = Some st" and "run_ok env"
  shows "m_batches (cs_m st) = m_hits (cs_m st) + (m_b1_cm (cs_m st) + m_b1_dm (cs_m st) + m_b2_cm (cs_m st) + m_b2_dm (cs_m st))
    \<and> m_returns (cs_m st) = m_hbm_hit (cs_m st) + m_ssd_reload (cs_m st) + m_recompute (cs_m st)
    \<and> m_hbm_hit (cs_m st) = cs_phys_hit st + cs_remote_hit st
    \<and> k_tokens_slo_met (cs_k st) \<le> k_tokens_tbt_met (cs_k st) \<and> k_tokens_tbt_met (cs_k st) \<le> k_tokens_total (cs_k st)
    \<and> k_reqs_ttft_met (cs_k st) \<le> k_reqs_total (cs_k st)"
  using csched_run_ok [OF assms] by (auto simp: cs_state_ok_def cs_ok_def counters_ok_def metrics_inv_def kpi_inv_def)

theorem csched_counters_witness:
  "\<exists>st. csched_run demo_env demo_args default_sim 100000 2 6 = Some st
     \<and> m_hbm_hit (cs_m st) = cs_phys_hit st + cs_remote_hit st"
proof -
  obtain st where r: "csched_run demo_env demo_args default_sim 100000 2 6 = Some st" using demo_run by blast
  from csched_counters [OF r demo_run_ok] r show ?thesis by blast
qed

text \<open>C6: The spill cap bounds the waiting in line: at the end of a round nobody is left in a line who has
  waited for more rounds than the cap.\<close>
theorem csched_line_wait:
  assumes "csched_round env it st = Some st'" and "cs_state_ok env st" and "env_ok env" and "ce_affinity env" and "z < ce_Z env"
  shows "\<forall>r \<in> set (cs_aff st' ! z). it - r_arrival r \<le> ce_spill_cap env"
proof -
  let ?acc = "\<lparr>pa_resid = [dlit 0, dlit 0, dlit 0], pa_mean = dlit 0, pa_nodes = 0\<rparr>"
  from assms(1) obtain st2 acc where n: "cs_nodes env it [0..<ce_Z env] (cs_arrivals env it st, ?acc) = Some (st2, acc)"
    and aff: "cs_aff st' = cs_aff st2"
    by (auto simp: csched_round_def split: option.splits)
  have ok: "cs_ok env st" using assms(2) by (simp add: cs_state_ok_def)
  note a = cs_arrivals_step [OF ok, where now = it]
  have "cs_state_ok env (cs_arrivals env it st)" using a(1,3) assms(2) by (simp add: cs_state_ok_def)
  from cs_nodes_aff [OF n this assms(3)] have "set (cs_aff st' ! z) \<subseteq> set (cs_aff (cs_arrivals env it st) ! z)" by (simp add: aff)
  then show ?thesis using a(4) [OF assms(4,5)] by blast
qed

theorem csched_line_wait_witness:
  "\<exists>st st'. csched_run demo_env demo_args default_sim 100000 2 4 = Some st \<and> csched_round demo_env 4 st = Some st'
     \<and> filter (\<lambda>r. 1 < 4 - r_arrival r) (cs_aff st' ! 1) = []"
proof -
  obtain st st' where r: "csched_run demo_env demo_args default_sim 100000 2 4 = Some st" "cs_state_ok demo_env st"
    "csched_round demo_env 4 st = Some st'" using demo_round by blast
  have "ce_affinity demo_env" "1 < ce_Z demo_env" "ce_spill_cap demo_env = 1" by (simp_all add: demo_env_def)
  with csched_line_wait [OF r(3,2) demo_env_ok, of 1] r(1,3) show ?thesis by (auto simp: filter_empty_conv not_less)
qed

end
