(* ===== verification/Csched_Service.thy ===== *)
theory Csched_Service
  imports Csched_Props
begin

text \<open>
  Properties of single steps of the driver: whom healing serves and when it stops, the bytes that
  a node's pool and cache share, the histogram of token gaps against the sorted list of
  gaps, that the driver returns, and the ids that its start hands out.
\<close>

section \<open>Healing\<close>

definition heal_state :: "nat CsState" where
  "heal_state = (csched_state demo_env demo_args default_sim 100000)\<lparr>cs_aff := [[small_request 4 90 3, small_request 5 70 1], []],
     cs_queue := \<lparr>gq_q = [small_request 6 60 2], gq_age_cap = 9, gq_forced = 0\<rparr>\<rparr>"

lemma heal_state_ok: "cs_ok demo_env heal_state"
proof -
  have "cs_blank demo_env (csched_state demo_env demo_args default_sim 100000)"
    using demo_run_ok by (simp add: csched_state_blank run_ok_def)
  then show ?thesis
    by (simp add: cs_blank_def heal_state_def cs_ok_def counters_ok_def rq_ok_def small_request_def) (simp add: demo_env_def)
qed

lemma demo_nodes: "0 < ce_Z demo_env" "1 < ce_Z demo_env" "ce_affinity demo_env"
  by (simp_all add: demo_env_def)

text \<open>C5: Affinity: the holes of a node go first to the conversations in line for its cache, earliest
  arrival first, whatever their length; those left in line arrived no earlier than any that was served. While the
  line covers the holes, the cluster queue is not touched.\<close>
theorem heal_line_first:
  assumes "cs_heal env z now it holes pl st = (pl', st')" and "cs_ok env st" and "z < ce_Z env" and "\<forall>q \<in> set pl. decoder_ok q"
    and "ce_affinity env"
  shows "\<exists>served rest. mset (cs_aff st ! z) = mset served + mset (cs_aff st' ! z)
    \<and> length served = min (length holes) (length (cs_aff st ! z)) \<and> sorted (map r_arrival served)
    \<and> (\<forall>s \<in> set served. \<forall>r \<in> set (cs_aff st' ! z). r_arrival s \<le> r_arrival r)
    \<and> map sd_id pl' = map sd_id pl @ map r_id served @ rest
    \<and> (length holes \<le> length (cs_aff st ! z) \<longrightarrow> rest = [] \<and> cs_queue st' = cs_queue st)"
  using assms by (rule cs_heal_line)

theorem heal_line_first_witness:
  "map sd_id (fst (cs_heal demo_env 0 4 4 [50] [] heal_state)) = [5]
   \<and> (\<exists>served. mset (cs_aff heal_state ! 0) = mset served + mset (cs_aff (snd (cs_heal demo_env 0 4 4 [50] [] heal_state)) ! 0)
        \<and> length served = 1)
   \<and> cs_queue (snd (cs_heal demo_env 0 4 4 [50] [] heal_state)) = cs_queue heal_state"
proof -
  have "map sd_id (fst (cs_heal demo_env 0 4 4 [50] [] heal_state)) = [5]" by code_simp
  moreover have "length (cs_aff heal_state ! 0) = 2" by (simp add: heal_state_def)
  ultimately show ?thesis
    using heal_line_first [OF prod.collapse [symmetric] heal_state_ok demo_nodes(1) _ demo_nodes(3), where now = 4 and it = 4 and holes = "[50]" and pl = "[]"]
    by fastforce
qed

text \<open>A pull that gives nothing says why, for lengths of an \<open>int\<close>; no pull adds to the queue.\<close>

lemma pull_slot_dry:
  assumes "r_id (fst (gq_pull_slot g ideal room now)) < 0" and "\<forall>x \<in> set (gq_q g). rq_ok x \<and> r_prompt x < 2 ^ 31"
    and "below58 ideal"
  shows "\<forall>x \<in> set (gq_q g). now - r_arrival x \<le> gq_age_cap g \<and> room < r_prompt x"
proof -
  obtain r g' where p: "gq_pull_slot g ideal room now = (r, g')" by fastforce
  have no: "r \<notin> set (gq_q g)" using assms(1,2) p by (auto simp: rq_ok_def)
  have young: "find_oldest_aged g now = None" using pull_slot_takes [OF p] no by (auto simp: find_oldest_None not_less split: if_splits)
  have "find_near g ideal room = None"
  proof (cases "find_near g ideal room")
    case (Some i)
    then have "gq_take i g = (r, g')" using p young by (simp add: gq_pull_slot_def gq_pull_near_def)
    then show ?thesis using gq_take_set [OF find_near_Some(1) [OF Some]] no by simp
  qed
  then have "room < r_prompt x" if "x \<in> set (gq_q g)" for x
    using find_near_None [OF _ assms(3) that] assms(2) that by (auto simp: rq_ok_def)
  with young show ?thesis by (simp add: find_oldest_None)
qed

lemma pull_slot_subset: "set (gq_q (snd (gq_pull_slot g ideal room now))) \<subseteq> set (gq_q g)"
proof -
  obtain r g' where p: "gq_pull_slot g ideal room now = (r, g')" by fastforce
  have "set (gq_q g') \<subseteq> set (gq_q g)" if "mset (gq_q g) = add_mset r (mset (gq_q g'))"
    using that by (metis set_mset_mset set_mset_add_mset_insert subset_insertI)
  with pull_slot_takes [OF p] p show ?thesis by (auto split: if_splits)
qed

lemma cs_heal_queue_subset:
  "cs_heal env z now it holes pl st = (pl', st') \<Longrightarrow> set (gq_q (cs_queue st')) \<subseteq> set (gq_q (cs_queue st))"
proof (induction holes arbitrary: pl st)
  case (Cons hole holes)
  have admit: "cs_queue st2 = cs_queue st1" if "cs_admit env z now it r pl st1 = (pl2, st2)" for r pl pl2 st1 st2
    using that cs_admit_ttft_frame(1) by (fastforce simp: cs_admit_def split: prod.splits)
  show ?case
  proof (cases "ce_affinity env \<and> cs_aff st ! z \<noteq> []")
    case True
    obtain r st1 where l: "cs_from_line z now st = (r, st1)" by fastforce
    obtain pl2 st2 where a: "cs_admit env z now it r pl st1 = (pl2, st2)" by fastforce
    have "cs_queue st1 = cs_queue st" using l by (auto simp: cs_from_line_def Let_def split: if_splits)
    with Cons.IH [of pl2 st2] Cons.prems True l a admit [OF a] show ?thesis by simp
  next
    case False
    obtain r q where p: "gq_pull_slot (cs_queue st) (dbl hole) (ce_cap_room env) now = (r, q)" by fastforce
    obtain pl2 st2 where a: "cs_admit env z now it r pl (st\<lparr>cs_queue := q\<rparr>) = (pl2, st2)" by fastforce
    have q: "set (gq_q q) \<subseteq> set (gq_q (cs_queue st))" using pull_slot_subset [of "cs_queue st" "dbl hole" "ce_cap_room env" now] p by simp
    from Cons.prems False p a have "st' = st\<lparr>cs_queue := q\<rparr> \<or> cs_heal env z now it holes pl2 st2 = (pl', st')" by (auto split: if_splits)
    with Cons.IH [of pl2 st2] admit [OF a] q show ?thesis by auto
  qed
qed simp

text \<open>C7: Healing stops early only on exhaustion: either every hole is filled, or nobody is in line for
  the node and nobody in the cluster queue could have been taken: no request there has waited longer than the
  global age cap, and every one is longer than the node has room for. (Prompts and holes are
  values of an \<open>int\<close>.) The request it failed to get is no decoder: the pool just stays smaller.\<close>
theorem heal_stops_dry:
  assumes "cs_heal env z now it holes pl st = (pl', st')" and "cs_ok env st" and "z < ce_Z env" and "\<forall>q \<in> set pl. decoder_ok q"
    and "\<forall>hole \<in> set holes. 0 \<le> hole \<and> hole < 2 ^ 31" and "\<forall>r \<in> set (gq_q (cs_queue st)). r_prompt r < 2 ^ 31"
  shows "(length pl' = length pl + length holes
    \<or> length pl' < length pl + length holes \<and> \<not> (ce_affinity env \<and> cs_aff st' ! z \<noteq> [])
      \<and> (\<forall>r \<in> set (gq_q (cs_queue st')). now - r_arrival r \<le> gq_age_cap (cs_queue st') \<and> ce_cap_room env < r_prompt r))
    \<and> (\<forall>q \<in> set pl'. decoder_ok q)"
proof -
  note step = cs_heal_step [OF assms(1-4)]
  have ok: "\<forall>r \<in> set (gq_q (cs_queue st')). rq_ok r \<and> r_prompt r < 2 ^ 31"
    using step cs_heal_queue_subset [OF assms(1)] assms(6) by (auto simp: cs_ok_def)
  have "\<forall>r \<in> set (gq_q (cs_queue st')). now - r_arrival r \<le> gq_age_cap (cs_queue st') \<and> ce_cap_room env < r_prompt r"
    if h: "hole \<in> set holes" "r_id (fst (gq_pull_slot (cs_queue st') (dbl hole) (ce_cap_room env) now)) < 0" for hole
  proof (rule pull_slot_dry [OF h(2) ok])
    have "\<bar>hole\<bar> \<le> 2 ^ 58" using assms(5) h(1) by force
    then show "below58 (dbl hole)" by (rule below58_dbl)
  qed
  then show ?thesis using cs_heal_stop [OF assms(1-4)] step by (metis le_neq_implies_less)
qed

text \<open>The request 7 does not fit the room of 600000 and has not waited longer than 9 rounds.\<close>

definition dry_state :: "nat CsState" where
  "dry_state = heal_state\<lparr>cs_queue := \<lparr>gq_q = [small_request 6 60 2, small_request 7 700000 1], gq_age_cap = 9, gq_forced = 0\<rparr>\<rparr>"

lemma dry_state_ok: "cs_ok demo_env dry_state"
  using heal_state_ok by (simp add: dry_state_def cs_ok_def counters_ok_def rq_ok_def small_request_def)

theorem heal_stops_dry_witness:
  "map sd_id (fst (cs_heal demo_env 1 4 4 [50, 60] [] dry_state)) = [6]
   \<and> map r_id (gq_q (cs_queue (snd (cs_heal demo_env 1 4 4 [50, 60] [] dry_state)))) = [7]
   \<and> filter (\<lambda>r. gq_age_cap (cs_queue (snd (cs_heal demo_env 1 4 4 [50, 60] [] dry_state))) < 4 - r_arrival r \<or> r_prompt r \<le> 600000)
       (gq_q (cs_queue (snd (cs_heal demo_env 1 4 4 [50, 60] [] dry_state)))) = []"
proof -
  have m: "map sd_id (fst (cs_heal demo_env 1 4 4 [50, 60] [] dry_state)) = [6]"
    "map r_id (gq_q (cs_queue (snd (cs_heal demo_env 1 4 4 [50, 60] [] dry_state)))) = [7]" by code_simp+
  then have l: "length (fst (cs_heal demo_env 1 4 4 [50, 60] [] dry_state)) \<noteq> length [] + length [50, 60 :: int]"
    by (metis length_map length_Cons list.size(3) add_0 n_not_Suc_n)
  have room: "ce_cap_room demo_env = 600000" by (simp add: demo_env_def)
  have h: "\<forall>hole \<in> set [50, 60]. 0 \<le> hole \<and> hole < (2 :: int) ^ 31" "\<forall>r \<in> set (gq_q (cs_queue dry_state)). r_prompt r < 2 ^ 31"
    by (simp_all add: dry_state_def small_request_def)
  from heal_stops_dry [OF prod.collapse [symmetric] dry_state_ok demo_nodes(2) _ h, where now = 4 and it = 4 and pl = "[]"] l m
  show ?thesis unfolding room by (auto simp: filter_empty_conv not_less not_le)
qed

section \<open>Bytes\<close>

text \<open>C4: The byte loop of a node is closed: after its turn, the KV bytes of its pool and the bytes that the cache
  records there stay together within the pool's design footprint plus the cache capacity, unless the pool alone
  exceeds both; then the cache holds nothing there.\<close>
theorem node_bytes_closed:
  assumes "cs_node_step env it z (st, acc) = Some (st', acc')" and "cs_state_ok env st" and "env_ok env" and "z < ce_Z env"
    and "ce_dyncache env" and "0 \<le> ce_cache_cap env"
  shows "(\<Sum>q \<leftarrow> cs_pools st' ! z. sd_live_kv q) * ce_kv_bpt env + node_used (cs_cache st') ! z
    \<le> max (ce_design_pool_bytes env + ce_cache_cap env) ((\<Sum>q \<leftarrow> cs_pools st' ! z. sd_live_kv q) * ce_kv_bpt env)"
proof -
  from assms(1) obtain used st1 pl1 st2 keep holes st3 pl st4 where
    c: "cs_compose env it (cs_pools st ! z) st = (used, st1)" and a: "cs_advance env it used (cs_pools st1 ! z) st1 = (pl1, st2)"
    and r: "cs_retire env z it it pl1 st2 = Some (keep, holes, st3)" and h: "cs_heal env z it it holes keep st3 = (pl, st4)"
    and d: "cs_diagnose env z it pl (st4\<lparr>cs_pools := (cs_pools st4)[z := pl]\<rparr>, acc) = (st', acc')"
    by (rule cs_node_step_stages)
  note turn = cs_node_turn [OF c a r h assms(2-4)]
  let ?st5 = "st4\<lparr>cs_pools := (cs_pools st4)[z := pl]\<rparr>"
  let ?s = "\<Sum>q \<leftarrow> pl. sd_live_kv q"
  have ok5: "cs_ok env ?st5" using turn(1) by (simp add: cs_ok_def counters_ok_def)
  note dd = cs_diagnose_step [OF d ok5 assms(4)]
  have pools: "cs_pools st' ! z = pl" using dd(3) turn(2) by simp
  have inv: "cache_inv (cs_cache ?st5)" "z < length (node_budget (cs_cache ?st5))" using ok5 assms(4) by (simp_all add: cs_ok_def)
  have "node_used (cs_cache st') ! z \<le> max 0 (ce_cache_cap env - cs_excess env ?s)"
    using enforce_used [OF inv] dd(5) assms(5) by (simp add: pool_stats_sum)
  then show ?thesis using assms(6) by (auto simp: pools cs_excess_def Let_def max_def split: if_splits)
qed

lemma demo_turn: "\<exists>st st' acc acc'. cs_state_ok demo_env st \<and> cs_node_step demo_env 4 0 (st, acc) = Some (st', acc')"
proof -
  obtain st st' where r: "cs_state_ok demo_env st" "csched_round demo_env 4 st = Some st'" using demo_round by blast
  let ?a = "cs_arrivals demo_env 4 st" and ?acc = "\<lparr>pa_resid = [dlit 0, dlit 0, dlit 0], pa_mean = dlit 0, pa_nodes = 0\<rparr>"
  have "[0..<ce_Z demo_env] = [0, 1]" by (simp add: demo_env_def upt_rec)
  with r(2) have "cs_node_step demo_env 4 0 (?a, ?acc) \<noteq> None" by (auto simp: csched_round_def split: option.splits)
  then obtain st2 acc2 where s: "cs_node_step demo_env 4 0 (?a, ?acc) = Some (st2, acc2)" by fastforce
  have "cs_ok demo_env st" using r(1) by (simp add: cs_state_ok_def)
  from cs_arrivals_step(1,3) [OF this, of 4] r(1) have "cs_state_ok demo_env ?a" by (simp add: cs_state_ok_def)
  with s show ?thesis by blast
qed

theorem node_bytes_closed_witness:
  "\<exists>st st' acc acc'. cs_node_step demo_env 4 0 (st, acc) = Some (st', acc')
     \<and> (\<Sum>q \<leftarrow> cs_pools st' ! 0. sd_live_kv q) * 2 + node_used (cs_cache st') ! 0
       \<le> max 700000 ((\<Sum>q \<leftarrow> cs_pools st' ! 0. sd_live_kv q) * 2)"
proof -
  obtain st st' acc acc' where s: "cs_state_ok demo_env st" "cs_node_step demo_env 4 0 (st, acc) = Some (st', acc')"
    using demo_turn by blast
  have e: "ce_dyncache demo_env" "0 \<le> ce_cache_cap demo_env" "ce_kv_bpt demo_env = 2"
    "ce_design_pool_bytes demo_env + ce_cache_cap demo_env = 700000" by (simp_all add: demo_env_def)
  from node_bytes_closed [OF s(2,1) demo_env_ok demo_nodes(1) e(1,2)] s(2) show ?thesis unfolding e(3,4) by blast
qed

section \<open>Gaps\<close>

lemma count_above:
  "(\<Sum>k \<leftarrow> [a..<4096]. int (length (filter (\<lambda>g. gap_clamp g = int k) gs))) = int (length (filter (\<lambda>g. int a \<le> gap_clamp g) gs))"
proof (induction gs)
  case (Cons g gs)
  have "(\<Sum>k \<leftarrow> xs. int (length (filter (\<lambda>g. gap_clamp g = int k) (g # gs))))
      = (\<Sum>k \<leftarrow> xs. int (length (filter (\<lambda>g. gap_clamp g = int k) gs))) + int (length (filter (\<lambda>k. gap_clamp g = int k) xs))" for xs
    by (induction xs) auto
  moreover have "length (filter (\<lambda>k. gap_clamp g = int k) [a..<4096]) = (if int a \<le> gap_clamp g then 1 else 0)"
  proof -
    have "distinct (filter (\<lambda>k. gap_clamp g = int k) [a..<4096])" by simp
    then have "length (filter (\<lambda>k. gap_clamp g = int k) [a..<4096]) = card {k. a \<le> k \<and> k < 4096 \<and> gap_clamp g = int k}"
      by (subst distinct_card [symmetric]) (auto intro!: arg_cong [of _ _ card])
    also have "{k. a \<le> k \<and> k < 4096 \<and> gap_clamp g = int k} = (if int a \<le> gap_clamp g then {nat (gap_clamp g)} else {})"
      using gap_clamp_range [of g] by auto
    finally show ?thesis by simp
  qed
  ultimately show ?case using Cons.IH by simp
qed simp

text \<open>C8: The histogram of token gaps loses nothing but the clamping: the percentile that the scan of its 4096
  buckets finds is the element of that rank in the sorted list of the clamped gaps, the count above a
  gap is the number of larger ones, and the maximum is theirs.\<close>
theorem gap_hist_reference:
  assumes "gh = fold gap_add gs make_hist" and "gs \<noteq> []"
    and "t = to_ll (p * dbl (int (length gs) - 1))" and "0 \<le> t" and "t < int (length gs)"
  shows "gap_pctl gh p = sort (map gap_clamp gs) ! nat t
    \<and> gap_count_gt gh g0 = int (length (filter (\<lambda>g. int g0 < gap_clamp g) gs))
    \<and> gh_n gh = int (length gs) \<and> gh_mx gh = Max (gap_clamp ` set gs)"
proof -
  note g = gap_fold [OF assms(1)]
  let ?ys = "sort (map gap_clamp gs)"
  have h: "gh_h gh = map (\<lambda>k. int (length (filter (\<lambda>g. gap_clamp g = int k) gs))) [0..<4096]"
    using g by (auto intro: nth_equalityI)
  have "length (filter (\<lambda>y. y = int k) ?ys) = length (filter (\<lambda>g. gap_clamp g = int k) gs)" for k
    by (simp add: filter_sort filter_map o_def)
  then have "gh_h gh = map (\<lambda>j. int (length (filter (\<lambda>y. y = 0 + int j) ?ys))) [0..<4096]" by (simp add: h)
  moreover have r: "gap_clamp x < 4096" for x using gap_clamp_range(2) [of x] by simp
  have "pctl_loop (0 + t) 0 0 (map (\<lambda>j. int (length (filter (\<lambda>y. y = 0 + int j) ?ys))) [0..<4096]) = Some (?ys ! nat t)"
    using assms(4,5) by (intro pctl_loop_rank) (auto simp: gap_clamp_range r)
  ultimately have 1: "gap_pctl gh p = ?ys ! nat t" using g assms(2,3) by (simp add: gap_pctl_def)
  have "gap_count_gt gh g0 = (\<Sum>k \<leftarrow> [g0 + 1..<4096]. int (length (filter (\<lambda>g. gap_clamp g = int k) gs)))"
    by (simp add: gap_count_gt_def fold_plus h drop_map)
  also have "\<dots> = int (length (filter (\<lambda>g. int g0 < gap_clamp g) gs))"
    unfolding count_above by (intro arg_cong [of _ _ int] arg_cong [of _ _ length] filter_cong) auto
  finally have 2: "gap_count_gt gh g0 = int (length (filter (\<lambda>g. int g0 < gap_clamp g) gs))" .
  have "gh_mx gh \<in> gap_clamp ` set gs"
  proof (cases "gh_mx gh = 0")
    case True
    obtain x where x: "x \<in> set gs" using assms(2) by (cases gs) auto
    then have "gap_clamp x = 0" using g True gap_clamp_range(1) [of x] by (auto intro: antisym)
    with True x show ?thesis by force
  qed (use g in blast)
  then have "gh_mx gh = Max (gap_clamp ` set gs)" using g by (intro Max_eqI [symmetric]) auto
  with 1 2 g show ?thesis by simp
qed

theorem gap_hist_reference_witness:
  "gap_pctl (fold gap_add [3, 1, 5000, 2] make_hist) (dlit (1 / 2)) = 2
   \<and> gap_count_gt (fold gap_add [3, 1, 5000, 2] make_hist) 1 = 3 \<and> gh_mx (fold gap_add [3, 1, 5000, 2] make_hist) = 4095"
proof -
  have t: "1 = to_ll (dlit (1 / 2) * dbl (int (length [3, 1, 5000, 2 :: int]) - 1))" by code_simp
  have "gap_pctl (fold gap_add [3, 1, 5000, 2] make_hist) (dlit (1 / 2)) = sort (map gap_clamp [3, 1, 5000, 2]) ! nat 1
    \<and> gap_count_gt (fold gap_add [3, 1, 5000, 2] make_hist) 1 = int (length (filter (\<lambda>g. int 1 < gap_clamp g) [3, 1, 5000, 2]))
    \<and> gh_n (fold gap_add [3, 1, 5000, 2] make_hist) = int (length [3, 1, 5000, 2 :: int])
    \<and> gh_mx (fold gap_add [3, 1, 5000, 2] make_hist) = Max (gap_clamp ` set [3, 1, 5000, 2])"
    using gap_hist_reference [OF refl _ t, of 1] by simp
  moreover have "sort (map gap_clamp [3, 1, 5000, 2]) ! nat 1 = 2" "length (filter (\<lambda>g. int 1 < gap_clamp g) [3, 1, 5000, 2]) = 3"
    "Max (gap_clamp ` set [3, 1, 5000, 2]) = 4095" by (simp_all add: gap_clamp_def)
  ultimately show ?thesis by simp
qed

section \<open>Termination\<close>

text \<open>C9: The driver returns: if from every state of the random generator some draw is within the edge
  cutoff, the seed, the cold start and any number of rounds end with a state.\<close>
theorem csched_returns:
  assumes "run_ok env" and "cutoff_ok (ce_lib env) cutoff"
  shows "\<exists>st. csched_run env a cfg cutoff backlog n = Some st"
  using assms by (rule csched_run_some)

theorem csched_returns_witness:
  "\<exists>st. csched_run demo_env demo_args default_sim 100000 300 4000 = Some st"
  by (rule csched_returns [OF demo_run_ok]) (simp add: demo_env_def toy_cutoff)

section \<open>Ids\<close>

definition tiny_env :: "nat CsEnv" where
  "tiny_env = demo_env\<lparr>ce_Z := 1, ce_op := demo_op\<lparr>decode_pool := 1\<rparr>\<rparr>"

text \<open>What a completion leaves in the cache of a conversation with this id.\<close>

lemma cs_complete_cache:
  assumes "cs_complete env z now it q st = Some st'"
  shows "cs_cache st' = on_complete z (sd_id q) (sd_prompt q + sd_dec q) now (cs_cache st)"
  using assms by (auto simp: cs_complete_def Let_def split: prod.splits option.splits if_splits)

lemma filter_key: "distinct (map fst idx) \<Longrightarrow> map_of idx i = Some e \<Longrightarrow> filter (\<lambda>x. fst x = i) idx = [(i, e)]"
proof (induction idx)
  case (Cons x idx)
  have "filter (\<lambda>y. fst y = fst x) idx = []" using Cons.prems(1) by (metis (mono_tags, lifting) distinct.simps(2) filter_False image_eqI list.set_map list.simps(9))
  with Cons show ?case by (cases x) (auto split: if_splits)
qed simp

lemma on_complete_entry:
  "\<exists>e. map_of (cc_idx (on_complete z i len now c)) i = Some e \<and> e_node e = z \<and> e_len e = len \<and> e_last e = now"
  by (auto simp: on_complete_def Let_def update_conv)

text \<open>C11: The ids are not unique: the decoders of the cold start are numbered by a counter of their own, which
  like the workload's starts at 0, so that as soon as both hand out an id, two different
  conversations carry the id 0. The cache is keyed by id: whenever a decoder with the id 0 completes, in any
  well-formed state and whatever the other conversation had left, the index has exactly one entry for
  the id, with the node, the length and the time of this completion.\<close>
theorem cold_ids_collide:
  assumes "csched_init env backlog (csched_state env a cfg cutoff) = Some st" and "run_ok env" and "0 < backlog + 2 * int (ce_Z env)"
    and "backlog + 2 * int (ce_Z env) < int (length (concat (cs_pools st)) + length (gq_q (cs_queue st)))"
  shows "count (everyone (cs_abs st)) 0 = 2 \<and> \<not> ids_unique (cs_abs st)
    \<and> (\<forall>s q z now it s'. cs_ok env s \<and> decoder_ok q \<and> sd_id q = 0 \<and> z < ce_Z env \<and> cs_complete env z now it q s = Some s' \<longrightarrow>
         (\<exists>e. filter (\<lambda>x. fst x = 0) (cc_idx (cs_cache s')) = [(0, e)]
            \<and> e_node e = z \<and> e_len e = sd_prompt q + sd_dec q \<and> e_last e = now))"
proof -
  let ?N = "nat (backlog + 2 * int (ce_Z env))"
  have b: "cs_blank env (csched_state env a cfg cutoff)" and e: "env_ok env"
    using assms(2) by (simp_all add: csched_state_blank run_ok_def)
  from csched_init_step [OF assms(1) b e] obtain m where m: "everyone (cs_abs st) = mset (map int [0..<m]) + mset (map int [0..<?N])" by blast
  have "cs_aff st = replicate (ce_Z env) []" "by_round (cs_pend st) = []"
    using csched_init_frame [OF assms(1)] by (simp_all add: csched_state_def)
  then have "length (concat (cs_pools st)) + length (gq_q (cs_queue st)) = size (everyone (cs_abs st))"
    by (simp add: everyone_lengths concat_replicate_trivial)
  also have "\<dots> = m + ?N" by (simp add: m)
  finally have pos: "0 < m" "0 < ?N" using assms(3,4) by auto
  have one: "count (mset (map int [0..<k])) 0 = 1" if "0 < k" for k
  proof -
    have "distinct (map int [0..<k])" by (simp add: distinct_map)
    moreover have "0 \<in> set (map int [0..<k])" using that by force
    ultimately show ?thesis by (metis distinct_count_atmost_1)
  qed
  have c: "count (everyone (cs_abs st)) 0 = 2" unfolding m using one [OF pos(1)] one [OF pos(2)] by (simp only: count_union)
  then have "\<not> ids_unique (cs_abs st)" unfolding ids_unique_def by (metis Suc_1 not_less_eq_eq le_refl One_nat_def)
  moreover have "\<exists>e. filter (\<lambda>x. fst x = 0) (cc_idx (cs_cache s')) = [(0, e)]
      \<and> e_node e = z \<and> e_len e = sd_prompt q + sd_dec q \<and> e_last e = now"
    if s: "cs_ok env s" "decoder_ok q" "sd_id q = 0" "z < ce_Z env" "cs_complete env z now it q s = Some s'" for s q z now it s'
  proof -
    have "cs_ok env s'" using cs_complete_step(1) [OF s(5,1) e s(2,4)] .
    then have "distinct (map fst (cc_idx (cs_cache s')))" by (simp add: cs_ok_def cache_inv_def)
    note d = this
    have "cs_cache s' = on_complete z 0 (sd_prompt q + sd_dec q) now (cs_cache s)" using cs_complete_cache [OF s(5)] by (simp add: s(3))
    then obtain x where x: "map_of (cc_idx (cs_cache s')) 0 = Some x" "e_node x = z" "e_len x = sd_prompt q + sd_dec q" "e_last x = now"
      using on_complete_entry [of z 0 "sd_prompt q + sd_dec q" now "cs_cache s"] by auto
    show ?thesis by (rule exI [of _ x]) (simp add: filter_key [OF d x(1)] x)
  qed
  ultimately show ?thesis using c by blast
qed

lemma tiny_ok: "run_ok tiny_env" "ce_Z tiny_env = 1"
  using demo_run_ok by (simp_all add: run_ok_def sim_ok_def tiny_env_def)

theorem cold_ids_collide_witness:
  "\<exists>st s1 s2 e. csched_init tiny_env 2 (csched_state tiny_env demo_args default_sim 100000) = Some st
     \<and> count (everyone (cs_abs st)) 0 = 2
     \<and> cs_complete tiny_env 0 5 5 (decoder_of (small_request 0 2000 0) True) st = Some s1
     \<and> cs_complete tiny_env 0 6 6 (decoder_of (small_request 0 3000 0) True) s1 = Some s2
     \<and> filter (\<lambda>x. fst x = 0) (cc_idx (cs_cache s2)) = [(0, e)] \<and> e_len e = 3000"
proof -
  have len: "map_option (\<lambda>st. length (concat (cs_pools st)) + length (gq_q (cs_queue st)))
      (csched_init tiny_env 2 (csched_state tiny_env demo_args default_sim 100000)) = Some 5" by code_simp
  then obtain st where st: "csched_init tiny_env 2 (csched_state tiny_env demo_args default_sim 100000) = Some st"
    "length (concat (cs_pools st)) + length (gq_q (cs_queue st)) = 5" by auto
  have env: "env_ok tiny_env" and blank: "cs_blank tiny_env (csched_state tiny_env demo_args default_sim 100000)"
    using tiny_ok(1) by (simp_all add: csched_state_blank run_ok_def)
  note i = csched_init_step [OF st(1) blank env]
  have s: "cs_ok tiny_env st" using i by (auto simp: cs_state_ok_def)
  have "cs_cut tiny_env st" proof -
    have "mt_edge_cutoff (cs_wl st) = 100000" using i by (simp add: csched_state_def make_mt_def)
    moreover have "ce_lib tiny_env = toy_lib" by (simp add: tiny_env_def demo_env_def)
    ultimately show ?thesis using toy_cutoff by (simp add: cs_cut_def)
  qed
  then obtain s1 where s1: "cs_complete tiny_env 0 5 5 (decoder_of (small_request 0 2000 0) True) st = Some s1" "cs_cut tiny_env s1"
    using cs_complete_returns by blast
  then obtain s2 where s2: "cs_complete tiny_env 0 6 6 (decoder_of (small_request 0 3000 0) True) s1 = Some s2"
    using cs_complete_returns by blast
  have d: "decoder_ok (decoder_of (small_request 0 n 0) True)" if "0 \<le> n" for n
    using that by (simp add: decoder_ok_def decoder_of_def small_request_def)
  have z: "0 < ce_Z tiny_env" by (simp add: tiny_ok(2))
  have s1ok: "cs_ok tiny_env s1" using cs_complete_step(1) [OF s1(1) s env d z] by simp
  have q: "sd_id (decoder_of (small_request 0 3000 0) True) = 0" "decoder_ok (decoder_of (small_request 0 3000 0) True)"
    "sd_prompt (decoder_of (small_request 0 3000 0) True) + sd_dec (decoder_of (small_request 0 3000 0) True) = 3000"
    using d [of 3000] by (simp_all add: decoder_of_def small_request_def)
  have h: "0 < (2 :: int) + 2 * int (ce_Z tiny_env)"
    "2 + 2 * int (ce_Z tiny_env) < int (length (concat (cs_pools st)) + length (gq_q (cs_queue st)))"
    unfolding st(2) tiny_ok(2) by simp_all
  from cold_ids_collide [OF st(1) tiny_ok(1) h] have "count (everyone (cs_abs st)) 0 = 2"
    "\<exists>e. filter (\<lambda>x. fst x = 0) (cc_idx (cs_cache s2)) = [(0, e)] \<and> e_len e = 3000"
    using s1ok q z s2 by metis+
  then show ?thesis using st(1) s1(1) s2 by blast
qed

end
