(* ===== verification/Sim_Core.thy ===== *)
theory Sim_Core
  imports Driver_Base
begin

text \<open>
  The state that \<open>sim/baseline.cpp\<close> and \<open>sim/prepo.cpp\<close> have in common, and the steps on it that
  they write alike: the arrivals of a round, the price of an admission, what becomes of a
  finished conversation. Each driver extends the record with its decoders. The lemmas: these
  steps keep the state well formed and are steps of the abstract cluster.
\<close>

section \<open>The model\<close>

record 'g SimEnv =
  se_lib :: "'g Lib"
  se_d :: Deployment
  se_op :: OperatingPoint
  se_slo :: SLO
  se_beta :: double
  se_warm :: int
  se_Z :: nat
  se_seed :: nat
  se_mt :: MultiTurnConfig
  se_cap_room :: int

record 'g SimCore =
  sm_wl :: "'g MultiTurnWorkload"
  sm_queue :: GlobalQueue
  sm_cache :: ClusterCache
  sm_pend :: PendingReturns
  sm_m :: Metrics
  sm_k :: Kpi

text \<open>At the start of a round the cache ages and the returns that are due join the queue.\<close>

definition sim_arrivals :: "int \<Rightarrow> ('g, 'z) SimCore_scheme \<Rightarrow> ('g, 'z) SimCore_scheme" where
  "sim_arrivals now st =
     (let st = st\<lparr>sm_cache := evict_tick now (sm_cache st)\<rparr>
      in case pending_due now (sm_pend st) of
           (due, p) \<Rightarrow> st\<lparr>sm_pend := p, sm_queue := fold gq_push due (sm_queue st)\<rparr>)"

text \<open>The time to the first token: the wait in the queue and the prefill, which for a returning turn depends on the cache.\<close>

definition first_token :: "'g SimEnv \<Rightarrow> double \<Rightarrow> int \<Rightarrow> ('g, 'z) SimCore_scheme \<Rightarrow> bool \<times> ('g, 'z) SimCore_scheme" where
  "first_token env ttft it st =
     (if se_warm env \<le> it
      then (case record_ttft ttft (se_slo env) (sm_k st) of (met, k) \<Rightarrow> (met, st\<lparr>sm_k := k\<rparr>))
      else (ttft \<le> t_ttft_us (se_slo env), st))"

definition serve_ttft :: "'g SimEnv \<Rightarrow> Request \<Rightarrow> int \<Rightarrow> int \<Rightarrow> ('g, 'z) SimCore_scheme \<Rightarrow> bool \<times> ('g, 'z) SimCore_scheme" where
  "serve_ttft env r now it st =
     (let d = se_d env; wait_us = dbl (now - r_arrival r) * round_us d
      in if 0 < r_turn r
         then (case cache_lookup (r_id r) now (sm_cache st) of
                 (lk, c) \<Rightarrow>
                   let comp_us = return_us d r lk; ttft = wait_us + comp_us; st = st\<lparr>sm_cache := c\<rparr>
                   in case first_token env ttft it st of
                        (met, st) \<Rightarrow>
                          (met,
                           if se_warm env \<le> it
                           then st\<lparr>sm_m := record_return d r lk comp_us ((sm_m st)\<lparr>m_ttft := m_ttft (sm_m st) @ [ttft]\<rparr>)\<rparr>
                           else st))
         else first_token env (wait_us + prefill_us d (r_prompt r)) it st)"

text \<open>A finished turn comes back later, or a new conversation arrives in its place.\<close>

definition sim_finish :: "'g SimEnv \<Rightarrow> int \<Rightarrow> Request \<Rightarrow> ('g, 'z) SimCore_scheme \<Rightarrow> ('g, 'z) SimCore_scheme option" where
  "sim_finish env now asReq st =
     (case maybe_return (se_lib env) asReq now (sm_wl st) of
        (ret, w) \<Rightarrow>
          if ret_returns ret then Some (st\<lparr>sm_wl := w, sm_pend := pending_add (ret_round ret) (ret_next ret) (sm_pend st)\<rparr>)
          else (case fresh_arrival (se_lib env) now w of
                  None \<Rightarrow> None
                | Some (r, w) \<Rightarrow> Some (st\<lparr>sm_wl := w, sm_queue := gq_push r (sm_queue st)\<rparr>)))"

text \<open>The loop that splits a pool into what stays and what is finished.\<close>

fun retire_with :: "('d \<Rightarrow> bool) \<Rightarrow> ('d \<Rightarrow> 's \<Rightarrow> 's option) \<Rightarrow> 'd list \<Rightarrow> 's \<Rightarrow> ('d list \<times> 'd list \<times> 's) option" where
  "retire_with don f [] st = Some ([], [], st)"
| "retire_with don f (q # qs) st =
     (if don q
      then (case f q st of
              None \<Rightarrow> None
            | Some st \<Rightarrow>
                (case retire_with don f qs st of None \<Rightarrow> None | Some (keep, gone, st) \<Rightarrow> Some (keep, q # gone, st)))
      else (case retire_with don f qs st of None \<Rightarrow> None | Some (keep, gone, st) \<Rightarrow> Some (q # keep, gone, st)))"

text \<open>The record of a micro-batch, once the warm-up is over.\<close>

definition sim_record_mb :: "'g SimEnv \<Rightarrow> int \<Rightarrow> bool \<Rightarrow> int \<Rightarrow> int \<Rightarrow> int \<Rightarrow> ('g, 'z) SimCore_scheme \<Rightarrow> ('g, 'z) SimCore_scheme" where
  "sim_record_mb env it b2 n s metc st =
     (if se_warm env \<le> it
      then st\<lparr>sm_m := record_batch n s (se_op env) b2 (sm_m st),
              sm_k := record_mubatch n s metc (se_d env) (se_slo env) (se_beta env) (sm_k st)\<rparr>
      else st)"

text \<open>What the drivers print at the end.\<close>

record SimReport =
  sr_summary :: Summary
  sr_metrics :: Metrics
  sr_kpi :: KpiSummary
  sr_queue_size :: int
  sr_max_wait :: int
  sr_forced :: int

section \<open>Well-formed states and their population\<close>

definition core_counters :: "('g, 'z) SimCore_scheme \<Rightarrow> bool" where
  "core_counters st \<longleftrightarrow> metrics_inv (sm_m st) \<and> kpi_inv (sm_k st)
     \<and> m_returns (sm_m st) = m_hbm_hit (sm_m st) + m_ssd_reload (sm_m st) + m_recompute (sm_m st)"

abbreviation simenv_ok :: "'g SimEnv \<Rightarrow> bool" where
  "simenv_ok env \<equiv> sim_ok (se_lib env) (se_mt env)"

definition core_ok :: "'g SimEnv \<Rightarrow> ('g, 'z) SimCore_scheme \<Rightarrow> bool" where
  "core_ok env st \<longleftrightarrow> cache_inv (sm_cache st) \<and> length (node_budget (sm_cache st)) = se_Z env \<and> pending_ok (sm_pend st)
     \<and> core_counters st \<and> (\<forall>r \<in> set (gq_q (sm_queue st)). rq_ok r) \<and> (\<forall>x \<in> set (by_round (sm_pend st)). rq_ok (snd x))
     \<and> mt_cfg (sm_wl st) = se_mt env \<and> 0 \<le> mt_next_id (sm_wl st)"

definition core_pop :: "int multiset \<Rightarrow> ('g, 'z) SimCore_scheme \<Rightarrow> Population" where
  "core_pop R st =
     \<lparr>residents = R, in_queue = ids_of (gq_q (sm_queue st)), in_line = {#},
      away = ids_of (map snd (by_round (sm_pend st))), next_conv = mt_next_id (sm_wl st)\<rparr>"

lemma core_pop_simps [simp]:
  "residents (core_pop R st) = R" "in_queue (core_pop R st) = ids_of (gq_q (sm_queue st))" "in_line (core_pop R st) = {#}"
  "away (core_pop R st) = ids_of (map snd (by_round (sm_pend st)))" "next_conv (core_pop R st) = mt_next_id (sm_wl st)"
  by (simp_all add: core_pop_def)

text \<open>Steps that only look up and count.\<close>

definition sm_same :: "('g, 'z) SimCore_scheme \<Rightarrow> ('g, 'z) SimCore_scheme \<Rightarrow> bool" where
  "sm_same st st' \<longleftrightarrow> sm_wl st' = sm_wl st \<and> sm_queue st' = sm_queue st \<and> sm_pend st' = sm_pend st
     \<and> SimCore.more st' = SimCore.more st
     \<and> (sm_cache st' = sm_cache st \<or> (\<exists>i now. sm_cache st' = snd (cache_lookup i now (sm_cache st))))
     \<and> (core_counters st \<longrightarrow> core_counters st')"

lemma sm_same_refl [simp]: "sm_same st st"
  by (simp add: sm_same_def)

lemma sm_same_ok: "sm_same st st' \<Longrightarrow> core_ok env st \<Longrightarrow> core_ok env st'"
  by (auto simp: sm_same_def core_ok_def lookup_inv budget_length)

lemma sm_same_pop: "sm_same st st' \<Longrightarrow> core_pop R st' = core_pop R st"
  by (simp add: sm_same_def core_pop_def)

section \<open>The steps\<close>

lemma first_token_frame:
  assumes "first_token env ttft it st = (met, st')"
  shows "\<exists>k. st' = st\<lparr>sm_k := k\<rparr> \<and> (kpi_inv (sm_k st) \<longrightarrow> kpi_inv k)"
  using assms record_ttft_inv [of "sm_k st" ttft "se_slo env"]
  by (auto simp: first_token_def split: if_splits prod.splits intro: exI [of _ "sm_k st"])

lemma serve_ttft_same:
  assumes "serve_ttft env r now it st = (met, st')" shows "sm_same st st'"
proof (cases "0 < r_turn r")
  case True
  obtain lk c where lk: "cache_lookup (r_id r) now (sm_cache st) = (lk, c)" by fastforce
  let ?t = "dbl (now - r_arrival r) * round_us (se_d env) + return_us (se_d env) r lk"
  obtain met1 st1 where f: "first_token env ?t it (st\<lparr>sm_cache := c\<rparr>) = (met1, st1)" by fastforce
  from first_token_frame [OF f] obtain k where k: "st1 = st\<lparr>sm_cache := c, sm_k := k\<rparr>" "kpi_inv (sm_k st) \<longrightarrow> kpi_inv k" by auto
  have st': "st' = (if se_warm env \<le> it
      then st1\<lparr>sm_m := record_return (se_d env) r lk (return_us (se_d env) r lk) ((sm_m st1)\<lparr>m_ttft := m_ttft (sm_m st1) @ [?t]\<rparr>)\<rparr> else st1)"
    using assms True lk f by (simp add: serve_ttft_def Let_def)
  show ?thesis unfolding sm_same_def
  proof (intro conjI disjI2 exI)
    show "sm_cache st' = snd (cache_lookup (r_id r) now (sm_cache st))" using lk by (simp add: st' k(1))
    show "core_counters st \<longrightarrow> core_counters st'"
      using k by (cases "l_result lk") (simp_all add: st' core_counters_def record_return_inv metrics_inv_ttft record_return_counts)
  qed (simp_all add: st' k(1))
next
  case False
  with assms show ?thesis using first_token_frame by (fastforce simp: serve_ttft_def Let_def sm_same_def core_counters_def)
qed

lemma sim_record_mb_same:
  assumes "0 \<le> metc" and "metc \<le> n" shows "sm_same st (sim_record_mb env it b2 n s metc st)"
  using record_batch_inv record_mubatch_inv [OF _ assms]
  by (auto simp: sim_record_mb_def sm_same_def core_counters_def) (simp_all add: record_batch_def Let_def)

lemma sim_finish_step:
  assumes "sim_finish env now r st = Some st'" and "core_ok env st" and "simenv_ok env" and "rq_ok r"
  shows "core_ok env st'" "pop_step (core_pop (add_mset (r_id r) R) st) (core_pop R st')" "SimCore.more st' = SimCore.more st"
    "sm_cache st' = sm_cache st"
proof -
  have w: "mt_cfg (sm_wl st) = se_mt env" using assms(2) by (simp add: core_ok_def)
  obtain ret w' where ret: "maybe_return (se_lib env) r now (sm_wl st) = (ret, w')" by fastforce
  note fr = maybe_return_frame [OF ret]
  have "core_ok env st' \<and> pop_step (core_pop (add_mset (r_id r) R) st) (core_pop R st') \<and> SimCore.more st' = SimCore.more st
    \<and> sm_cache st' = sm_cache st"
  proof (cases "ret_returns ret")
    case True
    with assms(1) ret have st': "st' = st\<lparr>sm_wl := w', sm_pend := pending_add (ret_round ret) (ret_next ret) (sm_pend st)\<rparr>"
      by (simp add: sim_finish_def)
    have n: "rq_ok (ret_next ret)" by (rule maybe_return_ok [OF assms(3) ret w assms(4) True])
    have m: "mset (by_round (sm_pend st')) = add_mset (ret_round ret, ret_next ret) (mset (by_round (sm_pend st)))"
      by (simp add: st' pending_add_mset)
    then have "set (by_round (sm_pend st')) = insert (ret_round ret, ret_next ret) (set (by_round (sm_pend st)))"
      by (metis set_mset_add_mset_insert set_mset_mset)
    then have ok: "core_ok env st'"
      using assms(2) n fr pending_add_ok [of "sm_pend st"] by (simp add: st' core_ok_def core_counters_def)
    have "ids_of (map snd (by_round (sm_pend st'))) = add_mset (r_id r) (ids_of (map snd (by_round (sm_pend st))))"
      using m fr(4) [OF True] by (simp add: ids_of_def)
    then have e: "core_pop R st' = (core_pop (add_mset (r_id r) R) st)\<lparr>residents := R,
        away := add_mset (r_id r) (away (core_pop (add_mset (r_id r) R) st))\<rparr>"
      using fr by (simp add: core_pop_def st')
    have "pop_step (core_pop (add_mset (r_id r) R) st) (core_pop R st')" unfolding e by (rule goes_away) simp
    with ok show ?thesis by (simp add: st')
  next
    case False
    with assms(1) ret obtain r1 w1 where f: "fresh_arrival (se_lib env) now w' = Some (r1, w1)"
      and st': "st' = st\<lparr>sm_wl := w1, sm_queue := gq_push r1 (sm_queue st)\<rparr>"
      by (auto simp: sim_finish_def split: option.splits)
    have "mt_cfg w' = se_mt env" "0 \<le> mt_next_id w'" using fr(1,2) assms(2) by (simp_all add: core_ok_def)
    note fo = fresh_arrival_ok [OF assms(3) f this] and fs = fresh_arrival_Some [OF f]
    have ok: "core_ok env st'" using assms(2) fo by (auto simp: st' core_ok_def core_counters_def)
    have e: "core_pop R st' = (core_pop (add_mset (r_id r) R) st)\<lparr>residents := R,
        in_queue := add_mset (next_conv (core_pop (add_mset (r_id r) R) st)) (in_queue (core_pop (add_mset (r_id r) R) st)),
        next_conv := next_conv (core_pop (add_mset (r_id r) R) st) + 1\<rparr>"
      using fs(1,2) fr(2) by (simp add: core_pop_def st')
    have "pop_step (core_pop (add_mset (r_id r) R) st) (core_pop R st')" unfolding e by (rule ends) simp
    with ok show ?thesis by (simp add: st')
  qed
  then show "core_ok env st'" "pop_step (core_pop (add_mset (r_id r) R) st) (core_pop R st')" "SimCore.more st' = SimCore.more st"
    "sm_cache st' = sm_cache st" by simp_all
qed

text \<open>A pool is retired one decoder after the other.\<close>

lemma retire_with_steps:
  assumes "retire_with don f pl st = Some (keep, gone, st')" and "I st"
    and "\<And>q st st' R. q \<in> set pl \<Longrightarrow> don q \<Longrightarrow> I st \<Longrightarrow> f q st = Some st' \<Longrightarrow> I st' \<and> pop_step (P (add_mset (idf q) R) st) (P R st')"
  shows "I st' \<and> pop_steps (P (image_mset idf (mset pl) + R) st) (P (image_mset idf (mset keep) + R) st')
    \<and> keep = filter (\<lambda>q. \<not> don q) pl \<and> gone = filter don pl"
  using assms
proof (induction pl arbitrary: st keep gone R)
  case (Cons q qs)
  have step: "q' \<in> set qs \<Longrightarrow> don q' \<Longrightarrow> I s \<Longrightarrow> f q' s = Some s' \<Longrightarrow> I s' \<and> pop_step (P (add_mset (idf q') R) s) (P R s')" for q' s s' R
    using Cons.prems(3) [of q' s s' R] by simp
  show ?case
  proof (cases "don q")
    case True
    with Cons.prems(1) obtain st1 gone1 where c: "f q st = Some st1"
      and r: "retire_with don f qs st1 = Some (keep, gone1, st')" "gone = q # gone1"
      by (auto split: option.splits)
    note s = Cons.prems(3) [OF _ True Cons.prems(2) c]
    have i: "I st1" using s by simp
    have a: "pop_step (P (image_mset idf (mset (q # qs)) + R) st) (P (image_mset idf (mset qs) + R) st1)" using s by simp
    have IH: "I st' \<and> pop_steps (P (image_mset idf (mset qs) + R) st1) (P (image_mset idf (mset keep) + R) st')
      \<and> keep = filter (\<lambda>q. \<not> don q) qs \<and> gone1 = filter don qs" by (rule Cons.IH [OF r(1) i step])
    have "pop_steps (P (image_mset idf (mset (q # qs)) + R) st) (P (image_mset idf (mset keep) + R) st')"
      by (rule converse_rtranclp_into_rtranclp [where r = pop_step, OF a]) (use IH in blast)
    with IH True r(2) show ?thesis by simp
  next
    case False
    with Cons.prems(1) obtain keep1 where r: "retire_with don f qs st = Some (keep1, gone, st')" "keep = q # keep1"
      by (auto split: option.splits)
    have "I st' \<and> pop_steps (P (image_mset idf (mset qs) + add_mset (idf q) R) st) (P (image_mset idf (mset keep1) + add_mset (idf q) R) st')
      \<and> keep1 = filter (\<lambda>q. \<not> don q) qs \<and> gone = filter don qs" by (rule Cons.IH [OF r(1) Cons.prems(2) step])
    with False r(2) show ?thesis by (elim conjE) simp
  qed
qed simp

lemma retire_with_returns:
  assumes "I st" and "\<And>q st. q \<in> set pl \<Longrightarrow> don q \<Longrightarrow> I st \<Longrightarrow> \<exists>st'. f q st = Some st' \<and> I st'"
  shows "\<exists>keep gone st'. retire_with don f pl st = Some (keep, gone, st') \<and> I st'"
  using assms
proof (induction pl arbitrary: st)
  case (Cons q qs)
  have step: "q' \<in> set qs \<Longrightarrow> don q' \<Longrightarrow> I s \<Longrightarrow> \<exists>s'. f q' s = Some s' \<and> I s'" for q' s using Cons.prems(2) [of q' s] by simp
  show ?case
  proof (cases "don q")
    case True
    obtain st1 where c: "f q st = Some st1" "I st1" 
      using Cons.prems(2) [OF list.set_intros(1) True Cons.prems(1)] by blast
    obtain keep gone st' where "retire_with don f qs st1 = Some (keep, gone, st')" "I st'" 
      using Cons.IH [OF c(2) step] by metis
    with c(1) True show ?thesis by simp
  next
    case False
    obtain keep gone st' where "retire_with don f qs st = Some (keep, gone, st')" "I st'" 
      using Cons.IH [OF Cons.prems(1) step] by metis
    with False show ?thesis by simp
  qed
qed simp

lemma sim_finish_returns:
  assumes "cutoff_ok (se_lib env) (mt_edge_cutoff (sm_wl st))"
  shows "\<exists>st'. sim_finish env now r st = Some st' \<and> mt_edge_cutoff (sm_wl st') = mt_edge_cutoff (sm_wl st)"
proof -
  obtain ret w' where ret: "maybe_return (se_lib env) r now (sm_wl st) = (ret, w')" by fastforce
  have e: "mt_edge_cutoff w' = mt_edge_cutoff (sm_wl st)" using maybe_return_frame(3) [OF ret] .
  with assms obtain r1 w1 where f: "fresh_arrival (se_lib env) now w' = Some (r1, w1)" using fresh_arrival_returns [of "se_lib env" w' now] by auto
  show ?thesis using ret f e fresh_arrival_Some(4) [OF f] by (auto simp: sim_finish_def)
qed

lemma fold_push_q: "gq_q (fold gq_push rs g) = gq_q g @ rs"
  by (induction rs arbitrary: g) simp_all

lemma returns_steps: "away p = ids_of rs + A \<Longrightarrow> pop_steps p (p\<lparr>away := A, in_queue := ids_of rs + in_queue p\<rparr>)"
proof (induction rs arbitrary: p)
  case (Cons r rs)
  let ?p = "p\<lparr>away := ids_of rs + A, in_queue := add_mset (r_id r) (in_queue p)\<rparr>"
  have "pop_step p ?p" using Cons.prems by (intro returns_to_queue) simp
  moreover have "pop_steps ?p (?p\<lparr>away := A, in_queue := ids_of rs + in_queue ?p\<rparr>)" by (rule Cons.IH) simp
  ultimately show ?case by (auto intro: converse_rtranclp_into_rtranclp)
next
  case Nil
  then have "p\<lparr>away := A, in_queue := ids_of [] + in_queue p\<rparr> = p" by (cases p) simp
  then show ?case by (simp only: rtranclp.rtrancl_refl)
qed

lemma sim_arrivals_step:
  assumes "core_ok env st"
  shows "core_ok env (sim_arrivals now st)" "pop_steps (core_pop R st) (core_pop R (sim_arrivals now st))"
    "SimCore.more (sim_arrivals now st) = SimCore.more st" "sm_wl (sim_arrivals now st) = sm_wl st"
    "set (gq_q (sm_queue (sim_arrivals now st))) \<subseteq> set (gq_q (sm_queue st)) \<union> snd ` set (by_round (sm_pend st))"
    "set (by_round (sm_pend (sim_arrivals now st))) \<subseteq> set (by_round (sm_pend st))"
    "sm_cache (sim_arrivals now st) = evict_tick now (sm_cache st)"
proof -
  let ?bd = "by_round (sm_pend st)"
  let ?due = "map snd (filter (\<lambda>x. fst x \<le> now) ?bd)"
  let ?p = "(sm_pend st)\<lparr>by_round := filter (\<lambda>x. \<not> fst x \<le> now) ?bd\<rparr>"
  have p_ok: "pending_ok (sm_pend st)" using assms by (simp add: core_ok_def)
  then have st': "sim_arrivals now st = st\<lparr>sm_cache := evict_tick now (sm_cache st), sm_pend := ?p,
      sm_queue := fold gq_push ?due (sm_queue st)\<rparr>"
    by (simp add: sim_arrivals_def Let_def pending_due_eq)
  show "SimCore.more (sim_arrivals now st) = SimCore.more st" "sm_wl (sim_arrivals now st) = sm_wl st"
    "set (gq_q (sm_queue (sim_arrivals now st))) \<subseteq> set (gq_q (sm_queue st)) \<union> snd ` set (by_round (sm_pend st))"
    "set (by_round (sm_pend (sim_arrivals now st))) \<subseteq> set (by_round (sm_pend st))"
    "sm_cache (sim_arrivals now st) = evict_tick now (sm_cache st)"
    by (auto simp: st' fold_push_q)
  have "pending_ok ?p" using pending_due_ok [OF p_ok, of now] pending_due_eq [OF p_ok, of now] by simp
  then show "core_ok env (sim_arrivals now st)"
    using assms by (auto simp: st' core_ok_def core_counters_def evict_inv budget_length fold_push_q)
  let ?A = "ids_of (map snd (by_round ?p))"
  have "mset ?bd = mset (filter (\<lambda>x. fst x \<le> now) ?bd) + mset (filter (\<lambda>x. \<not> fst x \<le> now) ?bd)"
    by (simp add: mset_filter)
  then have "away (core_pop R st) = ids_of ?due + ?A"
    by (simp add: ids_of_def del: mset_filter)
  from returns_steps [OF this]
  show "pop_steps (core_pop R st) (core_pop R (sim_arrivals now st))"
    by (simp add: core_pop_def st' fold_push_q add.commute)
qed

text \<open>An admission: a request leaves the queue for a slot, whichever of the two pulls chose it.\<close>

context slot_queue
begin

lemma pull_admits:
  assumes "pull (sm_queue st) ideal = (r, q)" and "0 \<le> r_id r" and "core_ok env st" and "sm_same (st\<lparr>sm_queue := q\<rparr>) st'"
  shows "rq_ok r" "core_ok env st'" "pop_step (core_pop R st) (core_pop (add_mset (r_id r) R) st')" "r \<in> set (gq_q (sm_queue st))"
    "set (gq_q (sm_queue st')) \<subseteq> set (gq_q (sm_queue st))"
proof -
  note f = pull_from [OF assms(1,2)]
  show "rq_ok r" using f(1) assms(3) unfolding core_ok_def by blast
  have "core_ok env (st\<lparr>sm_queue := q\<rparr>)" using f(2) assms(3) by (auto simp: core_ok_def core_counters_def)
  then show "core_ok env st'" using sm_same_ok [OF assms(4)] by blast
  show "pop_step (core_pop R st) (core_pop (add_mset (r_id r) R) st')"
    using pull_enters [OF assms(1,2), of "core_pop R st"] unfolding sm_same_pop [OF assms(4)] by (simp add: core_pop_def)
  show "r \<in> set (gq_q (sm_queue st))" "set (gq_q (sm_queue st')) \<subseteq> set (gq_q (sm_queue st))"
    using f assms(4) by (simp_all add: sm_same_def)
qed

lemma pull_dry:
  assumes "pull (sm_queue st) ideal = (r, q)" and "\<not> 0 \<le> r_id r" and "core_ok env st"
  shows "core_ok env (st\<lparr>sm_queue := q\<rparr>)" "core_pop R (st\<lparr>sm_queue := q\<rparr>) = core_pop R st" "gq_q q = gq_q (sm_queue st)"
proof -
  show q: "gq_q q = gq_q (sm_queue st)"
    using pull_nothing [OF assms(1)] assms(2,3) by (simp add: core_ok_def rq_ok_def)
  then show "core_ok env (st\<lparr>sm_queue := q\<rparr>)" "core_pop R (st\<lparr>sm_queue := q\<rparr>) = core_pop R st"
    using assms(3) by (simp_all add: core_ok_def core_counters_def core_pop_def)
qed

end

section \<open>A small cluster\<close>

definition demo_sim :: "nat SimEnv" where
  "demo_sim = \<lparr>se_lib = toy_lib, se_d = small_deployment\<lparr>d_op := demo_op\<rparr>, se_op = demo_op,
     se_slo = \<lparr>t_ttft_us = dlit 5000000, t_tbt_us = dlit 2600\<rparr>, se_beta = dlit (1 / 2), se_warm = 0, se_Z = 2, se_seed = 0,
     se_mt = demo_mt, se_cap_room = 600000\<rparr>"

lemma demo_sim_ok: "simenv_ok demo_sim"
  by (simp add: sim_ok_def demo_sim_def toy_lib_ok toy_lengths mt_ok_def demo_mt_def small_mt_def)

end
