(* ===== verification/Baseline.thy ===== *)
theory Baseline
  imports Sim_Core
begin

text \<open>
  \<open>sim/baseline.cpp\<close>: the driver that the others are compared with. Nodes steer and heal as in
  \<open>csched.cpp\<close>, but the queue is pulled by fit only, and an eligibility threshold of \<open>INT_MAX\<close>
  keeps every finished conversation out of the HBM cache.
\<close>

section \<open>The model\<close>

record BsDecoder =
  bd_id :: int
  bd_prompt :: int
  bd_max_tokens :: int
  bd_dec :: int
  bd_wait :: int
  bd_turn :: int
  bd_cached_prefix :: int
  bd_met_ttft :: bool

definition bd_live_kv :: "BsDecoder \<Rightarrow> int" where
  "bd_live_kv q = bd_prompt q + bd_dec q"

record 'g BaseState = "'g SimCore" +
  bs_pools :: "BsDecoder list list"

definition int_max :: int where
  "int_max = 2147483647"

definition base_op :: "Deployment \<Rightarrow> CsArgs \<Rightarrow> OperatingPoint" where
  "base_op d a = (case arg_age_cap a of None \<Rightarrow> d_op d | Some c \<Rightarrow> (d_op d)\<lparr>age_cap := c\<rparr>)"

definition base_env :: "'g Lib \<Rightarrow> Deployment \<Rightarrow> CsArgs \<Rightarrow> SimConfig \<Rightarrow> 'g SimEnv" where
  "base_env lib d a cfg =
     (let op = base_op d a
      in \<lparr>se_lib = lib, se_d = d, se_op = op,
          se_slo = \<lparr>t_ttft_us = sc_slo_ttft_us cfg, t_tbt_us = sc_slo_tbt_mult cfg * round_us d\<rparr>,
          se_beta = given (arg_beta a) (sc_contention_beta cfg), se_warm = sc_warm cfg, se_Z = nat (given (arg_Z a) (sc_Z cfg)),
          se_seed = sc_seed cfg, se_mt = sc_mt cfg, se_cap_room = decode_pool op * to_ll (ctx_balance op) * 4\<rparr>)"

definition base_state :: "'g SimEnv \<Rightarrow> CsArgs \<Rightarrow> SimConfig \<Rightarrow> int \<Rightarrow> 'g BaseState" where
  "base_state env a cfg cutoff =
     \<lparr>sm_wl = make_mt (se_lib env) (se_seed env) cutoff (se_mt env), sm_queue = make_queue (sc_global_age_cap cfg),
      sm_cache = make_cache (se_Z env) (node_cache_capacity_bytes (se_op env)) (kv_bytes_per_token (d_model (se_d env)))
        \<lparr>eligibility_threshold = int_max, evict_age = sc_evict_age cfg, gone_age = sc_gone_age cfg,
         offload_bw = given (arg_offload_bw a) (sc_offload_bw cfg)\<rparr>,
      sm_pend = \<lparr>by_round = []\<rparr>, sm_m = make_metrics, sm_k = make_kpi, bs_pools = replicate (se_Z env) []\<rparr>"

text \<open>The admissions of the cold start: the request that is priced arrives now, so that it has not waited.\<close>

definition base_admit_ttft :: "'g SimEnv \<Rightarrow> BsDecoder \<Rightarrow> int \<Rightarrow> int \<Rightarrow> ('g, 'z) SimCore_scheme \<Rightarrow> bool \<times> ('g, 'z) SimCore_scheme" where
  "base_admit_ttft env q now it st =
     (let d = se_d env;
          r = no_Request\<lparr>r_id := bd_id q, r_prompt := bd_prompt q, r_cached_prefix := bd_cached_prefix q,
                r_turn := bd_turn q, r_arrival := now\<rparr>;
          wait_us = dbl (now - r_arrival r) * round_us d;
          (comp_us, st) =
            (if 0 < r_turn r
             then (case cache_lookup (r_id r) now (sm_cache st) of (lk, c) \<Rightarrow> (return_us d r lk, st\<lparr>sm_cache := c\<rparr>))
             else (prefill_us d (r_prompt r), st))
      in first_token env (wait_us + comp_us) it st)"

definition bs_decoder_of :: "Request \<Rightarrow> bool \<Rightarrow> BsDecoder" where
  "bs_decoder_of r met =
     \<lparr>bd_id = r_id r, bd_prompt = r_prompt r, bd_max_tokens = r_max_tokens r, bd_dec = 0, bd_wait = 0,
      bd_turn = r_turn r, bd_cached_prefix = r_cached_prefix r, bd_met_ttft = met\<rparr>"

definition base_admit :: "'g SimEnv \<Rightarrow> BsDecoder \<Rightarrow> BsDecoder list \<Rightarrow> 'g BaseState \<Rightarrow> BsDecoder list \<times> 'g BaseState" where
  "base_admit env q pl st = (case base_admit_ttft env q 0 0 st of (met, st) \<Rightarrow> (pl @ [q\<lparr>bd_met_ttft := met\<rparr>], st))"

fun base_cold_admit ::
  "'g SimEnv \<Rightarrow> int list \<Rightarrow> 'g \<Rightarrow> int \<Rightarrow> BsDecoder list \<Rightarrow> 'g BaseState \<Rightarrow> BsDecoder list \<times> 'g \<times> int \<times> 'g BaseState" where
  "base_cold_admit env [] rng dec_id pl st = (pl, rng, dec_id, st)"
| "base_cold_admit env (prompt # lens) rng dec_id pl st =
     (case lib_int (se_lib env) (dtot_lo (se_mt env)) (dtot_hi (se_mt env)) rng of
        (dtot, rng) \<Rightarrow>
          let q = \<lparr>bd_id = dec_id, bd_prompt = prompt, bd_max_tokens = dtot, bd_dec = 0, bd_wait = 0, bd_turn = 0,
                   bd_cached_prefix = 0, bd_met_ttft = False\<rparr>
          in case base_admit env q pl st of (pl, st) \<Rightarrow> base_cold_admit env lens rng (dec_id + 1) pl st)"

definition base_hole :: "'g SimEnv \<Rightarrow> BsDecoder list \<Rightarrow> 'g \<Rightarrow> int \<times> 'g" where
  "base_hole env pl rng =
     (if pl = [] then (to_i32 (ctx_balance (se_op env)), rng)
      else case lib_next (se_lib env) rng of (n, rng) \<Rightarrow> (bd_prompt (pl ! (n mod length pl)), rng))"

function base_top_up :: "'g SimEnv \<Rightarrow> 'g \<Rightarrow> BsDecoder list \<Rightarrow> 'g BaseState \<Rightarrow> BsDecoder list \<times> 'g \<times> 'g BaseState" where
  "base_top_up env rng pl st =
     (if int (length pl) < decode_pool (se_op env)
      then (case base_hole env pl rng of
              (hole, rng) \<Rightarrow>
                (case gq_pull_near (sm_queue st) (dbl hole) (se_cap_room env) of
                   (r, q) \<Rightarrow>
                     let st = st\<lparr>sm_queue := q\<rparr>
                     in if r_id r < 0 then (pl, rng, st)
                        else (case base_admit_ttft env (bs_decoder_of r False) 0 0 st of
                                (met, st) \<Rightarrow> base_top_up env rng (pl @ [bs_decoder_of r met]) st)))
      else (pl, rng, st))"
  by pat_completeness auto
termination
  by (relation "measure (\<lambda>(env, rng, pl, st). nat (decode_pool (se_op env) - int (length pl)))") auto

declare base_top_up.simps [simp del]

definition base_cold_node :: "'g SimEnv \<Rightarrow> ClusterNode list \<Rightarrow> nat \<Rightarrow> 'g \<times> int \<times> 'g BaseState \<Rightarrow> 'g \<times> int \<times> 'g BaseState" where
  "base_cold_node env cnodes z acc =
     (case acc of
        (rng, dec_id, st) \<Rightarrow>
          let take_n = min (int (length (cn_lengths (cnodes ! z)))) (decode_pool (se_op env))
          in case base_cold_admit env (take (nat take_n) (cn_lengths (cnodes ! z))) rng dec_id (bs_pools st ! z) st of
               (pl, rng, dec_id, st) \<Rightarrow>
                 (case base_top_up env rng pl st of
                    (pl, rng, st) \<Rightarrow> (rng, dec_id, st\<lparr>bs_pools := (bs_pools st)[z := pl]\<rparr>)))"

definition base_cold_start :: "'g SimEnv \<Rightarrow> 'g BaseState \<Rightarrow> 'g BaseState" where
  "base_cold_start env st =
     (case draw_list (se_lib env) (nat (int (se_Z env) * decode_pool (se_op env) * 2)) (lib_seed (se_lib env) (se_seed env)) of
        (draw, init_rng) \<Rightarrow>
          let g = gate draw (se_op env);
              cnodes = fst (cold_start (lib_shuffle (se_lib env)) (kept g)
                (replicate (se_Z env) \<lparr>cn_lengths = [], cn_total = 0\<rparr>) (se_op env) (se_seed env))
          in snd (snd (fold (base_cold_node env cnodes) [0..<se_Z env] (init_rng, 0, st))))"

definition base_init :: "'g SimEnv \<Rightarrow> int \<Rightarrow> 'g BaseState \<Rightarrow> 'g BaseState option" where
  "base_init env backlog st =
     (case seed_queue (se_lib env) (nat (backlog + 2 * int (se_Z env))) (sm_wl st) (sm_queue st) of
        None \<Rightarrow> None
      | Some (q, w) \<Rightarrow> Some (base_cold_start env (st\<lparr>sm_queue := q, sm_wl := w\<rparr>)))"

section \<open>The round\<close>

definition bs_stats :: "BsDecoder list \<Rightarrow> nat list \<Rightarrow> int \<times> int" where
  "bs_stats pl p =
     fold (\<lambda>i (s, metc). (s + bd_live_kv (pl ! i), if bd_met_ttft (pl ! i) then metc + 1 else metc)) p (0, 0)"

definition base_record_mb :: "'g SimEnv \<Rightarrow> int \<Rightarrow> bool \<Rightarrow> BsDecoder list \<Rightarrow> nat list \<Rightarrow> 'g BaseState \<Rightarrow> 'g BaseState" where
  "base_record_mb env it b2 pl p st = (case bs_stats pl p of (s, metc) \<Rightarrow> sim_record_mb env it b2 (int (length p)) s metc st)"

definition bs_decoders :: "BsDecoder list \<Rightarrow> Decoder list" where
  "bs_decoders pl = map (\<lambda>q. \<lparr>kv_length = bd_live_kv q, wait = bd_wait q\<rparr>) pl"

definition base_compose :: "'g SimEnv \<Rightarrow> int \<Rightarrow> BsDecoder list \<Rightarrow> 'g BaseState \<Rightarrow> bool list \<times> 'g BaseState" where
  "base_compose env it pl st =
     (case compose_round (bs_decoders pl) (se_op env) of
        (p1, p2, used) \<Rightarrow>
          let st = base_record_mb env it False pl p1 st
          in (used, case p2 of None \<Rightarrow> st | Some p \<Rightarrow> base_record_mb env it True pl p st))"

definition bs_step :: "bool \<Rightarrow> BsDecoder \<Rightarrow> BsDecoder" where
  "bs_step u q = (if u then q\<lparr>bd_dec := bd_dec q + 1, bd_wait := 0\<rparr> else q\<lparr>bd_wait := bd_wait q + 1\<rparr>)"

definition base_advance :: "bool list \<Rightarrow> BsDecoder list \<Rightarrow> BsDecoder list" where
  "base_advance used pl = map (\<lambda>i. bs_step (used ! i) (pl ! i)) [0..<length pl]"

definition bd_finished :: "BsDecoder \<Rightarrow> bool" where
  "bd_finished q \<longleftrightarrow> bd_max_tokens q \<le> bd_dec q"

text \<open>The cache is told the length of the prompt, without the tokens decoded.\<close>

definition base_complete :: "'g SimEnv \<Rightarrow> nat \<Rightarrow> int \<Rightarrow> BsDecoder \<Rightarrow> 'g BaseState \<Rightarrow> 'g BaseState option" where
  "base_complete env z now q st =
     (let st = st\<lparr>sm_cache := on_complete z (bd_id q) (bd_prompt q) now (sm_cache st)\<rparr>;
          asReq = \<lparr>r_id = bd_id q, r_prompt = bd_prompt q, r_max_tokens = bd_max_tokens q,
                   r_cached_prefix = bd_cached_prefix q, r_arrival = now, r_turn = bd_turn q\<rparr>
      in sim_finish env now asReq st)"

definition base_retire ::
  "'g SimEnv \<Rightarrow> nat \<Rightarrow> int \<Rightarrow> BsDecoder list \<Rightarrow> 'g BaseState \<Rightarrow> (BsDecoder list \<times> int list \<times> 'g BaseState) option" where
  "base_retire env z now pl st =
     (case retire_with bd_finished (base_complete env z now) pl st of
        None \<Rightarrow> None
      | Some (keep, gone, st) \<Rightarrow> Some (keep, map bd_prompt gone, st))"

fun base_heal :: "'g SimEnv \<Rightarrow> int \<Rightarrow> int \<Rightarrow> int list \<Rightarrow> BsDecoder list \<Rightarrow> 'g BaseState \<Rightarrow> BsDecoder list \<times> 'g BaseState" where
  "base_heal env now it [] pl st = (pl, st)"
| "base_heal env now it (hole # holes) pl st =
     (case gq_pull_near (sm_queue st) (dbl hole) (se_cap_room env) of
        (r, q) \<Rightarrow>
          let st = st\<lparr>sm_queue := q\<rparr>
          in if r_id r < 0 then (pl, st)
             else (case serve_ttft env r now it st of
                     (met, st) \<Rightarrow> base_heal env now it holes (pl @ [bs_decoder_of r met]) st))"

definition bs_pool_stats :: "BsDecoder list \<Rightarrow> int \<times> int list" where
  "bs_pool_stats pl =
     fold (\<lambda>q (s, rc). (s + bd_live_kv q, rc[class_of (bd_prompt q) := rc ! class_of (bd_prompt q) + 1])) pl (0, [0, 0, 0])"

definition base_diagnose :: "'g SimEnv \<Rightarrow> int \<Rightarrow> BsDecoder list \<Rightarrow> PoolAcc \<Rightarrow> PoolAcc" where
  "base_diagnose env it pl acc =
     (if se_warm env \<le> it \<and> pl \<noteq> []
      then (case bs_pool_stats pl of
              (s, rc) \<Rightarrow>
                acc\<lparr>pa_mean := pa_mean acc + dbl s / dbl (int (length pl)),
                    pa_resid := map (\<lambda>c. pa_resid acc ! c + dbl (rc ! c) / dbl (int (length pl))) [0..<3],
                    pa_nodes := pa_nodes acc + 1\<rparr>)
      else acc)"

definition base_node_step :: "'g SimEnv \<Rightarrow> int \<Rightarrow> nat \<Rightarrow> 'g BaseState \<times> PoolAcc \<Rightarrow> ('g BaseState \<times> PoolAcc) option" where
  "base_node_step env it z sa =
     (case sa of
        (st, acc) \<Rightarrow>
          (case base_compose env it (bs_pools st ! z) st of
             (used, st) \<Rightarrow>
               (case base_retire env z it (base_advance used (bs_pools st ! z)) st of
                  None \<Rightarrow> None
                | Some (keep, holes, st) \<Rightarrow>
                    (case base_heal env it it holes keep st of
                       (pl, st) \<Rightarrow> Some (st\<lparr>bs_pools := (bs_pools st)[z := pl]\<rparr>, base_diagnose env it pl acc)))))"

fun base_nodes :: "'g SimEnv \<Rightarrow> int \<Rightarrow> nat list \<Rightarrow> 'g BaseState \<times> PoolAcc \<Rightarrow> ('g BaseState \<times> PoolAcc) option" where
  "base_nodes env it [] sa = Some sa"
| "base_nodes env it (z # zs) sa = (case base_node_step env it z sa of None \<Rightarrow> None | Some sa \<Rightarrow> base_nodes env it zs sa)"

definition base_round :: "'g SimEnv \<Rightarrow> int \<Rightarrow> 'g BaseState \<Rightarrow> 'g BaseState option" where
  "base_round env it st =
     (case base_nodes env it [0..<se_Z env]
             (sim_arrivals it st, \<lparr>pa_resid = [dlit 0, dlit 0, dlit 0], pa_mean = dlit 0, pa_nodes = 0\<rparr>) of
        None \<Rightarrow> None
      | Some (st, acc) \<Rightarrow>
          Some (if se_warm env \<le> it \<and> 0 < pa_nodes acc
                then st\<lparr>sm_m := record_pool (pa_mean acc / dbl (pa_nodes acc))
                       (map (\<lambda>c. pa_resid acc ! c / dbl (pa_nodes acc)) [0..<3]) (sm_m st)\<rparr>
                else st))"

fun base_loop :: "'g SimEnv \<Rightarrow> nat \<Rightarrow> int \<Rightarrow> 'g BaseState \<Rightarrow> 'g BaseState option" where
  "base_loop env 0 it st = Some st"
| "base_loop env (Suc n) it st = (case base_round env it st of None \<Rightarrow> None | Some st \<Rightarrow> base_loop env n (it + 1) st)"

section \<open>The driver\<close>

definition base_report :: "'g SimEnv \<Rightarrow> int \<Rightarrow> 'g BaseState \<Rightarrow> SimReport" where
  "base_report env iters st =
     (let k = (sm_k st)\<lparr>k_sim_us := dbl (iters - se_warm env) * round_us (se_d env)\<rparr>
      in \<lparr>sr_summary = print_summary (sm_m st), sr_metrics = sm_m st, sr_kpi = kpi_print k,
          sr_queue_size = gq_size (sm_queue st), sr_max_wait = gq_max_wait (sm_queue st) iters,
          sr_forced = gq_forced (sm_queue st)\<rparr>)"

definition base_run :: "'g SimEnv \<Rightarrow> CsArgs \<Rightarrow> SimConfig \<Rightarrow> int \<Rightarrow> int \<Rightarrow> nat \<Rightarrow> 'g BaseState option" where
  "base_run env a cfg cutoff backlog iters =
     (case base_init env backlog (base_state env a cfg cutoff) of
        None \<Rightarrow> None
      | Some st \<Rightarrow> base_loop env iters 0 st)"

definition base_main :: "'g Lib \<Rightarrow> CsArgs \<Rightarrow> SimReport option" where
  "base_main lib a =
     (let d = make_deployment; cfg = default_sim;
          iters = given (arg_iters a) (sc_iters cfg);
          env = base_env lib d a cfg
      in case base_run env a cfg (edge_cutoff lib (se_op env) (se_seed env)) (given (arg_seed_backlog a) (sc_seed_backlog cfg)) (nat iters) of
           None \<Rightarrow> None
         | Some st \<Rightarrow> Some (base_report env iters st))"

end
