(* ===== verification/Baseline_Correct.thy ===== *)
theory Baseline_Correct
  imports Baseline
begin

text \<open>
  Correctness of the baseline driver: its rounds refine the abstract cluster, and as long as the
  contexts fit an \<open>int\<close> its cache never answers with a hit. One invariant carries both: it bounds
  the prompts by \<open>b\<close>, which grows with each round by what a turn can add to a context.
\<close>

section \<open>The invariant\<close>

definition growth :: "'g SimEnv \<Rightarrow> int" where
  "growth env = dtot_hi (se_mt env) + new_msg_hi (se_mt env)"

definition rq_le :: "'g SimEnv \<Rightarrow> int \<Rightarrow> Request \<Rightarrow> bool" where
  "rq_le env b r \<longleftrightarrow> r_prompt r \<le> b \<and> r_max_tokens r \<le> dtot_hi (se_mt env)"

definition bd_ok :: "'g SimEnv \<Rightarrow> int \<Rightarrow> BsDecoder \<Rightarrow> bool" where
  "bd_ok env b q \<longleftrightarrow> 0 \<le> bd_id q \<and> 0 \<le> bd_prompt q \<and> 0 \<le> bd_max_tokens q \<and> bd_prompt q \<le> b \<and> bd_max_tokens q \<le> dtot_hi (se_mt env)"

text \<open>A cold cache has nothing in HBM and has never answered with a hit.\<close>

definition cold :: "('g, 'z) SimCore_scheme \<Rightarrow> bool" where
  "cold st \<longleftrightarrow> eligibility_threshold (cc_cfg (sm_cache st)) = int_max \<and> (\<forall>x \<in> set (cc_idx (sm_cache st)). e_tier (snd x) \<noteq> HBM)
     \<and> m_hbm_hit (sm_m st) = 0"

definition bs_inv :: "'g SimEnv \<Rightarrow> int \<Rightarrow> ('g, 'z) SimCore_scheme \<Rightarrow> bool" where
  "bs_inv env b st \<longleftrightarrow> core_ok env st \<and> (\<forall>r \<in> set (gq_q (sm_queue st)). rq_le env b r)
     \<and> (\<forall>x \<in> set (by_round (sm_pend st)). rq_le env (b + growth env) (snd x)) \<and> mt_edge_cutoff (sm_wl st) \<le> b
     \<and> (b \<le> int_max \<longrightarrow> cold st)"

definition bs_ids :: "BsDecoder list \<Rightarrow> int multiset" where
  "bs_ids pl = image_mset bd_id (mset pl)"

lemma bs_ids_simps [simp]:
  "bs_ids [] = {#}" "bs_ids (q # qs) = add_mset (bd_id q) (bs_ids qs)" "bs_ids (xs @ ys) = bs_ids xs + bs_ids ys"
  by (simp_all add: bs_ids_def)

text \<open>The abstraction: the population whose residents are the decoders of all pools.\<close>

definition bs_abs :: "'g BaseState \<Rightarrow> Population" where
  "bs_abs st = core_pop (bs_ids (concat (bs_pools st))) st"

definition base_ok :: "'g SimEnv \<Rightarrow> int \<Rightarrow> 'g BaseState \<Rightarrow> bool" where
  "base_ok env b st \<longleftrightarrow> bs_inv env b st \<and> length (bs_pools st) = se_Z env \<and> (\<forall>q \<in> set (concat (bs_pools st)). bd_ok env b q)"

lemma core_pop_pools [simp]: "core_pop R (st\<lparr>bs_pools := p\<rparr>) = core_pop R st"
  by (simp add: core_pop_def)

lemma bs_inv_pools [simp]: "bs_inv env b (st\<lparr>bs_pools := p\<rparr>) = bs_inv env b st"
  by (simp add: bs_inv_def core_ok_def core_counters_def cold_def)

lemma growth_nonneg: "simenv_ok env \<Longrightarrow> 0 \<le> growth env"
  by (auto simp: growth_def sim_ok_def mt_ok_def)

lemma rq_le_mono: "rq_le env b r \<Longrightarrow> b \<le> b' \<Longrightarrow> rq_le env b' r"
  by (simp add: rq_le_def)

lemma bd_ok_mono: "bd_ok env b q \<Longrightarrow> b \<le> b' \<Longrightarrow> bd_ok env b' q"
  by (simp add: bd_ok_def)

lemma bs_inv_mono: "bs_inv env b st \<Longrightarrow> b \<le> b' \<Longrightarrow> bs_inv env b' st"
  by (force simp: bs_inv_def intro: rq_le_mono)

lemma bs_decoder_of_ok: "rq_ok r \<Longrightarrow> rq_le env b r \<Longrightarrow> bd_ok env b (bs_decoder_of r met)"
  by (simp add: rq_ok_def rq_le_def bd_ok_def bs_decoder_of_def)

lemma bs_decoder_of_id [simp]: "bd_id (bs_decoder_of r met) = r_id r"
  by (simp add: bs_decoder_of_def)

section \<open>The cache stays cold\<close>

lemma cold_lookup:
  assumes "cold st" and "cache_lookup i now (sm_cache st) = (lk, c)"
  shows "l_result lk \<noteq> Hit" "eligibility_threshold (cc_cfg c) = int_max" "\<forall>x \<in> set (cc_idx c). e_tier (snd x) \<noteq> HBM"
proof -
  have i: "e_tier e \<noteq> HBM" if "map_of (cc_idx (sm_cache st)) i = Some e" for e
    using map_of_SomeD [OF that] assms(1) by (auto simp: cold_def)
  show "l_result lk \<noteq> Hit" "eligibility_threshold (cc_cfg c) = int_max" "\<forall>x \<in> set (cc_idx c). e_tier (snd x) \<noteq> HBM"
    using assms i by (fastforce simp: cache_lookup_def cold_def split: option.splits Tier.splits dest!: set_update_alist)+
qed

lemma cold_first_token: "first_token env ttft it st = (met, st') \<Longrightarrow> cold st' = cold st"
  by (auto simp: first_token_def cold_def split: if_splits prod.splits)

lemma cold_serve:
  assumes "cold st" and "serve_ttft env r now it st = (met, st')" shows "cold st'"
proof (cases "0 < r_turn r")
  case True
  obtain lk c where lk: "cache_lookup (r_id r) now (sm_cache st) = (lk, c)" by fastforce
  let ?t = "dbl (now - r_arrival r) * round_us (se_d env) + return_us (se_d env) r lk"
  obtain met1 st1 where f: "first_token env ?t it (st\<lparr>sm_cache := c\<rparr>) = (met1, st1)" by fastforce
  note c = cold_lookup [OF assms(1) lk]
  have "cold (st\<lparr>sm_cache := c\<rparr>)" using c(2,3) assms(1) by (simp add: cold_def)
  then have "cold st1" using cold_first_token [OF f] by simp
  then show ?thesis using assms(2) True lk f c(1) by (auto simp: serve_ttft_def Let_def cold_def record_return_counts split: if_splits)
next
  case False
  with assms cold_first_token show ?thesis by (fastforce simp: serve_ttft_def Let_def)
qed

lemma cold_complete:
  assumes "cold st" and "len \<le> int_max" shows "cold (st\<lparr>sm_cache := on_complete z i len now (sm_cache st)\<rparr>)"
  using assms by (auto simp: cold_def on_complete_def Let_def dest!: set_update_alist)

lemma cold_evict: "cold st \<Longrightarrow> cold (st\<lparr>sm_cache := evict_tick now (sm_cache st)\<rparr>)"
  by (force simp: cold_def evict_tick_def evict_entry_def split: if_splits)

lemma cold_cong:
  "sm_cache st' = sm_cache st \<Longrightarrow> m_hbm_hit (sm_m st') = m_hbm_hit (sm_m st) \<Longrightarrow> cold st' = cold st"
  by (simp add: cold_def)

section \<open>Admission\<close>

lemma base_admit_ttft_same:
  assumes "base_admit_ttft env q now it st = (met, st')" shows "sm_same st st'" "cold st \<Longrightarrow> cold st'"
proof -
  obtain lk c where lk: "cache_lookup (bd_id q) now (sm_cache st) = (lk, c)" by fastforce
  have c: "\<exists>i t. c = snd (cache_lookup i t (sm_cache st))" using lk by (metis snd_conv)
  obtain ttft st1 where f: "first_token env ttft it st1 = (met, st')" and s: "st1 = st \<or> st1 = st\<lparr>sm_cache := c\<rparr>"
    using assms lk by (auto simp: base_admit_ttft_def Let_def no_Request_def split: if_splits prod.splits)
  obtain k where k: "st' = st1\<lparr>sm_k := k\<rparr>" "kpi_inv (sm_k st1) \<longrightarrow> kpi_inv k" using first_token_frame [OF f] by blast
  show "sm_same st st'" using s c k by (elim disjE) (simp_all add: sm_same_def core_counters_def)
  assume cold: "cold st"
  have "cold (st\<lparr>sm_cache := c\<rparr>)" using cold_lookup(2,3) [OF cold lk] cold by (simp add: cold_def)
  with s cold show "cold st'" using cold_first_token [OF f] by auto
qed

text \<open>A pull and the pricing of what it gave.\<close>

lemma bs_inv_same:
  assumes "bs_inv env b st" and "sm_same st st'" and "cold st \<Longrightarrow> cold st'" shows "bs_inv env b st'"
proof -
  have "sm_wl st' = sm_wl st" "sm_queue st' = sm_queue st" "sm_pend st' = sm_pend st" using assms(2) by (simp_all add: sm_same_def)
  with assms(1,3) sm_same_ok [OF assms(2)] show ?thesis by (simp add: bs_inv_def)
qed

lemma bs_pull:
  assumes "gq_pull_near (sm_queue st) ideal room = (r, q)" and "bs_inv env b st" and "\<not> r_id r < 0"
    and "sm_same (st\<lparr>sm_queue := q\<rparr>) st'" and "cold (st\<lparr>sm_queue := q\<rparr>) \<Longrightarrow> cold st'"
  shows "bs_inv env b st'" "bd_ok env b (bs_decoder_of r met)" "pop_step (core_pop R st) (core_pop (add_mset (r_id r) R) st')"
proof -
  have ok: "core_ok env st" and pos: "0 \<le> r_id r" using assms(2,3) by (simp_all add: bs_inv_def)
  note p = near_pull.pull_admits [OF assms(1) pos ok assms(4)]
  show "pop_step (core_pop R st) (core_pop (add_mset (r_id r) R) st')" by (rule p(3))
  show "bs_inv env b st'"
    using p(2,5) assms(2,4,5) cold_cong [of "st\<lparr>sm_queue := q\<rparr>" st] by (auto simp: bs_inv_def sm_same_def)
  show "bd_ok env b (bs_decoder_of r met)" using p(1,4) assms(2) by (intro bs_decoder_of_ok) (simp_all add: bs_inv_def)
qed

lemma bs_dry:
  assumes "gq_pull_near (sm_queue st) ideal room = (r, q)" and "bs_inv env b st" and "r_id r < 0"
  shows "bs_inv env b (st\<lparr>sm_queue := q\<rparr>)" "core_pop R (st\<lparr>sm_queue := q\<rparr>) = core_pop R st"
proof -
  have ok: "core_ok env st" and neg: "\<not> 0 \<le> r_id r" using assms(2,3) by (simp_all add: bs_inv_def)
  note p = near_pull.pull_dry [OF assms(1) neg ok]
  show "core_pop R (st\<lparr>sm_queue := q\<rparr>) = core_pop R st" by (rule p(2))
  show "bs_inv env b (st\<lparr>sm_queue := q\<rparr>)" using p(1,3) assms(2) cold_cong [of "st\<lparr>sm_queue := q\<rparr>" st] by (simp add: bs_inv_def)
qed

section \<open>A node's turn\<close>

lemma bs_stats_met: "bs_stats pl p = (s, m) \<Longrightarrow> 0 \<le> m \<and> m \<le> int (length p)"
proof -
  have "fold (\<lambda>i (s, metc). (s + bd_live_kv (pl ! i), if bd_met_ttft (pl ! i) then metc + 1 else metc)) p (s0, m0) = (s, m) \<Longrightarrow>
     m0 \<le> m \<and> m \<le> m0 + int (length p)" for s0 m0
    by (induction p arbitrary: s0 m0) (force split: if_splits)+
  then show "bs_stats pl p = (s, m) \<Longrightarrow> 0 \<le> m \<and> m \<le> int (length p)" by (fastforce simp: bs_stats_def)
qed

lemma base_record_mb_same:
  "sm_same st (base_record_mb env it b2 pl p st)" "cold st \<Longrightarrow> cold (base_record_mb env it b2 pl p st)"
proof -
  obtain s m where ms: "bs_stats pl p = (s, m)" by fastforce
  from bs_stats_met [OF ms] show "sm_same st (base_record_mb env it b2 pl p st)"
    by (simp add: base_record_mb_def ms sim_record_mb_same)
  show "cold st \<Longrightarrow> cold (base_record_mb env it b2 pl p st)"
    by (simp add: base_record_mb_def ms sim_record_mb_def cold_def record_batch_def Let_def)
qed

lemma base_compose_step:
  assumes "base_compose env it pl st = (used, st')" and "bs_inv env b st"
  shows "bs_inv env b st'" "core_pop R st' = core_pop R st" "bs_pools st' = bs_pools st"
    "\<exists>p1 p2. compose_round (bs_decoders pl) (se_op env) = (p1, p2, used)"
proof -
  obtain p1 p2 u where c: "compose_round (bs_decoders pl) (se_op env) = (p1, p2, u)" using prod_cases3 by blast
  let ?st1 = "base_record_mb env it False pl p1 st"
  from assms(1) c have u: "u = used" "st' = (case p2 of None \<Rightarrow> ?st1 | Some p \<Rightarrow> base_record_mb env it True pl p ?st1)"
    by (simp_all add: base_compose_def Let_def)
  note a = base_record_mb_same [of st env it False pl p1]
  have 1: "bs_inv env b ?st1" "core_pop R ?st1 = core_pop R st" "bs_pools ?st1 = bs_pools st"
    using bs_inv_same [OF assms(2) a] sm_same_pop [OF a(1)] a(1)
    by (simp_all add: base_record_mb_def sim_record_mb_def split: prod.split)
  show "bs_inv env b st'" "core_pop R st' = core_pop R st" "bs_pools st' = bs_pools st"
    using 1 bs_inv_same [OF 1(1) base_record_mb_same] sm_same_pop [OF base_record_mb_same(1)]
    by (auto simp: u(2) base_record_mb_def sim_record_mb_def core_pop_def split: option.split prod.split)
  show "\<exists>p1 p2. compose_round (bs_decoders pl) (se_op env) = (p1, p2, used)" using c u by blast
qed

lemma base_advance_step:
  "length (base_advance used pl) = length pl" "bs_ids (base_advance used pl) = bs_ids pl"
  "\<forall>q \<in> set pl. bd_ok env b q \<Longrightarrow> \<forall>q \<in> set (base_advance used pl). bd_ok env b q"
proof -
  show "length (base_advance used pl) = length pl" by (simp add: base_advance_def)
  have "map bd_id (base_advance used pl) = map bd_id pl" by (auto simp: base_advance_def bs_step_def intro: nth_equalityI)
  then show "bs_ids (base_advance used pl) = bs_ids pl" by (metis bs_ids_def mset_map)
  show "\<forall>q \<in> set pl. bd_ok env b q \<Longrightarrow> \<forall>q \<in> set (base_advance used pl). bd_ok env b q"
    by (auto simp: base_advance_def bs_step_def bd_ok_def)
qed

lemma base_complete_step:
  assumes "base_complete env z now q st = Some st'" and "bs_inv env b st" and "simenv_ok env" and "bd_ok env b q" and "z < se_Z env"
  shows "bs_inv env b st' \<and> pop_step (core_pop (add_mset (bd_id q) R) st) (core_pop R st')"
proof -
  let ?st = "st\<lparr>sm_cache := on_complete z (bd_id q) (bd_prompt q) now (sm_cache st)\<rparr>"
  let ?r = "\<lparr>r_id = bd_id q, r_prompt = bd_prompt q, r_max_tokens = bd_max_tokens q,
                   r_cached_prefix = bd_cached_prefix q, r_arrival = now, r_turn = bd_turn q\<rparr>"
  have f: "sim_finish env now ?r ?st = Some st'" using assms(1) by (simp add: base_complete_def Let_def)
  have ok: "core_ok env ?st"
    using assms(2,4,5) on_complete_inv [of "sm_cache st" z "bd_prompt q"]
    by (simp add: bs_inv_def core_ok_def core_counters_def bd_ok_def budget_length)
  have r: "rq_ok ?r" using assms(4) by (simp add: rq_ok_def bd_ok_def)
  note s = sim_finish_step [OF f ok assms(3) r]
  have "core_pop X ?st = core_pop X st" for X by (simp add: core_pop_def)
  with s(2) [of R] have step: "pop_step (core_pop (add_mset (bd_id q) R) st) (core_pop R st')" by (simp only: Request.simps)
  have cfg: "mt_cfg (sm_wl st) = se_mt env" using assms(2) by (simp add: bs_inv_def core_ok_def)
  have lib: "lib_ok (se_lib env)" "mt_ok (se_mt env)" using assms(3) by (simp_all add: sim_ok_def)
  obtain ret w' where ret: "maybe_return (se_lib env) ?r now (sm_wl st) = (ret, w')" by fastforce
  note fr = maybe_return_frame [OF ret]
  have hit: "m_hbm_hit (sm_m st') = m_hbm_hit (sm_m ?st)" using f ret by (auto simp: sim_finish_def split: if_splits option.splits)
  have cold: "cold st'" if "b \<le> int_max"
  proof -
    have "cold ?st" using that assms(2,4) by (intro cold_complete) (simp_all add: bs_inv_def bd_ok_def)
    then show ?thesis using cold_cong [of st' ?st] s(4) hit by simp
  qed
  have "bs_inv env b st'"
  proof (cases "ret_returns ret")
    case True
    with f ret have st': "st' = ?st\<lparr>sm_wl := w', sm_pend := pending_add (ret_round ret) (ret_next ret) (sm_pend st)\<rparr>"
      by (simp add: sim_finish_def)
    have "think_gap_lo (mt_cfg (sm_wl st)) \<le> think_gap_hi (mt_cfg (sm_wl st))" "new_msg_lo (mt_cfg (sm_wl st)) \<le> new_msg_hi (mt_cfg (sm_wl st))"
      "dtot_lo (mt_cfg (sm_wl st)) \<le> dtot_hi (mt_cfg (sm_wl st))" using lib(2) by (simp_all add: cfg mt_ok_def)
    from maybe_return_next [OF ret True lib(1) this] assms(4)
    have n: "rq_le env (b + growth env) (ret_next ret)" by (auto simp: rq_le_def growth_def cfg bd_ok_def)
    have "mset (by_round (sm_pend st')) = add_mset (ret_round ret, ret_next ret) (mset (by_round (sm_pend st)))"
      by (simp add: st' pending_add_mset)
    then have "set (by_round (sm_pend st')) = insert (ret_round ret, ret_next ret) (set (by_round (sm_pend st)))"
      by (metis set_mset_add_mset_insert set_mset_mset)
    then show ?thesis using s(1) assms(2) n cold fr(3) by (auto simp: bs_inv_def st')
  next
    case False
    with f ret obtain r1 w1 where a: "fresh_arrival (se_lib env) now w' = Some (r1, w1)"
      and st': "st' = ?st\<lparr>sm_wl := w1, sm_queue := gq_push r1 (sm_queue st)\<rparr>"
      by (auto simp: sim_finish_def split: option.splits)
    note fs = fresh_arrival_Some [OF a]
    have "rq_le env b r1"
      using fs(3) fs(9) [OF lib(1)] fr(1,3) lib(2) assms(2) by (simp add: rq_le_def cfg mt_ok_def bs_inv_def)
    then show ?thesis using s(1) assms(2) cold fs(4) fr(3) by (auto simp: bs_inv_def st')
  qed
  with step show ?thesis by simp
qed

lemma sim_finish_pools: "sim_finish env now r st = Some st' \<Longrightarrow> bs_pools st' = bs_pools (st :: 'g BaseState)"
  by (auto simp: sim_finish_def split: prod.splits if_splits option.splits)

lemma base_retire_step:
  assumes "base_retire env z now pl st = Some (keep, holes, st')" and "bs_inv env b st" and "simenv_ok env"
    and "\<forall>q \<in> set pl. bd_ok env b q" and "z < se_Z env"
  shows "bs_inv env b st'" "pop_steps (core_pop (bs_ids pl + R) st) (core_pop (bs_ids keep + R) st')"
    "keep = filter (\<lambda>q. \<not> bd_finished q) pl" "holes = map bd_prompt (filter bd_finished pl)" "bs_pools st' = bs_pools st"
proof -
  obtain gone where r: "retire_with bd_finished (base_complete env z now) pl st = Some (keep, gone, st')" and h: "holes = map bd_prompt gone"
    using assms(1) by (auto simp: base_retire_def split: option.splits)
  let ?I = "\<lambda>s. bs_inv env b s \<and> bs_pools s = bs_pools st"
  have i: "?I st" using assms(2) by simp
  have "?I st' \<and> pop_steps (core_pop (image_mset bd_id (mset pl) + R) st) (core_pop (image_mset bd_id (mset keep) + R) st')
    \<and> keep = filter (\<lambda>q. \<not> bd_finished q) pl \<and> gone = filter bd_finished pl"
  proof (rule retire_with_steps [where I = ?I and P = core_pop and idf = bd_id, OF r i])
    fix q R and s s' :: "'a BaseState"
    assume q: "q \<in> set pl" "?I s" "base_complete env z now q s = Some s'"
    then have "bs_pools s' = bs_pools s" using sim_finish_pools by (fastforce simp: base_complete_def Let_def)
    with q base_complete_step [OF q(3) _ assms(3) _ assms(5), of b] assms(4)
    show "?I s' \<and> pop_step (core_pop (add_mset (bd_id q) R) s) (core_pop R s')" by simp
  qed
  then show "bs_inv env b st'" "pop_steps (core_pop (bs_ids pl + R) st) (core_pop (bs_ids keep + R) st')"
    "keep = filter (\<lambda>q. \<not> bd_finished q) pl" "holes = map bd_prompt (filter bd_finished pl)" "bs_pools st' = bs_pools st"
    unfolding h bs_ids_def by blast+
qed

lemma sm_same_pools: "sm_same st st' \<Longrightarrow> bs_pools st' = bs_pools (st :: 'g BaseState)"
  by (cases st; cases st') (simp add: sm_same_def)

lemma base_heal_step:
  assumes "base_heal env now it holes pl st = (pl', st')" and "bs_inv env b st" and "\<forall>q \<in> set pl. bd_ok env b q"
  shows "bs_inv env b st' \<and> pop_steps (core_pop (bs_ids pl + R) st) (core_pop (bs_ids pl' + R) st')
    \<and> (\<forall>q \<in> set pl'. bd_ok env b q) \<and> length pl' \<le> length pl + length holes \<and> bs_pools st' = bs_pools st"
  using assms
proof (induction holes arbitrary: pl st)
  case (Cons hole holes)
  obtain r q where p: "gq_pull_near (sm_queue st) (dbl hole) (se_cap_room env) = (r, q)" by fastforce
  show ?case
  proof (cases "r_id r < 0")
    case True
    with Cons.prems p bs_dry [OF p Cons.prems(2) True] show ?thesis by (auto simp: Let_def)
  next
    case False
    obtain met st1 where s: "serve_ttft env r now it (st\<lparr>sm_queue := q\<rparr>) = (met, st1)" by fastforce
    have run: "base_heal env now it holes (pl @ [bs_decoder_of r met]) st1 = (pl', st')" using Cons.prems(1) p False s by (simp add: Let_def)
    note a = bs_pull [OF p Cons.prems(2) False serve_ttft_same [OF s] cold_serve [OF _ s]]
    have d: "\<forall>q \<in> set (pl @ [bs_decoder_of r met]). bd_ok env b q" using a(2) Cons.prems(3) by auto
    note IH = Cons.IH [OF run a(1) d]
    have "pop_step (core_pop (bs_ids pl + R) st) (core_pop (bs_ids (pl @ [bs_decoder_of r met]) + R) st1)"
      using a(3) [of "bs_ids pl + R"] by simp
    with IH sm_same_pools [OF serve_ttft_same [OF s]] show ?thesis by (auto intro: converse_rtranclp_into_rtranclp)
  qed
qed simp


section \<open>Rounds\<close>

lemma bs_ids_split: "z < length xss \<Longrightarrow> bs_ids (concat (xss[z := ys])) = bs_ids ys + bs_ids (concat (xss[z := []]))"
  using concat_update_mset [of z "xss[z := []]" ys] by (simp add: bs_ids_def add.commute flip: image_mset_union)

lemma base_node_step_ok:
  assumes "base_node_step env it z (st, acc) = Some (st', acc')" and "base_ok env b st" and "simenv_ok env" and "z < se_Z env"
  shows "base_ok env b st'" "pop_steps (bs_abs st) (bs_abs st')" "length (bs_pools st' ! z) \<le> length (bs_pools st ! z)"
    "\<forall>y. y \<noteq> z \<longrightarrow> bs_pools st' ! y = bs_pools st ! y"
proof -
  obtain used st1 where c: "base_compose env it (bs_pools st ! z) st = (used, st1)" by fastforce
  let ?pl1 = "base_advance used (bs_pools st1 ! z)"
  from assms(1) c obtain keep holes st2 where r: "base_retire env z it ?pl1 st1 = Some (keep, holes, st2)"
    by (auto simp: base_node_step_def split: option.splits)
  obtain pl st3 where h: "base_heal env it it holes keep st2 = (pl, st3)" by fastforce
  have st': "st' = st3\<lparr>bs_pools := (bs_pools st3)[z := pl]\<rparr>"
    using assms(1) c r h by (simp add: base_node_step_def)
  have inv: "bs_inv env b st" and dec: "\<forall>q \<in> set (concat (bs_pools st)). bd_ok env b q" and len: "length (bs_pools st) = se_Z env"
    using assms(2) by (simp_all add: base_ok_def)
  have z: "z < length (bs_pools st)" using len assms(4) by simp
  have dz: "\<forall>q \<in> set (bs_pools st ! z). bd_ok env b q" using dec nth_mem [OF z] by auto
  note cc = base_compose_step [OF c inv]
  note aa = base_advance_step [where used = used and pl = "bs_pools st1 ! z"]
  have d1: "\<forall>q \<in> set ?pl1. bd_ok env b q" using aa(3) dz cc(3) by simp
  note rr = base_retire_step [OF r cc(1) assms(3) d1 assms(4)]
  have dk: "\<forall>q \<in> set keep. bd_ok env b q" using rr(3) d1 by simp
  let ?R = "bs_ids (concat ((bs_pools st)[z := []]))"
  have hh: "bs_inv env b st3 \<and> pop_steps (core_pop (bs_ids keep + ?R) st2) (core_pop (bs_ids pl + ?R) st3)
    \<and> (\<forall>q \<in> set pl. bd_ok env b q) \<and> length pl \<le> length keep + length holes \<and> bs_pools st3 = bs_pools st2"
    by (rule base_heal_step [OF h rr(1) dk])
  have pools: "bs_pools st' = (bs_pools st)[z := pl]" using st' hh rr(5) cc(3) by simp
  have "\<forall>q \<in> set (concat (bs_pools st')). bd_ok env b q" using hh dec unfolding pools by (metis in_concat_update)
  then show "base_ok env b st'" using hh len by (simp add: base_ok_def pools) (simp add: st')
  have "pop_steps (core_pop (bs_ids ?pl1 + ?R) st1) (core_pop (bs_ids pl + ?R) st3)"
    using rtranclp_trans [OF rr(2) [of ?R]] hh by blast
  moreover have "bs_abs st = core_pop (bs_ids ?pl1 + ?R) st1"
    using bs_ids_split [OF z, of "bs_pools st ! z"] cc(2,3) aa(2) by (simp add: bs_abs_def)
  moreover have "bs_abs st' = core_pop (bs_ids pl + ?R) st3"
    using bs_ids_split [OF z, of pl] by (simp add: bs_abs_def pools) (simp add: st')
  ultimately show "pop_steps (bs_abs st) (bs_abs st')" by simp
  have "length keep + length holes = length ?pl1" using rr(3,4) by (simp add: sum_length_filter_compl add.commute)
  then show "length (bs_pools st' ! z) \<le> length (bs_pools st ! z)" using hh aa(1) cc(3) z by (simp add: pools)
  show "\<forall>y. y \<noteq> z \<longrightarrow> bs_pools st' ! y = bs_pools st ! y" by (simp add: pools)
qed

lemma base_nodes_ok:
  assumes "base_nodes env it zs (st, acc) = Some (st', acc')" and "base_ok env b st" and "simenv_ok env" and "\<forall>z \<in> set zs. z < se_Z env"
  shows "base_ok env b st' \<and> pop_steps (bs_abs st) (bs_abs st')"
  using assms(1,2,4)
proof (induction zs arbitrary: st acc)
  case (Cons z zs)
  from Cons.prems(1) obtain st1 acc1 where s: "base_node_step env it z (st, acc) = Some (st1, acc1)"
    and r: "base_nodes env it zs (st1, acc1) = Some (st', acc')"
    by (auto split: option.splits)
  have z: "z < se_Z env" "\<forall>z \<in> set zs. z < se_Z env" using Cons.prems(3) by simp_all
  note n = base_node_step_ok [OF s Cons.prems(2) assms(3) z(1)]
  from Cons.IH [OF r n(1) z(2)] n(2) show ?case by (meson rtranclp_trans)
qed simp

text \<open>Between rounds the bound holds of the returns too; in a round it grows.\<close>

definition base_between :: "'g SimEnv \<Rightarrow> int \<Rightarrow> 'g BaseState \<Rightarrow> bool" where
  "base_between env b st \<longleftrightarrow> base_ok env b st \<and> (\<forall>x \<in> set (by_round (sm_pend st)). rq_le env b (snd x))"

lemma base_ok_between: "base_ok env b st \<Longrightarrow> simenv_ok env \<Longrightarrow> base_between env (b + growth env) st"
  using growth_nonneg [of env] bs_inv_mono [of env b _ "b + growth env"] bd_ok_mono [of env b _ "b + growth env"]
  by (auto simp: base_between_def base_ok_def bs_inv_def)

lemma sim_arrivals_cold: "cold st \<Longrightarrow> cold (sim_arrivals now st)"
proof -
  assume "cold st"
  then have "cold (st\<lparr>sm_cache := evict_tick now (sm_cache st)\<rparr>)" by (rule cold_evict)
  then show ?thesis by (simp add: sim_arrivals_def Let_def cold_def split: prod.splits)
qed

lemma sim_arrivals_pools: "bs_pools (sim_arrivals now st) = bs_pools (st :: 'g BaseState)"
  by (simp add: sim_arrivals_def Let_def split: prod.splits)

lemma base_arrivals:
  assumes "base_between env b st" and "simenv_ok env"
  shows "base_ok env b (sim_arrivals now st)" "pop_steps (bs_abs st) (bs_abs (sim_arrivals now st))"
proof -
  have ok: "core_ok env st" using assms(1) by (simp add: base_between_def base_ok_def bs_inv_def)
  note a = sim_arrivals_step [OF ok, where now = now]
  have "bs_inv env b (sim_arrivals now st)"
    using a(1,4,5,6) assms sim_arrivals_cold [of st now] growth_nonneg [OF assms(2)]
    by (force simp: base_between_def base_ok_def bs_inv_def)
  then show "base_ok env b (sim_arrivals now st)"
    using assms(1) by (simp add: base_between_def base_ok_def sim_arrivals_pools)
  show "pop_steps (bs_abs st) (bs_abs (sim_arrivals now st))" using a(2) by (simp add: bs_abs_def sim_arrivals_pools)
qed

lemma base_round_ok:
  assumes "base_round env it st = Some st'" and "base_between env b st" and "simenv_ok env"
  shows "base_between env (b + growth env) st'" "pop_steps (bs_abs st) (bs_abs st')"
proof -
  let ?acc = "\<lparr>pa_resid = [dlit 0, dlit 0, dlit 0], pa_mean = dlit 0, pa_nodes = 0\<rparr>"
  from assms(1) obtain st2 acc where n: "base_nodes env it [0..<se_Z env] (sim_arrivals it st, ?acc) = Some (st2, acc)"
    and st': "st' = (if se_warm env \<le> it \<and> 0 < pa_nodes acc
                then st2\<lparr>sm_m := record_pool (pa_mean acc / dbl (pa_nodes acc))
                       (map (\<lambda>c. pa_resid acc ! c / dbl (pa_nodes acc)) [0..<3]) (sm_m st2)\<rparr> else st2)"
    by (auto simp: base_round_def split: option.splits)
  note a = base_arrivals [OF assms(2,3), of it]
  have z: "\<forall>z \<in> set [0..<se_Z env]. z < se_Z env" by simp
  note b = base_nodes_ok [OF n a(1) assms(3) z]
  have "base_ok env b st'"
    using b by (auto simp: st' base_ok_def bs_inv_def core_ok_def core_counters_def cold_def record_pool_def metrics_inv_def)
  then show "base_between env (b + growth env) st'" by (rule base_ok_between [OF _ assms(3)])
  have "bs_abs st' = bs_abs st2" by (simp add: st' bs_abs_def core_pop_def)
  then show "pop_steps (bs_abs st) (bs_abs st')" using rtranclp_trans [OF a(2)] b by simp
qed

lemma base_loop_ok:
  assumes "base_loop env n it st = Some st'" and "base_between env b st" and "simenv_ok env"
  shows "base_between env (b + int n * growth env) st' \<and> pop_steps (bs_abs st) (bs_abs st')"
  using assms(1,2)
proof (induction n arbitrary: it st b)
  case (Suc n)
  from Suc.prems(1) obtain st1 where r: "base_round env it st = Some st1" "base_loop env n (it + 1) st1 = Some st'"
    by (auto split: option.splits)
  note a = base_round_ok [OF r(1) Suc.prems(2) assms(3)]
  have "b + growth env + int n * growth env = b + int (Suc n) * growth env" by (simp add: algebra_simps)
  with Suc.IH [OF r(2) a(1)] a(2) show ?case by (metis rtranclp_trans)
qed simp

section \<open>The start\<close>

text \<open>No sampled length exceeds \<open>b\<close>.\<close>

definition draws_le :: "'g Lib \<Rightarrow> int \<Rightarrow> bool" where
  "draws_le lib b \<longleftrightarrow> (\<forall>g. fst (sample_distribution_b lib g) \<le> b)"

lemma base_admit_step:
  fixes st st' :: "'g BaseState"
  assumes "base_admit_ttft env q 0 0 st = (met, st')" and "bs_inv env b st"
  shows "bs_inv env b st'" "core_pop R st' = core_pop R st" "bs_pools st' = bs_pools st"
  using bs_inv_same [OF assms(2) base_admit_ttft_same [OF assms(1)]] sm_same_pop [OF base_admit_ttft_same(1) [OF assms(1)]]
    sm_same_pools [OF base_admit_ttft_same(1) [OF assms(1)]] by simp_all

lemma base_cold_admit_step:
  assumes "base_cold_admit env lens rng dec_id pl st = (pl', rng', dec_id', st')" and "bs_inv env b st" and "simenv_ok env"
    and "\<forall>q \<in> set pl. bd_ok env b q" and "\<forall>x \<in> set lens. 0 \<le> x \<and> x \<le> b" and "0 \<le> dec_id"
  shows "bs_inv env b st' \<and> (\<forall>q \<in> set pl'. bd_ok env b q) \<and> dec_id' = dec_id + int (length lens)
    \<and> length pl' = length pl + length lens \<and> bs_pools st' = bs_pools st \<and> (\<forall>R. core_pop R st' = core_pop R st)"
  using assms(1,2,4-6)
proof (induction lens arbitrary: rng dec_id pl st)
  case (Cons prompt lens)
  obtain dtot rng1 where i: "lib_int (se_lib env) (dtot_lo (se_mt env)) (dtot_hi (se_mt env)) rng = (dtot, rng1)" by fastforce
  let ?q = "\<lparr>bd_id = dec_id, bd_prompt = prompt, bd_max_tokens = dtot, bd_dec = 0, bd_wait = 0, bd_turn = 0,
                   bd_cached_prefix = 0, bd_met_ttft = False\<rparr>"
  obtain met st1 where a: "base_admit_ttft env ?q 0 0 st = (met, st1)" by fastforce
  have run: "base_cold_admit env lens rng1 (dec_id + 1) (pl @ [?q\<lparr>bd_met_ttft := met\<rparr>]) st1 = (pl', rng', dec_id', st')"
    using Cons.prems(1) i a by (simp add: Let_def base_admit_def)
  have "lib_ok (se_lib env)" "0 \<le> dtot_lo (se_mt env)" "dtot_lo (se_mt env) \<le> dtot_hi (se_mt env)"
    using assms(3) by (simp_all add: sim_ok_def mt_ok_def)
  then have "0 \<le> dtot" "dtot \<le> dtot_hi (se_mt env)" using lib_int_range [OF _ i] by fastforce+
  then have "\<forall>x \<in> set (pl @ [?q\<lparr>bd_met_ttft := met\<rparr>]). bd_ok env b x" using Cons.prems(3-5) by (simp add: bd_ok_def)
  moreover have "\<forall>x \<in> set lens. 0 \<le> x \<and> x \<le> b" "0 \<le> dec_id + 1" using Cons.prems(4,5) by simp_all
  moreover note s = base_admit_step [OF a Cons.prems(2)]
  ultimately have "bs_inv env b st' \<and> (\<forall>q \<in> set pl'. bd_ok env b q) \<and> dec_id' = dec_id + 1 + int (length lens)
    \<and> length pl' = length (pl @ [?q\<lparr>bd_met_ttft := met\<rparr>]) + length lens \<and> bs_pools st' = bs_pools st1
    \<and> (\<forall>R. core_pop R st' = core_pop R st1)"
    using Cons.IH [OF run s(1)] by blast
  with s show ?case by simp
qed simp

lemma base_top_up_step:
  assumes "base_top_up env rng pl st = (pl', rng', st')" and "bs_inv env b st" and "\<forall>q \<in> set pl. bd_ok env b q"
  shows "bs_inv env b st' \<and> (\<forall>q \<in> set pl'. bd_ok env b q) \<and> bs_pools st' = bs_pools st
    \<and> int (length pl') \<le> max (int (length pl)) (decode_pool (se_op env))"
  using assms
proof (induction env rng pl st rule: base_top_up.induct)
  case (1 env rng pl st)
  show ?case
  proof (cases "int (length pl) < decode_pool (se_op env)")
    case False
    with 1(2-) show ?thesis by (simp add: base_top_up.simps [of env rng pl st])
  next
    case True
    obtain hole rng1 where h: "base_hole env pl rng = (hole, rng1)" by fastforce
    obtain r q where p: "gq_pull_near (sm_queue st) (dbl hole) (se_cap_room env) = (r, q)" by fastforce
    show ?thesis
    proof (cases "r_id r < 0")
      case neg: True
      with 1(2) True h p have "pl' = pl" "st' = st\<lparr>sm_queue := q\<rparr>"
        by (simp_all add: base_top_up.simps [of env rng pl st] Let_def)
      with bs_dry [OF p 1(3) neg] 1(4) show ?thesis by simp
    next
      case False
      obtain met st1 where a: "base_admit_ttft env (bs_decoder_of r False) 0 0 (st\<lparr>sm_queue := q\<rparr>) = (met, st1)" by fastforce
      have run: "base_top_up env rng1 (pl @ [bs_decoder_of r met]) st1 = (pl', rng', st')"
        using 1(2) True h p False a by (simp add: base_top_up.simps [of env rng pl st] Let_def)
      note s = bs_pull [OF p 1(3) False base_admit_ttft_same [OF a]]
      have "\<forall>x \<in> set (pl @ [bs_decoder_of r met]). bd_ok env b x" using 1(4) s(2) by auto
      from 1(1) [OF True h [symmetric] p [symmetric] refl False a [symmetric] run s(1) this] True
        sm_same_pools [OF base_admit_ttft_same(1) [OF a]]
      show ?thesis by auto
    qed
  qed
qed

lemma base_cold_node_step:
  assumes "base_cold_node env cnodes z (rng, dec_id, st) = (rng', dec_id', st')" and "base_ok env b st" and "simenv_ok env"
    and "\<forall>x \<in> set (cn_lengths (cnodes ! z)). 0 \<le> x \<and> x \<le> b" and "0 \<le> dec_id" and "z < se_Z env"
  shows "base_ok env b st' \<and> dec_id \<le> dec_id'"
proof -
  let ?lens = "take (nat (min (int (length (cn_lengths (cnodes ! z)))) (decode_pool (se_op env)))) (cn_lengths (cnodes ! z))"
  from assms(1) obtain pl1 rng1 st1 pl st2 where a: "base_cold_admit env ?lens rng dec_id (bs_pools st ! z) st = (pl1, rng1, dec_id', st1)"
    and t: "base_top_up env rng1 pl1 st1 = (pl, rng', st2)" and st': "st' = st2\<lparr>bs_pools := (bs_pools st2)[z := pl]\<rparr>"
    by (auto simp: base_cold_node_def Let_def split: prod.splits)
  have inv: "bs_inv env b st" and dec: "\<forall>q \<in> set (concat (bs_pools st)). bd_ok env b q" and len: "length (bs_pools st) = se_Z env"
    using assms(2) by (simp_all add: base_ok_def)
  have z: "z < length (bs_pools st)" using len assms(6) by simp
  have dz: "\<forall>q \<in> set (bs_pools st ! z). bd_ok env b q" using dec nth_mem [OF z] by auto
  have lens: "\<forall>x \<in> set ?lens. 0 \<le> x \<and> x \<le> b" using assms(4) by (meson in_set_takeD)
  note ca = base_cold_admit_step [OF a inv assms(3) dz lens assms(5)]
  have t1: "bs_inv env b st1" "\<forall>q \<in> set pl1. bd_ok env b q" using ca by blast+
  note tu = base_top_up_step [OF t t1]
  have pools: "bs_pools st' = (bs_pools st)[z := pl]" using st' ca tu by simp
  have "\<forall>q \<in> set (concat (bs_pools st')). bd_ok env b q" using tu dec unfolding pools by (metis in_concat_update)
  then show ?thesis using tu ca len by (simp add: base_ok_def pools) (simp add: st')
qed

lemma base_cold_fold:
  assumes "fold (base_cold_node env cnodes) zs (rng, dec_id, st) = (rng', dec_id', st')" and "base_ok env b st" and "simenv_ok env"
    and "\<forall>z \<in> set zs. \<forall>x \<in> set (cn_lengths (cnodes ! z)). 0 \<le> x \<and> x \<le> b" and "0 \<le> dec_id" and "\<forall>z \<in> set zs. z < se_Z env"
  shows "base_ok env b st'"
  using assms(1,2,4-6)
proof (induction zs arbitrary: rng dec_id st)
  case (Cons z zs)
  obtain rng1 dec1 st1 where n: "base_cold_node env cnodes z (rng, dec_id, st) = (rng1, dec1, st1)" using prod_cases3 by blast
  have s: "base_ok env b st1 \<and> dec_id \<le> dec1"
    by (rule base_cold_node_step [OF n Cons.prems(2) assms(3)]) (use Cons.prems in auto)
  have run: "fold (base_cold_node env cnodes) zs (rng1, dec1, st1) = (rng', dec_id', st')" using Cons.prems(1) n by simp
  show ?case by (rule Cons.IH [OF run]) (use s Cons.prems in auto)
qed simp

lemma seed_queue_bound:
  assumes "seed_queue lib n w q = Some (q', w')" and "lib_ok lib" and "dtot_lo (mt_cfg w) \<le> dtot_hi (mt_cfg w)"
    and "\<forall>r \<in> set (gq_q q). r_prompt r \<le> mt_edge_cutoff w \<and> r_max_tokens r \<le> dtot_hi (mt_cfg w)"
  shows "\<forall>r \<in> set (gq_q q'). r_prompt r \<le> mt_edge_cutoff w \<and> r_max_tokens r \<le> dtot_hi (mt_cfg w)"
  using assms(1,3,4)
proof (induction n arbitrary: w q)
  case (Suc n)
  then obtain r w1 where r: "fresh_arrival lib 0 w = Some (r, w1)" "seed_queue lib n w1 (gq_push r q) = Some (q', w')"
    by (auto split: option.splits)
  note f = fresh_arrival_Some [OF r(1)]
  from Suc.IH [OF r(2)] Suc.prems(2,3) f(3) f(9) [OF assms(2) Suc.prems(2)] f(4,5) show ?case by simp
qed simp

lemma base_state_ok:
  assumes "simenv_ok env" and "0 \<le> node_cache_capacity_bytes (se_op env)" and "0 \<le> kv_bytes_per_token (d_model (se_d env))" and "cutoff \<le> b"
  shows "base_between env b (base_state env a cfg cutoff)"
  using assms cache_inv_make [OF assms(2,3)]
  by (simp add: base_between_def base_ok_def bs_inv_def base_state_def core_ok_def core_counters_def cold_def make_mt_def make_queue_def
      pending_ok_def make_metrics_def metrics_inv_def make_kpi_def kpi_inv_def concat_replicate_trivial) (simp add: make_cache_def)

end
