(* ===== verification/Baseline_Props.thy ===== *)
theory Baseline_Props
  imports Baseline_Correct
begin

text \<open>The properties of the baseline driver, from the step lemmas of \<open>Baseline_Correct\<close>.\<close>

section \<open>Runs\<close>

definition base_valid :: "'g SimEnv \<Rightarrow> bool" where
  "base_valid env \<longleftrightarrow> simenv_ok env \<and> 0 \<le> node_cache_capacity_bytes (se_op env) \<and> 0 \<le> kv_bytes_per_token (d_model (se_d env))"

lemma base_init_ok:
  assumes "base_init env backlog st = Some st'" and "base_ok env b st" and "simenv_ok env" and "draws_le (se_lib env) b"
    and "gq_q (sm_queue st) = []"
  shows "base_ok env b st'"
proof -
  let ?n = "nat (backlog + 2 * int (se_Z env))"
  obtain q w where s: "seed_queue (se_lib env) ?n (sm_wl st) (sm_queue st) = Some (q, w)"
    and c: "st' = base_cold_start env (st\<lparr>sm_queue := q, sm_wl := w\<rparr>)"
    using assms(1) by (auto simp: base_init_def split: option.splits)
  have inv: "bs_inv env b st" using assms(2) by (simp add: base_ok_def)
  then have core: "core_ok env st" and cut: "mt_edge_cutoff (sm_wl st) \<le> b" by (simp_all add: bs_inv_def)
  have cfg: "mt_cfg (sm_wl st) = se_mt env" "0 \<le> mt_next_id (sm_wl st)" using core by (simp_all add: core_ok_def)
  have lib: "lib_ok (se_lib env)" "dtot_lo (mt_cfg (sm_wl st)) \<le> dtot_hi (mt_cfg (sm_wl st))"
    using assms(3) by (simp_all add: sim_ok_def mt_ok_def cfg)
  have r: "\<forall>r \<in> set (gq_q q). rq_ok r" using seed_queue_ok [OF s assms(3) cfg] assms(5) by simp
  have l: "\<forall>r \<in> set (gq_q q). rq_le env b r"
    using seed_queue_bound [OF s lib] assms(5) cut by (force simp: rq_le_def cfg)
  let ?st = "st\<lparr>sm_queue := q, sm_wl := w\<rparr>"
  have "mt_next_id w = mt_next_id (sm_wl st) + int ?n" "mt_cfg w = se_mt env" "mt_edge_cutoff w = mt_edge_cutoff (sm_wl st)"
    using seed_queue_result [OF s] cfg by auto
  then have "base_ok env b ?st" using assms(2) r l cfg by (simp add: base_ok_def bs_inv_def core_ok_def core_counters_def cold_def)
  let ?nd = "nat (int (se_Z env) * decode_pool (se_op env) * 2)" and ?g = "lib_seed (se_lib env) (se_seed env)"
  obtain draw rng where d: "draw_list (se_lib env) ?nd ?g = (draw, rng)" by fastforce
  let ?cn = "fst (cold_start (lib_shuffle (se_lib env)) (kept (gate draw (se_op env)))
      (replicate (se_Z env) \<lparr>cn_lengths = [], cn_total = 0\<rparr>) (se_op env) (se_seed env))"
  obtain rng' dec' st'' where f: "fold (base_cold_node env ?cn) [0..<se_Z env] (rng, 0, ?st) = (rng', dec', st'')" using prod_cases3 by blast
  have "st' = st''" using c f by (simp add: base_cold_start_def d Let_def)
  moreover have "\<forall>z \<in> set [0..<se_Z env]. \<forall>x \<in> set (cn_lengths (?cn ! z)). 0 \<le> x \<and> x \<le> b"
  proof (intro ballI)
    fix z x assume "z \<in> set [0..<se_Z env]" "x \<in> set (cn_lengths (?cn ! z))"
    then obtain g' where "x = fst (sample_distribution_b (se_lib env) g')"
      using cold_lengths_sampled [OF assms(3), where cnodes = ?cn and n = ?nd and g = ?g and op = "se_op env"
          and Z = "se_Z env" and seed = "se_seed env" and z = z] d by auto
    then show "0 \<le> x \<and> x \<le> b" using assms(3,4) by (auto simp: sim_ok_def lengths_ok_def draws_le_def)
  qed
  moreover have "\<forall>z \<in> set [0..<se_Z env]. z < se_Z env" by simp
  ultimately show ?thesis using base_cold_fold [OF f \<open>base_ok env b ?st\<close> assms(3)] by simp
qed

lemma base_run_ok:
  assumes "base_run env a cfg cutoff backlog n = Some st" and "base_valid env" and "draws_le (se_lib env) b" and "cutoff \<le> b"
  shows "base_between env (b + (1 + int n) * growth env) st"
proof -
  have e: "simenv_ok env" using assms(2) by (simp add: base_valid_def)
  obtain st0 where i: "base_init env backlog (base_state env a cfg cutoff) = Some st0" and l: "base_loop env n 0 st0 = Some st"
    using assms(1) by (auto simp: base_run_def split: option.splits)
  have b: "base_ok env b (base_state env a cfg cutoff)"
    using base_state_ok [of env cutoff b a cfg] assms(2,4) by (simp add: base_valid_def base_between_def)
  have "gq_q (sm_queue (base_state env a cfg cutoff)) = []" by (simp add: base_state_def make_queue_def)
  then have "base_between env (b + growth env) st0" by (intro base_ok_between base_init_ok [OF i b e assms(3)] e)
  from base_loop_ok [OF l this e] show ?thesis by (simp add: algebra_simps)
qed

section \<open>Returning\<close>

abbreviation base_cut :: "'g SimEnv \<Rightarrow> 'g BaseState \<Rightarrow> bool" where
  "base_cut env st \<equiv> cutoff_ok (se_lib env) (mt_edge_cutoff (sm_wl st))"

lemma base_retire_returns:
  assumes "base_cut env st" shows "\<exists>keep holes st'. base_retire env z now pl st = Some (keep, holes, st') \<and> base_cut env st'"
proof -
  have "\<exists>keep gone st'. retire_with bd_finished (base_complete env z now) pl st = Some (keep, gone, st') \<and> base_cut env st'"
  proof (rule retire_with_returns [where I = "base_cut env", OF assms])
    fix q and s :: "'a BaseState" assume "base_cut env s"
    then show "\<exists>st'. base_complete env z now q s = Some st' \<and> base_cut env st'"
      using sim_finish_returns [of env "s\<lparr>sm_cache := on_complete z (bd_id q) (bd_prompt q) now (sm_cache s)\<rparr>"]
      by (fastforce simp: base_complete_def Let_def)
  qed
  then show ?thesis by (auto simp: base_retire_def)
qed

lemma sm_same_wl: "sm_same st st' \<Longrightarrow> sm_wl st' = sm_wl st"
  by (simp add: sm_same_def)

lemma base_heal_wl: "base_heal env now it holes pl st = (pl', st') \<Longrightarrow> sm_wl st' = sm_wl st"
proof (induction holes arbitrary: pl st)
  case (Cons h hs)
  obtain r q where p: "gq_pull_near (sm_queue st) (dbl h) (se_cap_room env) = (r, q)" by fastforce
  obtain met s1 where a: "serve_ttft env r now it (st\<lparr>sm_queue := q\<rparr>) = (met, s1)" by fastforce
  from Cons.IH [of "pl @ [bs_decoder_of r met]" s1] Cons.prems p a sm_same_wl [OF serve_ttft_same [OF a]]
  show ?case by (auto simp: Let_def split: if_splits)
qed simp

lemma base_node_step_returns: "base_cut env st \<Longrightarrow> \<exists>st' acc'. base_node_step env it z (st, acc) = Some (st', acc') \<and> base_cut env st'"
proof -
  assume cut: "base_cut env st"
  obtain used st1 where c: "base_compose env it (bs_pools st ! z) st = (used, st1)" by fastforce
  have "sm_wl st1 = sm_wl st"
    using c by (auto simp: base_compose_def base_record_mb_def sim_record_mb_def Let_def split: prod.splits option.splits)
  with cut have "base_cut env st1" by simp
  from base_retire_returns [OF this, of z it "base_advance used (bs_pools st1 ! z)"] obtain keep holes st2 where
    r: "base_retire env z it (base_advance used (bs_pools st1 ! z)) st1 = Some (keep, holes, st2)" "base_cut env st2" by blast
  obtain pl st3 where h: "base_heal env it it holes keep st2 = (pl, st3)" by fastforce
  from c r(1) h base_heal_wl [OF h] r(2) show ?thesis by (simp add: base_node_step_def)
qed

lemma base_nodes_returns: "base_cut env st \<Longrightarrow> \<exists>st' acc'. base_nodes env it zs (st, acc) = Some (st', acc') \<and> base_cut env st'"
proof (induction zs arbitrary: st acc)
  case (Cons z zs)
  obtain st1 acc1 where s: "base_node_step env it z (st, acc) = Some (st1, acc1)" "base_cut env st1"
    using base_node_step_returns [OF Cons.prems] by blast
  from Cons.IH [OF s(2), of acc1] s(1) show ?case by auto
qed simp

lemma base_round_returns: "base_cut env st \<Longrightarrow> \<exists>st'. base_round env it st = Some st' \<and> base_cut env st'"
proof -
  assume "base_cut env st"
  then have "base_cut env (sim_arrivals it st)" by (simp add: sim_arrivals_def Let_def split: prod.split)
  from base_nodes_returns [OF this, of it "[0..<se_Z env]" "\<lparr>pa_resid = [dlit 0, dlit 0, dlit 0], pa_mean = dlit 0, pa_nodes = 0\<rparr>"]
  show ?thesis by (auto simp: base_round_def)
qed

lemma base_loop_returns: "base_cut env st \<Longrightarrow> \<exists>st'. base_loop env n it st = Some st' \<and> base_cut env st'"
proof (induction n arbitrary: it st)
  case (Suc n)
  obtain st1 where "base_round env it st = Some st1" "base_cut env st1" using base_round_returns [OF Suc.prems] by blast
  with Suc.IH [of st1 "it + 1"] show ?case by simp
qed simp

lemma base_admit_ttft_wl: "base_admit_ttft env q now it st = (met, st') \<Longrightarrow> sm_wl st' = sm_wl st"
  using sm_same_wl [OF base_admit_ttft_same(1)] by blast

lemma base_top_up_wl: "base_top_up env rng pl st = (pl', rng', st') \<Longrightarrow> sm_wl st' = sm_wl st"
proof (induction env rng pl st rule: base_top_up.induct)
  case (1 env rng pl st)
  obtain hole rng1 where h: "base_hole env pl rng = (hole, rng1)" by fastforce
  obtain r q where p: "gq_pull_near (sm_queue st) (dbl hole) (se_cap_room env) = (r, q)" by fastforce
  obtain met st1 where a: "base_admit_ttft env (bs_decoder_of r False) 0 0 (st\<lparr>sm_queue := q\<rparr>) = (met, st1)" by fastforce
  show ?case
  proof (cases "int (length pl) < decode_pool (se_op env) \<and> \<not> r_id r < 0")
    case True
    then have "base_top_up env rng1 (pl @ [bs_decoder_of r met]) st1 = (pl', rng', st')"
      using 1(2) h p a by (simp add: base_top_up.simps [of env rng pl st] Let_def)
    from 1(1) [OF _ h [symmetric] p [symmetric] refl _ a [symmetric] this] True base_admit_ttft_wl [OF a]
    show ?thesis by simp
  next
    case False
    with 1(2) h p show ?thesis by (auto simp: base_top_up.simps [of env rng pl st] Let_def split: if_splits)
  qed
qed

lemma base_cold_admit_wl: "base_cold_admit env lens rng i pl st = (pl', rng', i', st') \<Longrightarrow> sm_wl st' = sm_wl st"
proof (induction lens arbitrary: rng i pl st)
  case (Cons l lens)
  obtain d rng1 where d: "lib_int (se_lib env) (dtot_lo (se_mt env)) (dtot_hi (se_mt env)) rng = (d, rng1)" by fastforce
  let ?q = "\<lparr>bd_id = i, bd_prompt = l, bd_max_tokens = d, bd_dec = 0, bd_wait = 0, bd_turn = 0,
                   bd_cached_prefix = 0, bd_met_ttft = False\<rparr>"
  obtain met st1 where a: "base_admit_ttft env ?q 0 0 st = (met, st1)" by fastforce
  from Cons.IH [of rng1 "i + 1" "pl @ [?q\<lparr>bd_met_ttft := met\<rparr>]" st1] Cons.prems d a base_admit_ttft_wl [OF a]
  show ?case by (simp add: Let_def base_admit_def)
qed simp

lemma base_cold_fold_wl: "fold (base_cold_node env cn) zs (rng, i, st) = (rng', i', st') \<Longrightarrow> sm_wl st' = sm_wl st"
proof (induction zs arbitrary: rng i st)
  case (Cons z zs)
  obtain rng1 i1 st1 where n: "base_cold_node env cn z (rng, i, st) = (rng1, i1, st1)" using prod_cases3 by blast
  have "sm_wl st1 = sm_wl st"
    using n base_cold_admit_wl base_top_up_wl by (fastforce simp: base_cold_node_def Let_def split: prod.splits)
  with Cons.IH [of rng1 i1 st1] Cons.prems n show ?case by simp
qed simp

lemma base_run_some:
  assumes "cutoff_ok (se_lib env) cutoff" shows "\<exists>st. base_run env a cfg cutoff backlog n = Some st \<and> base_cut env st"
proof -
  let ?st = "base_state env a cfg cutoff"
  have "mt_edge_cutoff (sm_wl ?st) = cutoff" by (simp add: base_state_def make_mt_def)
  then have "base_cut env ?st" using assms by simp
  from seed_queue_returns [OF this, of "nat (backlog + 2 * int (se_Z env))" "sm_queue ?st"] obtain q w where
    s: "seed_queue (se_lib env) (nat (backlog + 2 * int (se_Z env))) (sm_wl ?st) (sm_queue ?st) = Some (q, w)" by blast
  let ?st1 = "?st\<lparr>sm_queue := q, sm_wl := w\<rparr>"
  have w: "mt_edge_cutoff w = cutoff" using seed_queue_result [OF s] by (auto simp: base_state_def make_mt_def)
  obtain draw rng where d: "draw_list (se_lib env) (nat (int (se_Z env) * decode_pool (se_op env) * 2))
      (lib_seed (se_lib env) (se_seed env)) = (draw, rng)" by fastforce
  let ?cn = "fst (cold_start (lib_shuffle (se_lib env)) (kept (gate draw (se_op env)))
      (replicate (se_Z env) \<lparr>cn_lengths = [], cn_total = 0\<rparr>) (se_op env) (se_seed env))"
  obtain rng' i' st0 where f: "fold (base_cold_node env ?cn) [0..<se_Z env] (rng, 0, ?st1) = (rng', i', st0)" using prod_cases3 by blast
  have i: "base_init env backlog ?st = Some st0" using s f by (simp add: base_init_def base_cold_start_def d Let_def)
  have "base_cut env st0" using base_cold_fold_wl [OF f] w assms by simp
  from base_loop_returns [OF this] i show ?thesis by (simp add: base_run_def)
qed

section \<open>Properties\<close>

lemma demo_base_valid: "base_valid demo_sim"
proof -
  have "0 \<le> node_cache_capacity_bytes demo_op \<and> 0 \<le> kv_bytes_per_token (d_model (small_deployment\<lparr>d_op := demo_op\<rparr>))" by code_simp
  then show ?thesis using demo_sim_ok by (simp add: base_valid_def) (simp add: demo_sim_def)
qed

lemma demo_sim_draws: "draws_le (se_lib demo_sim) 1000000"
  by (simp add: draws_le_def demo_sim_def toy_range)

lemma demo_base_run: "\<exists>st. base_run demo_sim demo_args default_sim 100000 2 n = Some st \<and> base_cut demo_sim st
    \<and> base_between demo_sim (1000000 + (1 + int n) * growth demo_sim) st"
proof -
  have "cutoff_ok (se_lib demo_sim) 100000" by (simp add: demo_sim_def toy_cutoff)
  from base_run_some [OF this] obtain st where r: "base_run demo_sim demo_args default_sim 100000 2 n = Some st" "base_cut demo_sim st" by blast
  with base_run_ok [OF r(1) demo_base_valid demo_sim_draws] show ?thesis by simp
qed

text \<open>C16: Refinement: a round of the baseline driver is a sequence of steps of the abstract cluster, without
  lines, and keeps the state well formed: requests and decoders valid, the cache accounts exact, the
  store of returns ordered and the counters consistent.\<close>
theorem base_round_refines:
  assumes "base_round env it st = Some st'" and "base_between env b st" and "simenv_ok env"
  shows "pop_steps (bs_abs st) (bs_abs st') \<and> base_between env (b + growth env) st'"
  using base_round_ok [OF assms] by blast

theorem base_round_refines_witness:
  "\<exists>st st'. base_run demo_sim demo_args default_sim 100000 2 3 = Some st \<and> base_round demo_sim 3 st = Some st'
     \<and> pop_steps (bs_abs st) (bs_abs st')"
proof -
  obtain st where st: "base_run demo_sim demo_args default_sim 100000 2 3 = Some st"
    "base_between demo_sim (1000000 + (1 + int 3) * growth demo_sim) st" "base_cut demo_sim st" using demo_base_run [of 3] by blast
  obtain st' where r: "base_round demo_sim 3 st = Some st'" using base_round_returns [OF st(3)] by blast
  from base_round_refines [OF r st(2) demo_sim_ok] st(1) r show ?thesis by blast
qed

text \<open>C17: Nothing is ever cached: as long as the contexts fit an \<open>int\<close>, no node of the baseline holds a byte of cache,
  no lookup is a hit, and every recorded return was a reload or a full recomputation. The contexts
  fit as long as the run is not so long that the growth of every turn adds up to \<open>INT_MAX\<close>.\<close>
theorem base_never_hits:
  assumes "base_run env a cfg cutoff backlog n = Some st" and "base_valid env" and "draws_le (se_lib env) b" and "cutoff \<le> b"
    and "b + (1 + int n) * growth env \<le> int_max"
  shows "m_hbm_hit (sm_m st) = 0 \<and> m_returns (sm_m st) = m_ssd_reload (sm_m st) + m_recompute (sm_m st)
    \<and> (\<forall>z < se_Z env. node_used (sm_cache st) ! z = 0) \<and> l_result (cache_peek i (sm_cache st)) \<noteq> Hit"
proof -
  have "base_between env (b + (1 + int n) * growth env) st" by (rule base_run_ok [OF assms(1-4)])
  then have inv: "core_ok env st" and c: "cold st" using assms(5) by (simp_all add: base_between_def base_ok_def bs_inv_def)
  have tier: "\<forall>x \<in> set (cc_idx (sm_cache st)). e_tier (snd x) \<noteq> HBM" using c by (simp add: cold_def)
  have "node_used (sm_cache st) ! z = 0" if "z < se_Z env" for z
    using inv that tier hbm_bytes_none [of "cc_idx (sm_cache st)" z] by (auto simp: core_ok_def cache_inv_def)
  moreover have "l_result (cache_peek i (sm_cache st)) \<noteq> Hit"
    using tier by (auto simp: cache_peek_def split: option.splits Tier.splits dest!: map_of_SomeD)
  ultimately show ?thesis using inv c by (simp add: core_ok_def core_counters_def cold_def)
qed

theorem base_never_hits_witness:
  "\<exists>st. base_run demo_sim demo_args default_sim 100000 2 5 = Some st \<and> m_hbm_hit (sm_m st) = 0 \<and> node_used (sm_cache st) ! 1 = 0"
proof -
  obtain st where st: "base_run demo_sim demo_args default_sim 100000 2 5 = Some st" using demo_base_run [of 5] by blast
  have "1000000 + (1 + int 5) * growth demo_sim \<le> int_max" "1 < se_Z demo_sim"
    by (simp_all add: growth_def demo_sim_def demo_mt_def int_max_def)
  with base_never_hits [OF st demo_base_valid demo_sim_draws] st show ?thesis by simp
qed

section \<open>What a returning turn finds\<close>














text \<open>The baseline driver returns: if from every state of the random generator some draw is within the edge cutoff,
  the seed, the cold start and any number of rounds end with a state.\<close>
theorem base_returns:
  assumes "cutoff_ok (se_lib env) cutoff" shows "\<exists>st. base_run env a cfg cutoff backlog n = Some st"
  using base_run_some [OF assms] by blast

theorem base_returns_witness: "\<exists>st. base_run demo_sim demo_args default_sim 100000 300 4000 = Some st"
  by (rule base_returns) (simp add: demo_sim_def toy_cutoff)

end
