(* ===== verification/Prepo.thy ===== *)
theory Prepo
  imports Sim_Core Preposition
begin

text \<open>
  \<open>sim/prepo.cpp\<close>: the driver of global pre-positioning. A node holds two batches and no surplus;
  every slot that becomes free is filled at once from the cluster queue, at the length that the
  composer of \<open>Preposition\<close> asks for. The vector of nodes, each an array of two batches, is a
  list of batches in the order of memory, batch \<open>b\<close> of node \<open>z\<close> at \<open>2 * z + b\<close>.
\<close>

section \<open>The model\<close>

record PpDecoder =
  pd_id :: int
  pd_prompt :: int
  pd_max_tokens :: int
  pd_dec :: int
  pd_turn :: int
  pd_cached_prefix :: int
  pd_arrival :: int
  pd_met_ttft :: bool

definition pd_live_kv :: "PpDecoder \<Rightarrow> int" where
  "pd_live_kv dc = pd_prompt dc + pd_dec dc"

record 'g PrepoState = "'g SimCore" +
  ps_batches :: "PpDecoder list list"

definition batch_ix :: "nat \<Rightarrow> nat \<Rightarrow> nat" where
  "batch_ix z b = 2 * z + b"

definition batch_order :: "nat \<Rightarrow> (nat \<times> nat) list" where
  "batch_order Z = concat (map (\<lambda>z. [(z, 0), (z, 1)]) [0..<Z])"

definition prepo_env :: "'g Lib \<Rightarrow> Deployment \<Rightarrow> CsArgs \<Rightarrow> SimConfig \<Rightarrow> 'g SimEnv" where
  "prepo_env lib d a cfg =
     (let op = d_op d
      in \<lparr>se_lib = lib, se_d = d, se_op = op,
          se_slo = \<lparr>t_ttft_us = sc_slo_ttft_us cfg, t_tbt_us = sc_slo_tbt_mult cfg * round_us d\<rparr>,
          se_beta = given (arg_beta a) (sc_contention_beta cfg), se_warm = sc_warm cfg, se_Z = nat (given (arg_Z a) (sc_Z cfg)),
          se_seed = sc_seed cfg, se_mt = sc_mt cfg, se_cap_room = decode_pool op * to_ll (ctx_balance op) * 4\<rparr>)"

definition prepo_cache_cap :: "'g SimEnv \<Rightarrow> int" where
  "prepo_cache_cap env = node_cache_capacity_bytes (se_op env) + surplus_kv_bytes (se_d env)"

definition prepo_state :: "'g SimEnv \<Rightarrow> CsArgs \<Rightarrow> SimConfig \<Rightarrow> int \<Rightarrow> 'g PrepoState" where
  "prepo_state env a cfg cutoff =
     \<lparr>sm_wl = make_mt (se_lib env) (se_seed env) cutoff (se_mt env),
      sm_queue = make_queue (given (arg_global_age_cap a) (sc_global_age_cap cfg)),
      sm_cache = make_cache (se_Z env) (prepo_cache_cap env) (kv_bytes_per_token (d_model (se_d env)))
        \<lparr>eligibility_threshold = given (arg_eligibility a) (sc_eligibility_threshold cfg),
         evict_age = given (arg_evict_age a) (sc_evict_age cfg), gone_age = sc_gone_age cfg,
         offload_bw = given (arg_offload_bw a) (sc_offload_bw cfg)\<rparr>,
      sm_pend = \<lparr>by_round = []\<rparr>, sm_m = make_metrics, sm_k = make_kpi, ps_batches = replicate (2 * se_Z env) []\<rparr>"

definition pd_decoder_of :: "Request \<Rightarrow> bool \<Rightarrow> PpDecoder" where
  "pd_decoder_of r met =
     \<lparr>pd_id = r_id r, pd_prompt = r_prompt r, pd_max_tokens = r_max_tokens r, pd_dec = 0, pd_turn = r_turn r,
      pd_cached_prefix = r_cached_prefix r, pd_arrival = r_arrival r, pd_met_ttft = met\<rparr>"

text \<open>The loop that fills a batch; the cold start pulls by fit alone, the rounds also by age.\<close>

function pp_fill ::
  "(GlobalQueue \<Rightarrow> double \<Rightarrow> Request \<times> GlobalQueue) \<Rightarrow> 'g SimEnv \<Rightarrow> int \<Rightarrow> int \<Rightarrow> Preposition \<Rightarrow> PpDecoder list \<Rightarrow> 'g PrepoState
     \<Rightarrow> PpDecoder list \<times> 'g PrepoState" where
  "pp_fill pull env now it pp batch st =
     (if pp_done pp then (batch, st)
      else (case pull (sm_queue st) (next_ideal pp) of
              (r, q) \<Rightarrow>
                let st = st\<lparr>sm_queue := q\<rparr>
                in if r_id r < 0 then (batch, st)
                   else (case serve_ttft env r now it st of
                           (met, st) \<Rightarrow> pp_fill pull env now it (pp_place (r_prompt r) pp) (batch @ [pd_decoder_of r met]) st)))"
  by pat_completeness auto
termination
  by (relation "measure (\<lambda>(pull, env, now, it, pp, batch, st). nat (pp_slots_left pp))") (auto simp: pp_done_def pp_place_def)

declare pp_fill.simps [simp del]

definition prepo_cold_batch :: "'g SimEnv \<Rightarrow> nat \<times> nat \<Rightarrow> 'g PrepoState \<Rightarrow> 'g PrepoState" where
  "prepo_cold_batch env zb st =
     (let i = batch_ix (fst zb) (snd zb)
      in case pp_fill (\<lambda>g ideal. gq_pull_near g ideal (se_cap_room env)) env 0 0 (make_preposition (dlit 0) 0 (se_op env))
               (ps_batches st ! i) st of
           (batch, st) \<Rightarrow> st\<lparr>ps_batches := (ps_batches st)[i := batch]\<rparr>)"

definition prepo_seed_pop :: "'g SimEnv \<Rightarrow> int \<Rightarrow> int" where
  "prepo_seed_pop env backlog = int (se_Z env) * node_min (se_op env) + backlog"

definition prepo_init :: "'g SimEnv \<Rightarrow> int \<Rightarrow> 'g PrepoState \<Rightarrow> 'g PrepoState option" where
  "prepo_init env backlog st =
     (case seed_queue (se_lib env) (nat (prepo_seed_pop env backlog)) (sm_wl st) (sm_queue st) of
        None \<Rightarrow> None
      | Some (q, w) \<Rightarrow> Some (fold (prepo_cold_batch env) (batch_order (se_Z env)) (st\<lparr>sm_queue := q, sm_wl := w\<rparr>)))"

section \<open>The round\<close>

definition pd_stats :: "PpDecoder list \<Rightarrow> int \<times> int" where
  "pd_stats batch =
     fold (\<lambda>dc (s, metc). (s + pd_live_kv dc, if pd_met_ttft dc then metc + 1 else metc)) batch (0, 0)"

definition prepo_record :: "'g SimEnv \<Rightarrow> int \<Rightarrow> nat \<Rightarrow> PpDecoder list \<Rightarrow> 'g PrepoState \<Rightarrow> 'g PrepoState" where
  "prepo_record env it b batch st =
     (case pd_stats batch of (s, metc) \<Rightarrow> sim_record_mb env it (b = 1) (int (length batch)) s metc st)"

definition prepo_advance :: "PpDecoder list \<Rightarrow> PpDecoder list" where
  "prepo_advance batch = map (\<lambda>dc. dc\<lparr>pd_dec := pd_dec dc + 1\<rparr>) batch"

definition pd_finished :: "PpDecoder \<Rightarrow> bool" where
  "pd_finished dc \<longleftrightarrow> pd_max_tokens dc \<le> pd_dec dc"

definition prepo_complete :: "'g SimEnv \<Rightarrow> nat \<Rightarrow> int \<Rightarrow> PpDecoder \<Rightarrow> 'g PrepoState \<Rightarrow> 'g PrepoState option" where
  "prepo_complete env z now dc st =
     (let total_len = pd_prompt dc + pd_dec dc;
          st = st\<lparr>sm_cache := on_complete z (pd_id dc) total_len now (sm_cache st)\<rparr>;
          asReq = \<lparr>r_id = pd_id dc, r_prompt = pd_prompt dc, r_max_tokens = pd_max_tokens dc,
                   r_cached_prefix = pd_cached_prefix dc, r_arrival = now, r_turn = pd_turn dc\<rparr>
      in sim_finish env now asReq st)"

definition survivors_sum :: "PpDecoder list \<Rightarrow> double" where
  "survivors_sum batch = fold (\<lambda>dc s. s + dbl (pd_live_kv dc)) batch (dlit 0)"

definition prepo_refill :: "'g SimEnv \<Rightarrow> int \<Rightarrow> int \<Rightarrow> PpDecoder list \<Rightarrow> 'g PrepoState \<Rightarrow> PpDecoder list \<times> 'g PrepoState" where
  "prepo_refill env now it batch st =
     pp_fill (\<lambda>g ideal. gq_pull_slot g ideal (se_cap_room env) now) env now it
       (make_preposition (survivors_sum batch) (int (length batch)) (se_op env)) batch st"

definition prepo_batch_step :: "'g SimEnv \<Rightarrow> int \<Rightarrow> nat \<times> nat \<Rightarrow> 'g PrepoState \<Rightarrow> 'g PrepoState option" where
  "prepo_batch_step env it zb st =
     (let i = batch_ix (fst zb) (snd zb); batch = ps_batches st ! i; st = prepo_record env it (snd zb) batch st
      in case retire_with pd_finished (prepo_complete env (fst zb) it) (prepo_advance batch) st of
           None \<Rightarrow> None
         | Some (keep, gone, st) \<Rightarrow>
             (case prepo_refill env it it keep st of
                (batch, st) \<Rightarrow> Some (st\<lparr>ps_batches := (ps_batches st)[i := batch]\<rparr>)))"

fun prepo_batches :: "'g SimEnv \<Rightarrow> int \<Rightarrow> (nat \<times> nat) list \<Rightarrow> 'g PrepoState \<Rightarrow> 'g PrepoState option" where
  "prepo_batches env it [] st = Some st"
| "prepo_batches env it (zb # zbs) st = (case prepo_batch_step env it zb st of None \<Rightarrow> None | Some st \<Rightarrow> prepo_batches env it zbs st)"

definition prepo_pool :: "PpDecoder list list \<Rightarrow> int \<times> int \<times> double list" where
  "prepo_pool batches =
     fold (\<lambda>dc (s, n, cnt). (s + pd_live_kv dc, n + 1,
         cnt[class_of (pd_prompt dc) := cnt ! class_of (pd_prompt dc) + dlit 1])) (concat batches) (0, 0, [dlit 0, dlit 0, dlit 0])"

definition prepo_diagnose :: "'g SimEnv \<Rightarrow> int \<Rightarrow> 'g PrepoState \<Rightarrow> 'g PrepoState" where
  "prepo_diagnose env it st =
     (if se_warm env \<le> it
      then (case prepo_pool (ps_batches st) of
              (s, n, cnt) \<Rightarrow>
                if 0 < n then st\<lparr>sm_m := record_pool (dbl s / dbl n) (map (\<lambda>c. cnt ! c / dbl n) [0..<3]) (sm_m st)\<rparr>
                else st)
      else st)"

definition prepo_round :: "'g SimEnv \<Rightarrow> int \<Rightarrow> 'g PrepoState \<Rightarrow> 'g PrepoState option" where
  "prepo_round env it st =
     (case prepo_batches env it (batch_order (se_Z env)) (sim_arrivals it st) of
        None \<Rightarrow> None
      | Some st \<Rightarrow> Some (prepo_diagnose env it st))"

fun prepo_loop :: "'g SimEnv \<Rightarrow> nat \<Rightarrow> int \<Rightarrow> 'g PrepoState \<Rightarrow> 'g PrepoState option" where
  "prepo_loop env 0 it st = Some st"
| "prepo_loop env (Suc n) it st = (case prepo_round env it st of None \<Rightarrow> None | Some st \<Rightarrow> prepo_loop env n (it + 1) st)"

section \<open>The driver\<close>

definition prepo_report :: "'g SimEnv \<Rightarrow> int \<Rightarrow> 'g PrepoState \<Rightarrow> SimReport" where
  "prepo_report env iters st =
     (let m = (sm_m st)\<lparr>m_forced := gq_forced (sm_queue st)\<rparr>;
          k = (sm_k st)\<lparr>k_sim_us := dbl (iters - se_warm env) * round_us (se_d env)\<rparr>
      in \<lparr>sr_summary = print_summary m, sr_metrics = m, sr_kpi = kpi_print k, sr_queue_size = gq_size (sm_queue st),
          sr_max_wait = gq_max_wait (sm_queue st) iters, sr_forced = gq_forced (sm_queue st)\<rparr>)"

definition prepo_run :: "'g SimEnv \<Rightarrow> CsArgs \<Rightarrow> SimConfig \<Rightarrow> int \<Rightarrow> int \<Rightarrow> nat \<Rightarrow> 'g PrepoState option" where
  "prepo_run env a cfg cutoff backlog iters =
     (case prepo_init env backlog (prepo_state env a cfg cutoff) of
        None \<Rightarrow> None
      | Some st \<Rightarrow> prepo_loop env iters 0 st)"

definition prepo_main :: "'g Lib \<Rightarrow> CsArgs \<Rightarrow> SimReport option" where
  "prepo_main lib a =
     (let d = make_deployment; cfg = default_sim;
          iters = given (arg_iters a) (sc_iters cfg);
          env = prepo_env lib d a cfg
      in case prepo_run env a cfg (edge_cutoff lib (se_op env) (se_seed env)) (given (arg_seed_backlog a) (sc_seed_backlog cfg)) (nat iters) of
           None \<Rightarrow> None
         | Some st \<Rightarrow> Some (prepo_report env iters st))"

end
