(* ===== verification/Prepo_Correct.thy ===== *)
theory Prepo_Correct
  imports Prepo
begin

text \<open>
  Correctness of the pre-positioning driver: its rounds refine the abstract cluster, its batches
  never exceed their size and stay short only when the queue has nothing to give, and the
  composer's running sum is the KV of the batch. Filling is analysed once, in the locale of the
  queue's interface, for both of its pulls.
\<close>

section \<open>Well-formed states\<close>

definition pd_ids :: "PpDecoder list \<Rightarrow> int multiset" where
  "pd_ids pl = image_mset pd_id (mset pl)"

lemma pd_ids_simps [simp]:
  "pd_ids [] = {#}" "pd_ids (q # qs) = add_mset (pd_id q) (pd_ids qs)" "pd_ids (xs @ ys) = pd_ids xs + pd_ids ys"
  by (simp_all add: pd_ids_def)

lemma pd_decoder_of_simps [simp]:
  "pd_id (pd_decoder_of r met) = r_id r" "pd_live_kv (pd_decoder_of r met) = r_prompt r"
  by (simp_all add: pd_decoder_of_def pd_live_kv_def)

definition pd_ok :: "PpDecoder \<Rightarrow> bool" where
  "pd_ok q \<longleftrightarrow> 0 \<le> pd_id q \<and> 0 \<le> pd_prompt q \<and> 0 \<le> pd_max_tokens q \<and> 0 \<le> pd_dec q"

lemma pd_decoder_of_ok: "rq_ok r \<Longrightarrow> pd_ok (pd_decoder_of r met)"
  by (simp add: rq_ok_def pd_ok_def pd_decoder_of_def)

definition ps_abs :: "'g PrepoState \<Rightarrow> Population" where
  "ps_abs st = core_pop (pd_ids (concat (ps_batches st))) st"

definition prepo_ok :: "'g SimEnv \<Rightarrow> 'g PrepoState \<Rightarrow> bool" where
  "prepo_ok env st \<longleftrightarrow> core_ok env st \<and> length (ps_batches st) = 2 * se_Z env \<and> (\<forall>q \<in> set (concat (ps_batches st)). pd_ok q)"

lemma core_pop_batches [simp]: "core_pop R (st\<lparr>ps_batches := p\<rparr>) = core_pop R st"
  by (simp add: core_pop_def)

lemma core_ok_batches [simp]: "core_ok env (st\<lparr>ps_batches := p\<rparr>) = core_ok env st"
  by (simp add: core_ok_def core_counters_def)

lemma sm_same_batches: "sm_same st st' \<Longrightarrow> ps_batches st' = ps_batches (st :: 'g PrepoState)"
  by (cases st; cases st') (simp add: sm_same_def)

section \<open>Filling a batch\<close>

text \<open>The reference: the share of the next slot computed anew from the decoders that are in the batch.\<close>

definition batch_kv :: "PpDecoder list \<Rightarrow> int" where
  "batch_kv batch = (\<Sum>q \<leftarrow> batch. pd_live_kv q)"

definition fair_share :: "OperatingPoint \<Rightarrow> PpDecoder list \<Rightarrow> double" where
  "fair_share op batch =
     (dbl (kv_operating_target op) - dbl (batch_kv batch)) / dbl (decode_count_target op - int (length batch))"

function fill_ref ::
  "(GlobalQueue \<Rightarrow> double \<Rightarrow> Request \<times> GlobalQueue) \<Rightarrow> 'g SimEnv \<Rightarrow> int \<Rightarrow> int \<Rightarrow> PpDecoder list \<Rightarrow> 'g PrepoState
     \<Rightarrow> PpDecoder list \<times> 'g PrepoState" where
  "fill_ref pull env now it batch st =
     (if decode_count_target (se_op env) \<le> int (length batch) then (batch, st)
      else (case pull (sm_queue st) (fair_share (se_op env) batch) of
              (r, q) \<Rightarrow>
                if r_id r < 0 then (batch, st\<lparr>sm_queue := q\<rparr>)
                else (case serve_ttft env r now it (st\<lparr>sm_queue := q\<rparr>) of
                        (met, st) \<Rightarrow> fill_ref pull env now it (batch @ [pd_decoder_of r met]) st)))"
  by pat_completeness auto
termination
  by (relation "measure (\<lambda>(pull, env, now, it, batch, st). nat (decode_count_target (se_op env) - int (length batch)))") auto

declare fill_ref.simps [simp del]

context slot_queue
begin

lemma fill_cases:
  assumes "pp_fill pull env now it pp batch st = (batch', st')" and "core_ok env st" and "\<forall>q \<in> set batch. pd_ok q"
  obtains (full) "pp_done pp" "batch' = batch" "st' = st"
  | (dry) ideal r q where "\<not> pp_done pp" "pull (sm_queue st) ideal = (r, q)" "ideal = next_ideal pp" "r_id r < 0" "batch' = batch"
      "st' = st\<lparr>sm_queue := q\<rparr>" "core_ok env st'" "\<And>R. core_pop R st' = core_pop R st"
  | (placed) r q met st1 where "\<not> pp_done pp" "pull (sm_queue st) (next_ideal pp) = (r, q)" "rq_ok r" "r \<in> set (gq_q (sm_queue st))"
      "pp_fill pull env now it (pp_place (r_prompt r) pp) (batch @ [pd_decoder_of r met]) st1 = (batch', st')" "core_ok env st1"
      "\<And>R. pop_step (core_pop R st) (core_pop (add_mset (r_id r) R) st1)" "\<forall>q \<in> set (batch @ [pd_decoder_of r met]). pd_ok q"
      "sm_same (st\<lparr>sm_queue := q\<rparr>) st1" "set (gq_q (sm_queue st1)) \<subseteq> set (gq_q (sm_queue st))"
      "serve_ttft env r now it (st\<lparr>sm_queue := q\<rparr>) = (met, st1)"
proof (cases "pp_done pp")
  case True
  with assms(1) show thesis by (intro full) (simp_all add: pp_fill.simps [of pull env now it pp batch st])
next
  case False
  obtain r q where p: "pull (sm_queue st) (next_ideal pp) = (r, q)" by fastforce
  show thesis
  proof (cases "r_id r < 0")
    case True
    then have "\<not> 0 \<le> r_id r" by simp
    note d = pull_dry [OF p this assms(2)]
    from assms(1) False True p have "batch' = batch" "st' = st\<lparr>sm_queue := q\<rparr>"
      by (simp_all add: pp_fill.simps [of pull env now it pp batch st] Let_def)
    with False p True d show thesis by (intro dry) simp_all
  next
    case pos: False
    then have "0 \<le> r_id r" by simp
    obtain met st1 where s: "serve_ttft env r now it (st\<lparr>sm_queue := q\<rparr>) = (met, st1)" by fastforce
    note a = pull_admits [OF p \<open>0 \<le> r_id r\<close> assms(2) serve_ttft_same [OF s]]
    have "pp_fill pull env now it (pp_place (r_prompt r) pp) (batch @ [pd_decoder_of r met]) st1 = (batch', st')"
      using assms(1) False p pos s by (simp add: pp_fill.simps [of pull env now it pp batch st] Let_def)
    moreover have "\<forall>q \<in> set (batch @ [pd_decoder_of r met]). pd_ok q" using assms(3) pd_decoder_of_ok [OF a(1)] by simp
    ultimately show thesis using False p a serve_ttft_same [OF s] s by (intro placed) auto
  qed
qed

lemma fill_step:
  assumes "pp_fill pull env now it pp batch st = (batch', st')" and "core_ok env st" and "\<forall>q \<in> set batch. pd_ok q"
  shows "core_ok env st' \<and> pop_steps (core_pop (pd_ids batch + R) st) (core_pop (pd_ids batch' + R) st')
    \<and> (\<forall>q \<in> set batch'. pd_ok q) \<and> ps_batches st' = ps_batches st \<and> sm_wl st' = sm_wl st \<and> sm_pend st' = sm_pend st
    \<and> int (length batch') \<le> int (length batch) + max 0 (pp_slots_left pp)
    \<and> (int (length batch') = int (length batch) + max 0 (pp_slots_left pp)
       \<or> (\<exists>g ideal r. pull g ideal = (r, sm_queue st') \<and> r_id r < 0))"
  using assms
proof (induction "nat (pp_slots_left pp)" arbitrary: pp batch st rule: less_induct)
  case less
  from less.prems show ?case
  proof (cases rule: fill_cases)
    case full
    with less.prems show ?thesis by (simp add: pp_done_def)
  next
    case (dry ideal r q)
    with less.prems show ?thesis by auto
  next
    case (placed r q met st1)
    have m: "nat (pp_slots_left (pp_place (r_prompt r) pp)) < nat (pp_slots_left pp)" "0 < pp_slots_left pp"
      using placed(1) by (simp_all add: pp_done_def pp_place_def)
    note IH = less.hyps [OF m(1) placed(5,6,8)]
    have s: "pop_step (core_pop (pd_ids batch + R) st) (core_pop (pd_ids (batch @ [pd_decoder_of r met]) + R) st1)"
      using placed(7) [of "pd_ids batch + R"] by simp
    have "pop_steps (core_pop (pd_ids batch + R) st) (core_pop (pd_ids batch' + R) st')"
      by (rule converse_rtranclp_into_rtranclp [where r = pop_step, OF s]) (use IH in blast)
    moreover have "ps_batches st1 = ps_batches st" "sm_wl st1 = sm_wl st" "sm_pend st1 = sm_pend st"
      using sm_same_batches [OF placed(9)] placed(9) by (simp_all add: sm_same_def)
    moreover have "max 0 (pp_slots_left (pp_place (r_prompt r) pp)) + 1 = max 0 (pp_slots_left pp)"
      using m(2) by (simp add: pp_place_def)
    ultimately show ?thesis using IH by auto
  qed
qed


lemma fill_is_ref:
  assumes "core_ok env st" and "\<forall>q \<in> set batch. pd_ok q"
    and "pp_sum pp = dbl (batch_kv batch)" and "pp_slots_left pp = decode_count_target (se_op env) - int (length batch)"
    and "pp_kv_target pp = kv_operating_target (se_op env)" and "\<forall>r \<in> set (gq_q (sm_queue st)). r_prompt r \<le> b" and "0 \<le> b"
    and "batch_kv batch + max 0 (pp_slots_left pp) * b \<le> 2 ^ 53"
  shows "pp_fill pull env now it pp batch st = fill_ref pull env now it batch st"
  using assms(1-6,8)
proof (induction "nat (pp_slots_left pp)" arbitrary: pp batch st rule: less_induct)
  case less
  obtain batch' st' where f: "pp_fill pull env now it pp batch st = (batch', st')" by fastforce
  have ideal: "next_ideal pp = fair_share (se_op env) batch"
    using less.prems(3-5) by (simp add: next_ideal_def fair_share_def)
  have don: "pp_done pp \<longleftrightarrow> decode_count_target (se_op env) \<le> int (length batch)"
    using less.prems(4) by (simp add: pp_done_def)
  have kv: "0 \<le> batch_kv batch"
    using less.prems(2) by (auto simp: batch_kv_def pd_ok_def pd_live_kv_def intro!: sum_list_nonneg)
  from f less.prems(1,2) show ?case
  proof (cases rule: fill_cases)
    case full
    with don f show ?thesis by (simp add: fill_ref.simps [of pull env now it batch st])
  next
    case (dry ideal r q)
    with don f \<open>next_ideal pp = _\<close> show ?thesis by (simp add: fill_ref.simps [of pull env now it batch st])
  next
    case (placed r q met st1)
    let ?pp = "pp_place (r_prompt r) pp" and ?batch = "batch @ [pd_decoder_of r met]"
    have r: "0 \<le> r_prompt r" "r_prompt r \<le> b" using placed(3,4) less.prems(6) by (auto simp: rq_ok_def)
    have m: "nat (pp_slots_left ?pp) < nat (pp_slots_left pp)" and s: "0 < pp_slots_left pp"
      using placed(1) by (simp_all add: pp_done_def pp_place_def)
    have "max 0 (pp_slots_left pp) * b = max 0 (pp_slots_left ?pp) * b + b" using s by (simp add: pp_place_def algebra_simps)
    then have b: "batch_kv ?batch + max 0 (pp_slots_left ?pp) * b \<le> 2 ^ 53" using less.prems(7) r by (simp add: batch_kv_def)
    have "0 \<le> max 0 (pp_slots_left ?pp) * b" using assms(7) by simp
    then have le: "batch_kv batch + r_prompt r \<le> 2 ^ 53" using b by (simp add: batch_kv_def)
    then have "pp_sum ?pp = dbl (batch_kv ?batch)"
      using dbl_add [of "batch_kv batch" "r_prompt r"] less.prems(3) kv r by (simp add: pp_place_def batch_kv_def)
    moreover have "\<forall>x \<in> set (gq_q (sm_queue st1)). r_prompt x \<le> b" using placed(10) less.prems(6) by blast
    ultimately have IH: "pp_fill pull env now it ?pp ?batch st1 = fill_ref pull env now it ?batch st1"
      using less.prems(4,5) b by (intro less.hyps [OF m placed(6,8)]) (simp_all add: pp_place_def)
    have "\<not> r_id r < 0" using placed(3) by (simp add: rq_ok_def)
    have "pp_fill pull env now it pp batch st = pp_fill pull env now it ?pp ?batch st1"
      using placed(1,2,11) \<open>\<not> r_id r < 0\<close> by (simp add: pp_fill.simps [of pull env now it pp batch st] Let_def)
    moreover have "fill_ref pull env now it batch st = fill_ref pull env now it ?batch st1"
      using placed(1,2,11) \<open>\<not> r_id r < 0\<close> don ideal by (simp add: fill_ref.simps [of pull env now it batch st])
    ultimately show ?thesis using IH by simp
  qed
qed

end


lemmas near_fill = near_pull.fill_step
lemmas slot_fill = slot_pull.fill_step

lemma survivors_sum_exact:
  assumes "\<forall>q \<in> set batch. pd_ok q" and "batch_kv batch \<le> 2 ^ 53"
  shows "survivors_sum batch = dbl (batch_kv batch)"
proof -
  have "fold (\<lambda>dc s. s + dbl (pd_live_kv dc)) batch (dbl s) = dbl (s + batch_kv batch)"
    if "0 \<le> s" "\<forall>q \<in> set batch. pd_ok q" "s + batch_kv batch \<le> 2 ^ 53" for s
    using that
  proof (induction batch arbitrary: s)
    case (Cons q qs)
    have "0 \<le> pd_live_kv q" "0 \<le> batch_kv qs"
      using Cons.prems(2) by (auto simp: batch_kv_def pd_ok_def pd_live_kv_def intro!: sum_list_nonneg)
    then have "dbl s + dbl (pd_live_kv q) = dbl (s + pd_live_kv q)" "0 \<le> s + pd_live_kv q" "s + pd_live_kv q + batch_kv qs \<le> 2 ^ 53"
      using Cons.prems by (auto simp: batch_kv_def intro!: dbl_add)
    with Cons.IH [of "s + pd_live_kv q"] Cons.prems(2) show ?case by (simp add: batch_kv_def add.assoc)
  qed (simp add: batch_kv_def)
  from this [of 0] assms have "fold (\<lambda>dc s. s + dbl (pd_live_kv dc)) batch (dbl 0) = dbl (batch_kv batch)" by simp
  moreover have "dlit 0 = dbl 0" by code_simp
  ultimately show ?thesis by (simp add: survivors_sum_def)
qed

section \<open>A batch's turn\<close>

lemma pd_stats_met: "pd_stats batch = (s, m) \<Longrightarrow> 0 \<le> m \<and> m \<le> int (length batch)"
proof -
  have "fold (\<lambda>dc (s, metc). (s + pd_live_kv dc, if pd_met_ttft dc then metc + 1 else metc)) batch (s0, m0) = (s, m) \<Longrightarrow>
     m0 \<le> m \<and> m \<le> m0 + int (length batch)" for s0 m0
    by (induction batch arbitrary: s0 m0) (force split: if_splits)+
  then show "pd_stats batch = (s, m) \<Longrightarrow> 0 \<le> m \<and> m \<le> int (length batch)" by (fastforce simp: pd_stats_def)
qed

lemma prepo_record_same: "sm_same st (prepo_record env it b batch st)"
proof -
  obtain s m where ms: "pd_stats batch = (s, m)" by fastforce
  from pd_stats_met [OF ms] show ?thesis by (simp add: prepo_record_def ms sim_record_mb_same)
qed

lemma prepo_advance_step:
  "length (prepo_advance batch) = length batch" "pd_ids (prepo_advance batch) = pd_ids batch"
  "\<forall>q \<in> set batch. pd_ok q \<Longrightarrow> \<forall>q \<in> set (prepo_advance batch). pd_ok q"
  by (auto simp: prepo_advance_def pd_ids_def pd_ok_def image_mset.compositionality o_def)

lemma prepo_complete_step:
  assumes "prepo_complete env z now q st = Some st'" and "core_ok env st" and "simenv_ok env" and "pd_ok q" and "z < se_Z env"
  shows "core_ok env st'" "pop_step (core_pop (add_mset (pd_id q) R) st) (core_pop R st')" "ps_batches st' = ps_batches st"
proof -
  let ?st = "st\<lparr>sm_cache := on_complete z (pd_id q) (pd_prompt q + pd_dec q) now (sm_cache st)\<rparr>"
  let ?r = "\<lparr>r_id = pd_id q, r_prompt = pd_prompt q, r_max_tokens = pd_max_tokens q,
                   r_cached_prefix = pd_cached_prefix q, r_arrival = now, r_turn = pd_turn q\<rparr>"
  have f: "sim_finish env now ?r ?st = Some st'" using assms(1) by (simp add: prepo_complete_def Let_def)
  have ok: "core_ok env ?st"
    using assms(2,4,5) on_complete_inv [of "sm_cache st" z "pd_prompt q + pd_dec q"]
    by (simp add: core_ok_def core_counters_def pd_ok_def budget_length)
  have r: "rq_ok ?r" using assms(4) by (simp add: rq_ok_def pd_ok_def)
  note s = sim_finish_step [OF f ok assms(3) r]
  show "core_ok env st'" by (rule s(1))
  have "core_pop X ?st = core_pop X st" for X by (simp add: core_pop_def)
  with s(2) [of R] show "pop_step (core_pop (add_mset (pd_id q) R) st) (core_pop R st')" by (simp only: Request.simps)
  show "ps_batches st' = ps_batches st" using f by (auto simp: sim_finish_def split: prod.splits if_splits option.splits)
qed

lemma prepo_retire_step:
  assumes "retire_with pd_finished (prepo_complete env z now) pl st = Some (keep, gone, st')" and "core_ok env st" and "simenv_ok env"
    and "\<forall>q \<in> set pl. pd_ok q" and "z < se_Z env"
  shows "core_ok env st'" "pop_steps (core_pop (pd_ids pl + R) st) (core_pop (pd_ids keep + R) st')"
    "keep = filter (\<lambda>q. \<not> pd_finished q) pl" "ps_batches st' = ps_batches st"
proof -
  let ?I = "\<lambda>s. core_ok env s \<and> ps_batches s = ps_batches st"
  have i: "?I st" using assms(2) by simp
  have "?I st' \<and> pop_steps (core_pop (image_mset pd_id (mset pl) + R) st) (core_pop (image_mset pd_id (mset keep) + R) st')
    \<and> keep = filter (\<lambda>q. \<not> pd_finished q) pl \<and> gone = filter pd_finished pl"
  proof (rule retire_with_steps [where I = ?I and P = core_pop and idf = pd_id, OF assms(1) i])
    fix q R and s s' :: "'a PrepoState"
    assume q: "q \<in> set pl" "?I s" "prepo_complete env z now q s = Some s'"
    then have ok: "core_ok env s" "pd_ok q" using assms(4) by simp_all
    show "?I s' \<and> pop_step (core_pop (add_mset (pd_id q) R) s) (core_pop R s')"
      using prepo_complete_step [OF q(3) ok(1) assms(3) ok(2) assms(5)] q(2) by simp
  qed
  then show "core_ok env st'" "pop_steps (core_pop (pd_ids pl + R) st) (core_pop (pd_ids keep + R) st')"
    "keep = filter (\<lambda>q. \<not> pd_finished q) pl" "ps_batches st' = ps_batches st"
    unfolding pd_ids_def by blast+
qed

lemma pd_ids_split: "z < length xss \<Longrightarrow> pd_ids (concat (xss[z := ys])) = pd_ids ys + pd_ids (concat (xss[z := []]))"
  using concat_update_mset [of z "xss[z := []]" ys] by (simp add: pd_ids_def add.commute flip: image_mset_union)

lemma batch_order_in: "zb \<in> set (batch_order Z) \<Longrightarrow> fst zb < Z \<and> snd zb < 2"
  by (auto simp: batch_order_def)

lemma batch_ix_less: "fst zb < Z \<and> snd zb < 2 \<Longrightarrow> batch_ix (fst zb) (snd zb) < 2 * Z"
  by (auto simp: batch_ix_def)

lemma prepo_batch_stages:
  assumes "prepo_batch_step env it zb st = Some st'" and "i = batch_ix (fst zb) (snd zb)"
  obtains keep gone st1 batch st2 where
    "retire_with pd_finished (prepo_complete env (fst zb) it) (prepo_advance (ps_batches st ! i))
       (prepo_record env it (snd zb) (ps_batches st ! i) st) = Some (keep, gone, st1)"
    "prepo_refill env it it keep st1 = (batch, st2)" "st' = st2\<lparr>ps_batches := (ps_batches st2)[i := batch]\<rparr>"
  using assms by (auto simp: prepo_batch_step_def Let_def split: option.splits prod.splits)

lemma prepo_batch_step_ok:
  assumes "prepo_batch_step env it zb st = Some st'" and "prepo_ok env st" and "simenv_ok env" and "fst zb < se_Z env \<and> snd zb < 2"
    and i: "i = batch_ix (fst zb) (snd zb)"
  shows "prepo_ok env st'" "pop_steps (ps_abs st) (ps_abs st')"
    "int (length (ps_batches st ! i)) \<le> max 0 (decode_count_target (se_op env)) \<Longrightarrow>
       int (length (ps_batches st' ! i)) \<le> max 0 (decode_count_target (se_op env))"
    "decode_count_target (se_op env) \<le> int (length (ps_batches st' ! i))
     \<or> (\<exists>g ideal r. gq_pull_slot g ideal (se_cap_room env) it = (r, sm_queue st') \<and> r_id r < 0)"
    "\<forall>y. y \<noteq> i \<longrightarrow> ps_batches st' ! y = ps_batches st ! y"
proof -
  from assms(1) i obtain keep gone st1 batch st2 where
    r: "retire_with pd_finished (prepo_complete env (fst zb) it) (prepo_advance (ps_batches st ! i))
       (prepo_record env it (snd zb) (ps_batches st ! i) st) = Some (keep, gone, st1)"
    and f: "prepo_refill env it it keep st1 = (batch, st2)" and st': "st' = st2\<lparr>ps_batches := (ps_batches st2)[i := batch]\<rparr>"
    by (rule prepo_batch_stages)
  let ?st0 = "prepo_record env it (snd zb) (ps_batches st ! i) st" and ?adv = "prepo_advance (ps_batches st ! i)"
  have ok: "core_ok env st" and dec: "\<forall>q \<in> set (concat (ps_batches st)). pd_ok q" and len: "length (ps_batches st) = 2 * se_Z env"
    using assms(2) by (simp_all add: prepo_ok_def)
  have z: "i < length (ps_batches st)" using batch_ix_less [OF assms(4)] len i by simp
  have dz: "\<forall>q \<in> set (ps_batches st ! i). pd_ok q" using dec nth_mem [OF z] by auto
  note same = prepo_record_same [of st env it "snd zb" "ps_batches st ! i"]
  note aa = prepo_advance_step [where batch = "ps_batches st ! i"]
  have zz: "fst zb < se_Z env" using assms(4) by simp
  note rr = prepo_retire_step [OF r sm_same_ok [OF same ok] assms(3) aa(3) [OF dz] zz]
  have dk: "\<forall>q \<in> set keep. pd_ok q" using rr(3) aa(3) [OF dz] by simp
  let ?R = "pd_ids (concat ((ps_batches st)[i := []]))"
  let ?pp = "make_preposition (survivors_sum keep) (int (length keep)) (se_op env)"
  note ff = slot_fill [OF f [unfolded prepo_refill_def] rr(1) dk, where R = ?R]
  have pools: "ps_batches st' = (ps_batches st)[i := batch]" using st' ff rr(4) sm_same_batches [OF same] by simp
  have "\<forall>q \<in> set (concat (ps_batches st')). pd_ok q" using ff dec unfolding pools by (metis in_concat_update)
  then show "prepo_ok env st'" using ff len by (simp add: prepo_ok_def pools) (simp add: st')
  have "pop_steps (core_pop (pd_ids ?adv + ?R) ?st0) (core_pop (pd_ids batch + ?R) st2)"
    using rtranclp_trans [OF rr(2) [of ?R]] ff by blast
  moreover have "ps_abs st = core_pop (pd_ids ?adv + ?R) ?st0"
    using pd_ids_split [OF z, of "ps_batches st ! i"] sm_same_pop [OF same] aa(2) by (simp add: ps_abs_def)
  moreover have "ps_abs st' = core_pop (pd_ids batch + ?R) st2"
    using pd_ids_split [OF z, of batch] by (simp add: ps_abs_def pools) (simp add: st')
  ultimately show "pop_steps (ps_abs st) (ps_abs st')" by simp
  have q': "sm_queue st' = sm_queue st2" by (simp add: st')
  have slots: "pp_slots_left ?pp = decode_count_target (se_op env) - int (length keep)" by (simp add: make_preposition_def)
  have kl: "length keep \<le> length (ps_batches st ! i)" using rr(3) aa(1) by (metis length_filter_le)
  show "int (length (ps_batches st' ! i)) \<le> max 0 (decode_count_target (se_op env))"
    if "int (length (ps_batches st ! i)) \<le> max 0 (decode_count_target (se_op env))"
    using ff kl that z by (auto simp: pools slots)
  show "decode_count_target (se_op env) \<le> int (length (ps_batches st' ! i))
     \<or> (\<exists>g ideal r. gq_pull_slot g ideal (se_cap_room env) it = (r, sm_queue st') \<and> r_id r < 0)"
    using ff z q' by (auto simp: pools slots)
  show "\<forall>y. y \<noteq> i \<longrightarrow> ps_batches st' ! y = ps_batches st ! y" by (simp add: pools)
qed

section \<open>Rounds\<close>

definition batches_fit :: "'g SimEnv \<Rightarrow> 'g PrepoState \<Rightarrow> bool" where
  "batches_fit env st \<longleftrightarrow> (\<forall>b \<in> set (ps_batches st). int (length b) \<le> max 0 (decode_count_target (se_op env)))"

lemma prepo_batch_step_fit:
  assumes "prepo_batch_step env it zb st = Some st'" and "prepo_ok env st" and "simenv_ok env" and "fst zb < se_Z env \<and> snd zb < 2"
    and "batches_fit env st"
  shows "batches_fit env st'"
proof -
  let ?i = "batch_ix (fst zb) (snd zb)"
  note s = prepo_batch_step_ok [OF assms(1-4) refl]
  have len: "length (ps_batches st) = 2 * se_Z env" "length (ps_batches st') = 2 * se_Z env"
    using assms(2) s(1) by (simp_all add: prepo_ok_def)
  have "int (length (ps_batches st' ! y)) \<le> max 0 (decode_count_target (se_op env))" if "y < 2 * se_Z env" for y
    using that s(3,5) assms(5) len by (cases "y = ?i") (auto simp: batches_fit_def)
  then show ?thesis using len by (auto simp: batches_fit_def in_set_conv_nth)
qed

lemma prepo_batches_ok:
  assumes "prepo_batches env it zbs st = Some st'" and "prepo_ok env st" and "simenv_ok env"
    and "\<forall>zb \<in> set zbs. fst zb < se_Z env \<and> snd zb < 2"
  shows "prepo_ok env st' \<and> pop_steps (ps_abs st) (ps_abs st') \<and> (batches_fit env st \<longrightarrow> batches_fit env st')"
  using assms(1,2,4)
proof (induction zbs arbitrary: st)
  case (Cons zb zbs)
  from Cons.prems(1) obtain st1 where s: "prepo_batch_step env it zb st = Some st1" and r: "prepo_batches env it zbs st1 = Some st'"
    by (auto split: option.splits)
  have zb: "fst zb < se_Z env \<and> snd zb < 2" "\<forall>zb \<in> set zbs. fst zb < se_Z env \<and> snd zb < 2" using Cons.prems(3) by simp_all
  note n = prepo_batch_step_ok [OF s Cons.prems(2) assms(3) zb(1) refl]
  from Cons.IH [OF r n(1) zb(2)] n(2) prepo_batch_step_fit [OF s Cons.prems(2) assms(3) zb(1)]
  show ?case by (meson rtranclp_trans)
qed simp

lemma sim_arrivals_batches: "ps_batches (sim_arrivals now st) = ps_batches (st :: 'g PrepoState)"
  by (simp add: sim_arrivals_def Let_def split: prod.splits)

lemma prepo_diagnose_same: "sm_same st (prepo_diagnose env it st)"
  by (auto simp: prepo_diagnose_def sm_same_def core_counters_def record_pool_def metrics_inv_def split: prod.split)

lemma prepo_round_ok:
  assumes "prepo_round env it st = Some st'" and "prepo_ok env st" and "simenv_ok env"
  shows "prepo_ok env st'" "pop_steps (ps_abs st) (ps_abs st')" "batches_fit env st \<Longrightarrow> batches_fit env st'"
proof -
  from assms(1) obtain st1 where n: "prepo_batches env it (batch_order (se_Z env)) (sim_arrivals it st) = Some st1"
    and st': "st' = prepo_diagnose env it st1"
    by (auto simp: prepo_round_def split: option.splits)
  have ok: "core_ok env st" using assms(2) by (simp add: prepo_ok_def)
  note a = sim_arrivals_step [OF ok, where now = it]
  have ok1: "prepo_ok env (sim_arrivals it st)" using assms(2) a(1) by (simp add: prepo_ok_def sim_arrivals_batches)
  have order: "\<forall>zb \<in> set (batch_order (se_Z env)). fst zb < se_Z env \<and> snd zb < 2" using batch_order_in by blast
  note b = prepo_batches_ok [OF n ok1 assms(3) order]
  note same = prepo_diagnose_same [of st1 env it]
  show "prepo_ok env st'" using b sm_same_ok [OF same] sm_same_batches [OF same] by (simp add: st' prepo_ok_def)
  have "ps_abs st' = ps_abs st1" using sm_same_pop [OF same] sm_same_batches [OF same] by (simp add: st' ps_abs_def)
  moreover have "pop_steps (ps_abs st) (ps_abs (sim_arrivals it st))" using a(2) by (simp add: ps_abs_def sim_arrivals_batches)
  ultimately show "pop_steps (ps_abs st) (ps_abs st')" using b by auto
  show "batches_fit env st \<Longrightarrow> batches_fit env st'"
    using b sm_same_batches [OF same] by (simp add: st' batches_fit_def sim_arrivals_batches)
qed

lemma prepo_loop_ok:
  assumes "prepo_loop env n it st = Some st'" and "prepo_ok env st" and "simenv_ok env"
  shows "prepo_ok env st' \<and> pop_steps (ps_abs st) (ps_abs st') \<and> (batches_fit env st \<longrightarrow> batches_fit env st')"
  using assms(1,2)
proof (induction n arbitrary: it st)
  case (Suc n)
  from Suc.prems(1) obtain st1 where r: "prepo_round env it st = Some st1" "prepo_loop env n (it + 1) st1 = Some st'"
    by (auto split: option.splits)
  note a = prepo_round_ok [OF r(1) Suc.prems(2) assms(3)]
  from Suc.IH [OF r(2) a(1)] a(2,3) show ?case by (meson rtranclp_trans)
qed simp

section \<open>The start\<close>

lemma prepo_cold_batch_ok:
  assumes "prepo_ok env st" and "fst zb < se_Z env \<and> snd zb < 2" and "ps_batches st ! batch_ix (fst zb) (snd zb) = []"
  shows "prepo_ok env (prepo_cold_batch env zb st)" "pop_steps (ps_abs st) (ps_abs (prepo_cold_batch env zb st))"
    "batches_fit env st \<Longrightarrow> batches_fit env (prepo_cold_batch env zb st)" "sm_wl (prepo_cold_batch env zb st) = sm_wl st"
    "\<forall>y. y \<noteq> batch_ix (fst zb) (snd zb) \<longrightarrow> ps_batches (prepo_cold_batch env zb st) ! y = ps_batches st ! y"
proof -
  let ?i = "batch_ix (fst zb) (snd zb)" and ?pp = "make_preposition (dlit 0) 0 (se_op env)" and ?st' = "prepo_cold_batch env zb st"
  obtain batch st1 where f: "pp_fill (\<lambda>g ideal. gq_pull_near g ideal (se_cap_room env)) env 0 0 ?pp (ps_batches st ! ?i) st = (batch, st1)"
    by fastforce
  then have st': "?st' = st1\<lparr>ps_batches := (ps_batches st1)[?i := batch]\<rparr>" by (simp add: prepo_cold_batch_def Let_def)
  have ok: "core_ok env st" and dec: "\<forall>q \<in> set (concat (ps_batches st)). pd_ok q" and len: "length (ps_batches st) = 2 * se_Z env"
    using assms(1) by (simp_all add: prepo_ok_def)
  have z: "?i < length (ps_batches st)" using batch_ix_less [OF assms(2)] len by simp
  have dz: "\<forall>q \<in> set (ps_batches st ! ?i). pd_ok q" by (simp add: assms(3))
  let ?R = "pd_ids (concat ((ps_batches st)[?i := []]))"
  note ff = near_fill [OF f ok dz, where R = ?R]
  have pools: "ps_batches ?st' = (ps_batches st)[?i := batch]" using st' ff by simp
  have "\<forall>q \<in> set (concat (ps_batches ?st')). pd_ok q" using ff dec unfolding pools by (metis in_concat_update)
  then show "prepo_ok env ?st'" using ff len by (simp add: prepo_ok_def pools) (simp add: st')
  have "ps_abs st = core_pop (pd_ids (ps_batches st ! ?i) + ?R) st"
    using pd_ids_split [OF z, of "ps_batches st ! ?i"] by (simp add: ps_abs_def)
  moreover have "ps_abs ?st' = core_pop (pd_ids batch + ?R) st1"
    using pd_ids_split [OF z, of batch] by (simp add: ps_abs_def pools) (simp add: st')
  ultimately show "pop_steps (ps_abs st) (ps_abs ?st')" using ff by simp
  have "pp_slots_left ?pp = decode_count_target (se_op env)" by (simp add: make_preposition_def)
  then have "int (length batch) \<le> max 0 (decode_count_target (se_op env))" using ff assms(3) by simp
  then show "batches_fit env st \<Longrightarrow> batches_fit env ?st'"
    using set_update_subset_insert [of "ps_batches st" ?i batch] by (auto simp: batches_fit_def pools)
  show "sm_wl ?st' = sm_wl st" using ff by (simp add: st')
  show "\<forall>y. y \<noteq> ?i \<longrightarrow> ps_batches ?st' ! y = ps_batches st ! y" by (simp add: pools)
qed

lemma prepo_cold_fold:
  assumes "prepo_ok env st" and "\<forall>zb \<in> set zbs. fst zb < se_Z env \<and> snd zb < 2"
    and "\<forall>zb \<in> set zbs. ps_batches st ! batch_ix (fst zb) (snd zb) = []" and "distinct zbs"
  shows "prepo_ok env (fold (prepo_cold_batch env) zbs st) \<and> pop_steps (ps_abs st) (ps_abs (fold (prepo_cold_batch env) zbs st))
    \<and> (batches_fit env st \<longrightarrow> batches_fit env (fold (prepo_cold_batch env) zbs st))
    \<and> sm_wl (fold (prepo_cold_batch env) zbs st) = sm_wl st"
  using assms
proof (induction zbs arbitrary: st)
  case (Cons zb zbs)
  have zb: "fst zb < se_Z env \<and> snd zb < 2" "ps_batches st ! batch_ix (fst zb) (snd zb) = []" using Cons.prems(2,3) by simp_all
  note s = prepo_cold_batch_ok [OF Cons.prems(1) zb]
  have inj: "batch_ix (fst x) (snd x) \<noteq> batch_ix (fst zb) (snd zb)" if "x \<in> set zbs" for x
  proof -
    have "x \<noteq> zb" "snd x < 2" using that Cons.prems(2,4) by auto
    then show ?thesis using zb(1) by (cases x; cases zb) (auto simp: batch_ix_def, presburger+)
  qed
  have "\<forall>x \<in> set zbs. ps_batches (prepo_cold_batch env zb st) ! batch_ix (fst x) (snd x) = []"
    using s(5) inj Cons.prems(3) by simp
  from Cons.IH [OF s(1) _ this] Cons.prems(2,4) s show ?case by (auto intro: rtranclp_trans)
qed simp

end
