(* ===== verification/Prepo_Props.thy ===== *)
theory Prepo_Props
  imports Prepo_Correct
begin

text \<open>The properties of the pre-positioning driver, from the step lemmas of \<open>Prepo_Correct\<close>.\<close>

section \<open>Runs\<close>

definition prepo_valid :: "'g SimEnv \<Rightarrow> bool" where
  "prepo_valid env \<longleftrightarrow> simenv_ok env \<and> 0 \<le> prepo_cache_cap env \<and> 0 \<le> kv_bytes_per_token (d_model (se_d env))"

lemma prepo_state_ok:
  assumes "prepo_valid env"
  shows "prepo_ok env (prepo_state env a cfg cutoff)" "batches_fit env (prepo_state env a cfg cutoff)"
    "mt_next_id (sm_wl (prepo_state env a cfg cutoff)) = 0" "gq_q (sm_queue (prepo_state env a cfg cutoff)) = []"
    "mt_edge_cutoff (sm_wl (prepo_state env a cfg cutoff)) = cutoff"
    "by_round (sm_pend (prepo_state env a cfg cutoff)) = []"
    "ps_batches (prepo_state env a cfg cutoff) = replicate (2 * se_Z env) []"
proof -
  have c: "0 \<le> prepo_cache_cap env" "0 \<le> kv_bytes_per_token (d_model (se_d env))" using assms by (simp_all add: prepo_valid_def)
  show "prepo_ok env (prepo_state env a cfg cutoff)" "batches_fit env (prepo_state env a cfg cutoff)"
    "mt_next_id (sm_wl (prepo_state env a cfg cutoff)) = 0" "gq_q (sm_queue (prepo_state env a cfg cutoff)) = []"
    "mt_edge_cutoff (sm_wl (prepo_state env a cfg cutoff)) = cutoff"
    "by_round (sm_pend (prepo_state env a cfg cutoff)) = []"
    "ps_batches (prepo_state env a cfg cutoff) = replicate (2 * se_Z env) []"
    using cache_inv_make [OF c]
    by (simp_all add: prepo_ok_def batches_fit_def prepo_state_def core_ok_def core_counters_def make_mt_def make_queue_def
        pending_ok_def make_metrics_def metrics_inv_def make_kpi_def kpi_inv_def concat_replicate_trivial) (simp add: make_cache_def)
qed

lemma batch_order_distinct: "distinct (batch_order Z)"
proof (induction Z)
  case (Suc Z)
  have "batch_order (Suc Z) = batch_order Z @ [(Z, 0), (Z, 1)]" by (simp add: batch_order_def)
  moreover have "(Z, b) \<notin> set (batch_order Z)" for b using batch_order_in [of "(Z, b)" Z] by auto
  ultimately show ?case using Suc by simp
qed (simp add: batch_order_def)

lemma prepo_init_ok:
  assumes "prepo_init env backlog (prepo_state env a cfg cutoff) = Some st" and "prepo_valid env"
  shows "prepo_ok env st" "batches_fit env st" "ids_unique (ps_abs st)" "0 \<le> next_conv (ps_abs st)"
    "size (everyone (ps_abs st)) = nat (prepo_seed_pop env backlog)" "mt_edge_cutoff (sm_wl st) = cutoff"
proof -
  let ?s = "prepo_state env a cfg cutoff" and ?n = "nat (prepo_seed_pop env backlog)"
  note b = prepo_state_ok [OF assms(2), of a cfg cutoff]
  have e: "simenv_ok env" using assms(2) by (simp add: prepo_valid_def)
  obtain q w where s: "seed_queue (se_lib env) ?n (sm_wl ?s) (sm_queue ?s) = Some (q, w)"
    and st: "st = fold (prepo_cold_batch env) (batch_order (se_Z env)) (?s\<lparr>sm_queue := q, sm_wl := w\<rparr>)"
    using assms(1) by (auto simp: prepo_init_def split: option.splits)
  let ?st = "?s\<lparr>sm_queue := q, sm_wl := w\<rparr>"
  have cfg: "mt_cfg (sm_wl ?s) = se_mt env" "0 \<le> mt_next_id (sm_wl ?s)" using b(1) by (simp_all add: prepo_ok_def core_ok_def)
  obtain rs where rs: "gq_q q = rs" "map r_id rs = map int [0..<?n]" "mt_next_id w = int ?n" "mt_cfg w = se_mt env" "mt_edge_cutoff w = cutoff"
    using seed_queue_result [OF s] b(3,4,5) cfg by auto
  have "\<forall>r \<in> set (gq_q q). rq_ok r" using seed_queue_ok [OF s e cfg] b(4) by simp
  then have ok: "prepo_ok env ?st" using b(1) rs by (simp add: prepo_ok_def core_ok_def core_counters_def)
  have "ids_of rs = mset (map int [0..<?n])" using rs(2) by (metis ids_of_def mset_map)
  then have every: "everyone (ps_abs ?st) = mset (map int [0..<?n])" "next_conv (ps_abs ?st) = int ?n"
    using b(6,7) rs by (simp_all add: ps_abs_def everyone_def concat_replicate_trivial)
  have "distinct (map int [0..<?n])" by (simp add: distinct_map)
  then have "\<forall>i. count (mset (map int [0..<?n])) i \<le> 1" by (metis distinct_count_atmost_1 le_refl zero_le)
  moreover have "0 \<le> i \<and> i < int ?n" if "i \<in># mset (map int [0..<?n])" for i using that by auto
  ultimately have u: "ids_unique (ps_abs ?st)" unfolding ids_unique_def every by blast
  have order: "\<forall>zb \<in> set (batch_order (se_Z env)). fst zb < se_Z env \<and> snd zb < 2" using batch_order_in by blast
  then have "\<forall>zb \<in> set (batch_order (se_Z env)). ps_batches ?st ! batch_ix (fst zb) (snd zb) = []"
    using batch_ix_less b(7) by simp
  note f = prepo_cold_fold [OF ok order this batch_order_distinct]
  have steps: "pop_steps (ps_abs ?st) (ps_abs st)" using f by (simp add: st)
  show "prepo_ok env st" using f by (simp add: st)
  have "batches_fit env ?st" using b(2) by (simp add: batches_fit_def)
  then show "batches_fit env st" using f by (simp add: st)
  show "ids_unique (ps_abs st)" "0 \<le> next_conv (ps_abs st)" using pop_steps_unique [OF steps u] every(2) by simp_all
  show "size (everyone (ps_abs st)) = ?n" using pop_steps_size [OF steps] every(1) by simp
  show "mt_edge_cutoff (sm_wl st) = cutoff" using f rs(5) by (simp add: st)
qed

lemma prepo_run_ok:
  assumes "prepo_run env a cfg cutoff backlog n = Some st" and "prepo_valid env"
  shows "prepo_ok env st" "batches_fit env st" "ids_unique (ps_abs st)"
    "size (everyone (ps_abs st)) = nat (prepo_seed_pop env backlog)"
proof -
  have e: "simenv_ok env" using assms(2) by (simp add: prepo_valid_def)
  obtain st0 where i: "prepo_init env backlog (prepo_state env a cfg cutoff) = Some st0" and l: "prepo_loop env n 0 st0 = Some st"
    using assms(1) by (auto simp: prepo_run_def split: option.splits)
  note b = prepo_init_ok [OF i assms(2)]
  note s = prepo_loop_ok [OF l b(1) e]
  show "prepo_ok env st" "batches_fit env st" using s b(2) by blast+
  have steps: "pop_steps (ps_abs st0) (ps_abs st)" using s by blast
  show "ids_unique (ps_abs st)" using pop_steps_unique [OF steps b(3,4)] by blast
  show "size (everyone (ps_abs st)) = nat (prepo_seed_pop env backlog)" using pop_steps_size [OF steps] b(5) by simp
qed

section \<open>Returning\<close>

abbreviation prepo_cut :: "'g SimEnv \<Rightarrow> 'g PrepoState \<Rightarrow> bool" where
  "prepo_cut env st \<equiv> cutoff_ok (se_lib env) (mt_edge_cutoff (sm_wl st))"

lemma prepo_retire_returns:
  assumes "prepo_cut env st"
  shows "\<exists>keep gone st'. retire_with pd_finished (prepo_complete env z now) pl st = Some (keep, gone, st') \<and> prepo_cut env st'"
proof (rule retire_with_returns [where I = "prepo_cut env", OF assms])
  fix q and s :: "'a PrepoState" assume "prepo_cut env s"
  then show "\<exists>st'. prepo_complete env z now q s = Some st' \<and> prepo_cut env st'"
    using sim_finish_returns [of env "s\<lparr>sm_cache := on_complete z (pd_id q) (pd_prompt q + pd_dec q) now (sm_cache s)\<rparr>"]
    by (fastforce simp: prepo_complete_def Let_def)
qed

lemma pp_fill_wl: "pp_fill pull env now it pp batch st = (batch', st') \<Longrightarrow> sm_wl st' = sm_wl st"
proof (induction pull env now it pp batch st rule: pp_fill.induct)
  case (1 pull env now it pp batch st)
  obtain r q where p: "pull (sm_queue st) (next_ideal pp) = (r, q)" by fastforce
  obtain met st1 where s: "serve_ttft env r now it (st\<lparr>sm_queue := q\<rparr>) = (met, st1)" by fastforce
  show ?case
  proof (cases "\<not> pp_done pp \<and> \<not> r_id r < 0")
    case True
    then have "pp_fill pull env now it (pp_place (r_prompt r) pp) (batch @ [pd_decoder_of r met]) st1 = (batch', st')"
      using 1(2) p s by (simp add: pp_fill.simps [of pull env now it pp batch st] Let_def)
    from 1(1) [OF _ p [symmetric] refl _ s [symmetric] this] True serve_ttft_same [OF s] show ?thesis by (simp add: sm_same_def)
  next
    case False
    with 1(2) p show ?thesis by (auto simp: pp_fill.simps [of pull env now it pp batch st] Let_def split: if_splits)
  qed
qed

lemma prepo_batches_returns: "prepo_cut env st \<Longrightarrow> \<exists>st'. prepo_batches env it zbs st = Some st' \<and> prepo_cut env st'"
proof (induction zbs arbitrary: st)
  case (Cons zb zbs)
  let ?i = "batch_ix (fst zb) (snd zb)"
  let ?st = "prepo_record env it (snd zb) (ps_batches st ! ?i) st"
  have "prepo_cut env ?st" using Cons.prems prepo_record_same [of st env it "snd zb" "ps_batches st ! ?i"] by (simp add: sm_same_def)
  from prepo_retire_returns [OF this, of "fst zb" it "prepo_advance (ps_batches st ! ?i)"] obtain keep gone st1 where
    r: "retire_with pd_finished (prepo_complete env (fst zb) it) (prepo_advance (ps_batches st ! ?i)) ?st = Some (keep, gone, st1)"
    "prepo_cut env st1" by blast
  obtain batch st2 where f: "prepo_refill env it it keep st1 = (batch, st2)" by fastforce
  have "sm_wl st2 = sm_wl st1" using pp_fill_wl [OF f [unfolded prepo_refill_def]] .
  then have "prepo_cut env (st2\<lparr>ps_batches := (ps_batches st2)[?i := batch]\<rparr>)" using r(2) by simp
  from Cons.IH [OF this] r(1) f show ?case by (simp add: prepo_batch_step_def Let_def)
qed simp

lemma prepo_round_returns: "prepo_cut env st \<Longrightarrow> \<exists>st'. prepo_round env it st = Some st' \<and> prepo_cut env st'"
proof -
  assume "prepo_cut env st"
  then have "prepo_cut env (sim_arrivals it st)" by (simp add: sim_arrivals_def Let_def split: prod.split)
  from prepo_batches_returns [OF this, of it "batch_order (se_Z env)"] obtain st1 where
    s: "prepo_batches env it (batch_order (se_Z env)) (sim_arrivals it st) = Some st1" "prepo_cut env st1" by blast
  with prepo_diagnose_same [of st1 env it] show ?thesis by (simp add: prepo_round_def sm_same_def)
qed

lemma prepo_loop_returns: "prepo_cut env st \<Longrightarrow> \<exists>st'. prepo_loop env n it st = Some st' \<and> prepo_cut env st'"
proof (induction n arbitrary: it st)
  case (Suc n)
  obtain st1 where "prepo_round env it st = Some st1" "prepo_cut env st1" using prepo_round_returns [OF Suc.prems] by blast
  with Suc.IH [of st1 "it + 1"] show ?case by simp
qed simp

lemma prepo_run_some:
  assumes "cutoff_ok (se_lib env) cutoff" and "prepo_valid env"
  shows "\<exists>st. prepo_run env a cfg cutoff backlog n = Some st \<and> prepo_cut env st"
proof -
  let ?s = "prepo_state env a cfg cutoff"
  have "prepo_cut env ?s" using assms prepo_state_ok(5) [OF assms(2)] by simp
  from seed_queue_returns [OF this, of "nat (prepo_seed_pop env backlog)" "sm_queue ?s"]
  obtain st0 where i: "prepo_init env backlog ?s = Some st0" by (auto simp: prepo_init_def)
  have "prepo_cut env st0" using prepo_init_ok(6) [OF i assms(2)] assms(1) by simp
  from prepo_loop_returns [OF this] i show ?thesis by (simp add: prepo_run_def)
qed

section \<open>Properties\<close>

lemma demo_prepo_valid: "prepo_valid demo_sim"
proof -
  have "0 \<le> node_cache_capacity_bytes demo_op + surplus_kv_bytes (small_deployment\<lparr>d_op := demo_op\<rparr>)
    \<and> 0 \<le> kv_bytes_per_token (d_model (small_deployment\<lparr>d_op := demo_op\<rparr>))" by code_simp
  then show ?thesis using demo_sim_ok by (simp add: prepo_valid_def prepo_cache_cap_def) (simp add: demo_sim_def)
qed

lemma demo_prepo_run: "\<exists>st st'. prepo_run demo_sim demo_args default_sim 100000 9 n = Some st \<and> prepo_ok demo_sim st
    \<and> prepo_round demo_sim (int n) st = Some st'"
proof -
  have "cutoff_ok (se_lib demo_sim) 100000" by (simp add: demo_sim_def toy_cutoff)
  from prepo_run_some [OF this demo_prepo_valid] obtain st where
    r: "prepo_run demo_sim demo_args default_sim 100000 9 n = Some st" "prepo_cut demo_sim st" by blast
  with prepo_run_ok(1) [OF r(1) demo_prepo_valid] prepo_round_returns [OF r(2), of "int n"] show ?thesis by blast
qed

text \<open>C12: Refinement: a round of the pre-positioning driver is a sequence of steps of the abstract cluster,
  without lines, and keeps the state well formed.\<close>
theorem prepo_round_refines:
  assumes "prepo_round env it st = Some st'" and "prepo_ok env st" and "simenv_ok env"
  shows "pop_steps (ps_abs st) (ps_abs st') \<and> prepo_ok env st'"
  using prepo_round_ok [OF assms] by blast

theorem prepo_round_refines_witness:
  "\<exists>st st'. prepo_run demo_sim demo_args default_sim 100000 9 3 = Some st \<and> prepo_round demo_sim 3 st = Some st'
     \<and> pop_steps (ps_abs st) (ps_abs st')"
proof -
  obtain st st' where s: "prepo_run demo_sim demo_args default_sim 100000 9 3 = Some st" "prepo_ok demo_sim st"
    "prepo_round demo_sim 3 st = Some st'" using demo_prepo_run [of 3] by auto
  from prepo_round_refines [OF s(3,2) demo_sim_ok] s show ?thesis by blast
qed

text \<open>C14: One identity each: in every state of a run all conversations, wherever they are, have different ids
  below the workload's counter, and there are as many as were seeded: none is lost or duplicated.\<close>
theorem prepo_ids_unique:
  assumes "prepo_run env a cfg cutoff backlog n = Some st" and "prepo_valid env"
  shows "ids_unique (ps_abs st) \<and> size (everyone (ps_abs st)) = nat (int (se_Z env) * node_min (se_op env) + backlog)"
  using prepo_run_ok(3,4) [OF assms] by (simp add: prepo_seed_pop_def)

theorem prepo_ids_unique_witness:
  "\<exists>st. prepo_run demo_sim demo_args default_sim 100000 9 5 = Some st \<and> ids_unique (ps_abs st)
     \<and> size (everyone (ps_abs st)) = nat (2 * node_min demo_op + 9)"
proof -
  obtain st where s: "prepo_run demo_sim demo_args default_sim 100000 9 5 = Some st" using demo_prepo_run [of 5] by blast
  from prepo_ids_unique [OF s demo_prepo_valid] s show ?thesis by (simp add: demo_sim_def)
qed



text \<open>C13: The composer is its specification: refilling a batch by the running sum of \<open>Preposition\<close> gives, pull by pull,
  what one gets by asking for an equal share of what the decoders in the batch leave of the KV target,
  computed anew for every slot, as long as the batch stays below \<open>2 ^ 53\<close> tokens.\<close>
theorem prepo_refill_share:
  assumes "core_ok env st" and "\<forall>q \<in> set batch. pd_ok q" and "\<forall>r \<in> set (gq_q (sm_queue st)). r_prompt r \<le> b" and "0 \<le> b"
    and "batch_kv batch + max 0 (decode_count_target (se_op env) - int (length batch)) * b \<le> 2 ^ 53"
  shows "prepo_refill env now it batch st = fill_ref (\<lambda>g ideal. gq_pull_slot g ideal (se_cap_room env) now) env now it batch st"
  unfolding prepo_refill_def
proof (rule slot_pull.fill_is_ref [OF assms(1,2) _ _ _ assms(3,4)])
  let ?pp = "make_preposition (survivors_sum batch) (int (length batch)) (se_op env)"
  have "0 \<le> max 0 (decode_count_target (se_op env) - int (length batch)) * b" using assms(4) by simp
  then have "batch_kv batch \<le> 2 ^ 53" using assms(5) by linarith
  then show "pp_sum ?pp = dbl (batch_kv batch)" using survivors_sum_exact [OF assms(2)] by (simp add: make_preposition_def)
  show "pp_slots_left ?pp = decode_count_target (se_op env) - int (length batch)" "pp_kv_target ?pp = kv_operating_target (se_op env)"
    "batch_kv batch + max 0 (pp_slots_left ?pp) * b \<le> 2 ^ 53" using assms(5) by (simp_all add: make_preposition_def)
qed

text \<open>A batch of four with one survivor: the shares asked for are 20000, then 22000, then 14000.\<close>

definition share_sim :: "nat SimEnv" where
  "share_sim = demo_sim\<lparr>se_op := demo_op\<lparr>decode_count_target := 4\<rparr>\<rparr>"

definition share_state :: "nat PrepoState" where
  "share_state = (prepo_state demo_sim demo_args default_sim 100000)\<lparr>sm_queue :=
     \<lparr>gq_q = [small_request 5 30000 2, small_request 6 5000 2, small_request 7 33000 2, small_request 8 16000 2],
      gq_age_cap = 25, gq_forced = 0\<rparr>\<rparr>"

definition share_batch :: "PpDecoder list" where
  "share_batch = [pd_decoder_of (small_request 0 40000 0) True]"

lemma share_ok: "core_ok share_sim share_state"
  using prepo_state_ok(1) [OF demo_prepo_valid, of demo_args default_sim 100000]
  by (simp add: prepo_ok_def core_ok_def core_counters_def share_sim_def share_state_def rq_ok_def small_request_def)

theorem prepo_refill_share_witness:
  "prepo_refill share_sim 3 3 share_batch share_state
     = fill_ref (\<lambda>g ideal. gq_pull_slot g ideal 600000 3) share_sim 3 3 share_batch share_state
   \<and> map pd_id (fst (prepo_refill share_sim 3 3 share_batch share_state)) = [0, 8, 5, 6]
   \<and> map r_id (gq_q (sm_queue (snd (prepo_refill share_sim 3 3 share_batch share_state)))) = [7]"
proof -
  have room: "se_cap_room share_sim = 600000" by (simp add: share_sim_def demo_sim_def)
  have d: "\<forall>q \<in> set share_batch. pd_ok q" by (simp add: share_batch_def pd_ok_def pd_decoder_of_def small_request_def)
  have q: "\<forall>r \<in> set (gq_q (sm_queue share_state)). r_prompt r \<le> 33000" by (simp add: share_state_def small_request_def)
  have f: "batch_kv share_batch + max 0 (decode_count_target (se_op share_sim) - int (length share_batch)) * 33000 \<le> 2 ^ 53"
    by (simp add: share_batch_def batch_kv_def pd_decoder_of_def small_request_def share_sim_def pd_live_kv_def)
  have "map pd_id (fst (prepo_refill share_sim 3 3 share_batch share_state)) = [0, 8, 5, 6]"
    "map r_id (gq_q (sm_queue (snd (prepo_refill share_sim 3 3 share_batch share_state)))) = [7]" by code_simp+
  then show ?thesis using prepo_refill_share [OF share_ok d q _ f, where now = 3 and it = 3] unfolding room by simp
qed

text \<open>The pre-positioning driver returns: if from every state of the random generator some draw is within the
  edge cutoff, the seed, the cold start and any number of rounds end with a state.\<close>
theorem prepo_returns:
  assumes "cutoff_ok (se_lib env) cutoff" and "prepo_valid env" shows "\<exists>st. prepo_run env a cfg cutoff backlog n = Some st"
  using prepo_run_some [OF assms] by blast

theorem prepo_returns_witness: "\<exists>st. prepo_run demo_sim demo_args default_sim 100000 300 4000 = Some st"
  by (rule prepo_returns [OF _ demo_prepo_valid]) (simp add: demo_sim_def toy_cutoff)

end
