(* ===== verification/Lifecycle.thy ===== *)
theory Lifecycle
  imports Driver_Base
begin

text \<open>
  \<open>sim/lifecycle.cpp\<close>: the whole life of a request inside a node. A prefill pool hands its
  tokens to two micro-batches over different requests; what is prefilled is ready and becomes
  a decoder when one finishes; without a ready one the hole is refilled from the node's
  source. The state of the nodes, the counters, the tallies of a round and of the whole run
  are records; the loops that draw a length may not end and give an option.
\<close>

section \<open>Decoders and prefill requests\<close>

record LcDecoder =
  ld_prompt :: int
  ld_dtot :: int
  ld_dec :: int
  ld_wait :: int

record SimPrefill =
  sp_prompt :: int
  sp_dtot :: int
  sp_processed :: int
  sp_wait :: int

definition ld_live_kv :: "LcDecoder \<Rightarrow> int" where
  "ld_live_kv q = ld_prompt q + ld_dec q"

definition cls :: "int \<Rightarrow> nat" where
  "cls prompt = (if prompt < 16000 then 0 else if prompt < 256000 then 1 else 2)"

definition fresh_decoder :: "int \<Rightarrow> int \<Rightarrow> LcDecoder" where
  "fresh_decoder prompt dtot = \<lparr>ld_prompt = prompt, ld_dtot = dtot, ld_dec = 0, ld_wait = 0\<rparr>"

text \<open>The length admitted, or \<open>None\<close> for the -1 of a dry source.\<close>

definition admit_hole ::
  "'g Lib \<Rightarrow> OperatingPoint \<Rightarrow> int \<Rightarrow> LcDecoder list \<Rightarrow> 'g WorkloadSource
   \<Rightarrow> int option \<times> LcDecoder list \<times> 'g WorkloadSource" where
  "admit_hole lib op hole pl s =
     (let cap_room = decode_pool op * to_ll (ctx_balance op) * 4
      in case workload_pull_near lib s (dbl hole) cap_room of
           (r, s) \<Rightarrow>
             if req_prompt r < 0 then (None, pl, s)
             else (Some (req_prompt r), pl @ [fresh_decoder (req_prompt r) (req_dtot r)], s))"

text \<open>A decode batch: what it takes, the mask after it, its KV sum, its deviation, and whether it hits.\<close>

record BatchView =
  bv_sel :: "nat list"
  bv_sum :: int
  bv_dev :: double
  bv_hit :: bool

definition lc_compose_batch :: "OperatingPoint \<Rightarrow> LcDecoder list \<Rightarrow> bool list \<Rightarrow> BatchView \<times> bool list" where
  "lc_compose_batch op pl used =
     (case steer_decode_set (map (\<lambda>q. \<lparr>kv_length = ld_live_kv q, wait = ld_wait q\<rparr>) pl) used op of
        (sel, used) \<Rightarrow>
          let S = fold (\<lambda>i s. s + ld_live_kv (pl ! i)) sel 0;
              dev = \<bar>dbl S - dbl (kv_operating_target op)\<bar> / dbl (kv_operating_target op)
          in (\<lparr>bv_sel = sel, bv_sum = S, bv_dev = dev,
               bv_hit = (int (length sel) = decode_count_target op \<and> dev \<le> idle_band op)\<rparr>, used))"

definition sample_dtot :: "'g Lib \<Rightarrow> 'g \<Rightarrow> int \<times> 'g" where
  "sample_dtot lib g = (case lib_uni lib g of (u, g) \<Rightarrow> (256 + to_i32 (u * dlit 3840), g))"

section \<open>The edge\<close>

fun max_element :: "int list \<Rightarrow> int" where
  "max_element [] = 0"
| "max_element (x # xs) = fold (\<lambda>y m. if m < y then y else m) xs x"

definition lc_edge :: "int list \<Rightarrow> OperatingPoint \<Rightarrow> int \<times> double" where
  "lc_edge big op =
     (let g0 = gate big op
      in (if kept g0 = [] then to_i32 (ctx_balance op) else max_element (kept g0),
          if big = [] then dlit 0 else dbl (int (length (edged g0))) / dbl (int (length big))))"

section \<open>The state\<close>

record 'g LcEnv =
  le_lib :: "'g Lib"
  le_op :: OperatingPoint
  le_Z :: nat
  le_iters :: int
  le_warm :: int
  le_k :: int
  le_seed :: nat
  le_cutoff :: int
  le_edge_frac :: double

record 'g LcNode =
  ln_dec :: "LcDecoder list"
  ln_pf :: "SimPrefill list"
  ln_ready :: "SimPrefill list"
  ln_src :: "'g WorkloadSource"

record LcCount =
  lc_admit_cls :: "int list"
  lc_comp_cls :: "int list"
  lc_transitions :: int
  lc_completions :: int

record 'g LcState =
  lc_nodes :: "'g LcNode list"
  lc_pf_rng :: 'g
  lc_count :: LcCount

text \<open>The measures of a round (\<open>rDecHit\<close>, ...); the sums over the run (\<open>accDecHit\<close>, ...) have the same fields.\<close>

record LcTally =
  t_dec_hit :: double
  t_dec_dev :: double
  t_pf_hit :: double
  t_pf_dev :: double
  t_pf1_hit :: double
  t_pf1_dev :: double
  t_pf2_hit :: double
  t_pf2_dev :: double
  t_dec_mean :: double
  t_dec_pool :: double
  t_ready :: double
  t_pf_pool :: double
  t_resid :: "double list"
  t_aged_dec :: double
  t_aged_pf :: double
  t_forced :: double
  t_sel :: double
  t_max_dev :: double
  t_miss_dev :: double
  t_miss :: int
  t_b1cm :: int
  t_b1dm :: int
  t_b2cm :: int
  t_b2dm :: int

definition zero_tally :: LcTally where
  "zero_tally = \<lparr>t_dec_hit = dlit 0, t_dec_dev = dlit 0, t_pf_hit = dlit 0, t_pf_dev = dlit 0, t_pf1_hit = dlit 0,
     t_pf1_dev = dlit 0, t_pf2_hit = dlit 0, t_pf2_dev = dlit 0, t_dec_mean = dlit 0, t_dec_pool = dlit 0, t_ready = dlit 0,
     t_pf_pool = dlit 0, t_resid = [dlit 0, dlit 0, dlit 0], t_aged_dec = dlit 0, t_aged_pf = dlit 0, t_forced = dlit 0,
     t_sel = dlit 0, t_max_dev = dlit 0, t_miss_dev = dlit 0, t_miss = 0, t_b1cm = 0, t_b1dm = 0, t_b2cm = 0, t_b2dm = 0\<rparr>"

definition bump :: "nat \<Rightarrow> int list \<Rightarrow> int list" where
  "bump c xs = xs[c := xs ! c + 1]"

definition count_admit :: "int \<Rightarrow> LcCount \<Rightarrow> LcCount" where
  "count_admit p k = k\<lparr>lc_admit_cls := bump (cls p) (lc_admit_cls k)\<rparr>"

definition count_done :: "LcDecoder \<Rightarrow> LcCount \<Rightarrow> LcCount" where
  "count_done q k = k\<lparr>lc_completions := lc_completions k + 1, lc_comp_cls := bump (cls (ld_prompt q)) (lc_comp_cls k)\<rparr>"

section \<open>The start\<close>

text \<open>The lengths the cold start gave to a node become decoders.\<close>

fun cold_decoders :: "'g Lib \<Rightarrow> int list \<Rightarrow> 'g \<Rightarrow> LcDecoder list \<Rightarrow> LcCount \<Rightarrow> LcDecoder list \<times> 'g \<times> LcCount" where
  "cold_decoders lib [] g pl k = (pl, g, k)"
| "cold_decoders lib (prompt # ps) g pl k =
     (case sample_dtot lib g of
        (d, g) \<Rightarrow> cold_decoders lib ps g (pl @ [fresh_decoder prompt d]) (count_admit prompt k))"

text \<open>At most \<open>n = decode_pool - size\<close> iterations, as each admits one decoder.\<close>

fun cold_top_up ::
  "nat \<Rightarrow> 'g Lib \<Rightarrow> OperatingPoint \<Rightarrow> 'g \<Rightarrow> LcDecoder list \<Rightarrow> 'g WorkloadSource \<Rightarrow> LcCount
   \<Rightarrow> LcDecoder list \<times> 'g WorkloadSource \<times> LcCount" where
  "cold_top_up 0 lib op g pl s k = (pl, s, k)"
| "cold_top_up (Suc n) lib op g pl s k =
     (case (if pl = [] then (to_i32 (ctx_balance op), g)
            else (case lib_next lib g of (v, g) \<Rightarrow> (ld_prompt (pl ! (v mod length pl)), g))) of
        (hole, g) \<Rightarrow>
          (case admit_hole lib op hole pl s of
             (None, pl, s) \<Rightarrow> (pl, s, k)
           | (Some p, pl, s) \<Rightarrow> cold_top_up n lib op g pl s (count_admit p k)))"

definition lc_cold_node :: "'g LcEnv \<Rightarrow> ClusterNode list \<Rightarrow> nat \<Rightarrow> LcCount \<Rightarrow> 'g LcNode \<times> LcCount" where
  "lc_cold_node env cnodes z k =
     (let lib = le_lib env; op = le_op env;
          lens = cn_lengths (cnodes ! z);
          take_n = min (int (length lens)) (decode_pool op)
      in case cold_decoders lib (take (nat take_n) lens) (lib_seed lib (le_seed env + 200 + z)) [] k of
           (pl, g, k) \<Rightarrow>
             (case cold_top_up (nat (decode_pool op - int (length pl))) lib op g pl
                 (make_workload lib (le_seed env + 100 + z) (le_k env)) k of
                (pl, s, k) \<Rightarrow> (\<lparr>ln_dec = pl, ln_pf = [], ln_ready = [], ln_src = s\<rparr>, k)))"

fun lc_cold_nodes :: "'g LcEnv \<Rightarrow> ClusterNode list \<Rightarrow> nat list \<Rightarrow> LcCount \<Rightarrow> 'g LcNode list \<times> LcCount" where
  "lc_cold_nodes env cnodes [] k = ([], k)"
| "lc_cold_nodes env cnodes (z # zs) k =
     (case lc_cold_node env cnodes z k of
        (nd, k) \<Rightarrow> (case lc_cold_nodes env cnodes zs k of (nds, k) \<Rightarrow> (nd # nds, k)))"

definition lc_cold_start :: "'g LcEnv \<Rightarrow> 'g LcNode list \<times> LcCount" where
  "lc_cold_start env =
     (let lib = le_lib env; op = le_op env;
          draw = fst (draw_list lib (nat (int (le_Z env) * decode_pool op * 2)) (lib_seed lib (le_seed env)));
          cnodes = fst (cold_start (lib_shuffle lib) (kept (gate draw op))
            (replicate (le_Z env) \<lparr>cn_lengths = [], cn_total = 0\<rparr>) op (le_seed env + 50))
      in lc_cold_nodes env cnodes [0..<le_Z env]
           \<lparr>lc_admit_cls = [0, 0, 0], lc_comp_cls = [0, 0, 0], lc_transitions = 0, lc_completions = 0\<rparr>)"

text \<open>The prefill pools start at various depths.\<close>

fun pf_start :: "nat \<Rightarrow> 'g Lib \<Rightarrow> int \<Rightarrow> 'g \<Rightarrow> SimPrefill list \<Rightarrow> (SimPrefill list \<times> 'g) option" where
  "pf_start 0 lib cutoff g pf = Some (pf, g)"
| "pf_start (Suc n) lib cutoff g pf =
     (case gated_sample lib cutoff g of
        None \<Rightarrow> None
      | Some (prompt, g) \<Rightarrow>
          (case sample_dtot lib g of
             (d, g) \<Rightarrow>
               (case lib_uni lib g of
                  (u, g) \<Rightarrow> pf_start n lib cutoff g
                    (pf @ [\<lparr>sp_prompt = prompt, sp_dtot = d, sp_processed = to_i32 (u * dbl prompt), sp_wait = 0\<rparr>]))))"

fun pf_start_nodes :: "'g LcEnv \<Rightarrow> 'g LcNode list \<Rightarrow> 'g \<Rightarrow> ('g LcNode list \<times> 'g) option" where
  "pf_start_nodes env [] g = Some ([], g)"
| "pf_start_nodes env (nd # nds) g =
     (case pf_start (nat (prefill_pool (le_op env))) (le_lib env) (le_cutoff env) g (ln_pf nd) of
        None \<Rightarrow> None
      | Some (pf, g) \<Rightarrow>
          (case pf_start_nodes env nds g of None \<Rightarrow> None | Some (nds, g) \<Rightarrow> Some (nd\<lparr>ln_pf := pf\<rparr> # nds, g)))"

definition lc_init :: "'g LcEnv \<Rightarrow> 'g LcState option" where
  "lc_init env =
     (case lc_cold_start env of
        (nds, k) \<Rightarrow>
          (case pf_start_nodes env nds (lib_seed (le_lib env) (le_seed env + 300)) of
             None \<Rightarrow> None
           | Some (nds, g) \<Rightarrow> Some \<lparr>lc_nodes = nds, lc_pf_rng = g, lc_count = k\<rparr>))"

section \<open>Prefill\<close>

record PfView =
  pv_chunk :: "int list"
  pv_dev :: double
  pv_hit :: bool

text \<open>A masked request pretends to be done, so that steering passes it over.\<close>

definition pf_requests :: "bool list \<Rightarrow> SimPrefill list \<Rightarrow> PrefillReq list" where
  "pf_requests msk pf =
     map (\<lambda>i. if msk ! i then \<lparr>pr_prompt = sp_prompt (pf ! i), pr_processed = sp_prompt (pf ! i), pr_wait = 0\<rparr>
              else \<lparr>pr_prompt = sp_prompt (pf ! i), pr_processed = sp_processed (pf ! i), pr_wait = sp_wait (pf ! i)\<rparr>)
       [0..<length pf]"

definition pf_measure :: "SimPrefill list \<Rightarrow> int list \<Rightarrow> nat \<Rightarrow> double \<times> int \<Rightarrow> double \<times> int" where
  "pf_measure pf chunk i WT =
     (let c = chunk ! i; p0 = sp_processed (pf ! i)
      in if 0 < c then (fst WT + (dbl c * dbl p0 + dbl c * dbl (c + 1) / dlit 2), snd WT + c) else WT)"

definition pf_steer_once :: "OperatingPoint \<Rightarrow> SimPrefill list \<Rightarrow> bool list \<Rightarrow> PfView" where
  "pf_steer_once op pf msk =
     (let chunk = steer_prefill_chunks (pf_requests msk pf) op
      in case fold (pf_measure pf chunk) [0..<length pf] (dlit 0, 0) of
           (W, T) \<Rightarrow>
             let dev = \<bar>W - dbl (prefill_kv_work_target op)\<bar> / dbl (prefill_kv_work_target op)
             in \<lparr>pv_chunk = chunk, pv_dev = dev, pv_hit = (T = prefill_tokens op \<and> dev \<le> idle_band op)\<rparr>)"

text \<open>The requests of the first micro-batch are masked for the second.\<close>

definition pf_two :: "OperatingPoint \<Rightarrow> SimPrefill list \<Rightarrow> PfView \<times> PfView" where
  "pf_two op pf =
     (let b1 = pf_steer_once op pf (replicate (length pf) False);
          b2 = pf_steer_once op pf (map (\<lambda>i. 0 < pv_chunk b1 ! i) [0..<length pf])
      in (b1, b2))"

definition pf_progress :: "int list \<Rightarrow> int list \<Rightarrow> SimPrefill list \<Rightarrow> SimPrefill list" where
  "pf_progress chunk1 chunk2 pf =
     map (\<lambda>i. let c = chunk1 ! i + chunk2 ! i; q = pf ! i
              in if 0 < c then q\<lparr>sp_processed := sp_processed q + c, sp_wait := 0\<rparr> else q\<lparr>sp_wait := sp_wait q + 1\<rparr>)
       [0..<length pf]"

definition pf_complete :: "SimPrefill \<Rightarrow> bool" where
  "pf_complete q \<longleftrightarrow> sp_prompt q \<le> sp_processed q"

fun pf_refill :: "nat \<Rightarrow> 'g Lib \<Rightarrow> int \<Rightarrow> 'g \<Rightarrow> SimPrefill list \<Rightarrow> (SimPrefill list \<times> 'g) option" where
  "pf_refill 0 lib cutoff g pf = Some (pf, g)"
| "pf_refill (Suc n) lib cutoff g pf =
     (case gated_sample lib cutoff g of
        None \<Rightarrow> None
      | Some (prompt, g) \<Rightarrow>
          (case sample_dtot lib g of
             (d, g) \<Rightarrow> pf_refill n lib cutoff g
               (pf @ [\<lparr>sp_prompt = prompt, sp_dtot = d, sp_processed = 0, sp_wait = 0\<rparr>])))"

section \<open>Decode\<close>

text \<open>The two batches of a round; the second one only over a pool of two full batches.\<close>

definition lc_batches :: "OperatingPoint \<Rightarrow> LcDecoder list \<Rightarrow> BatchView \<times> BatchView option \<times> bool list" where
  "lc_batches op dec =
     (case lc_compose_batch op dec (replicate (length dec) False) of
        (b1, used) \<Rightarrow>
          if 2 * decode_count_target op \<le> int (length dec)
          then (case lc_compose_batch op dec used of (b2, used) \<Rightarrow> (b1, Some b2, used))
          else (b1, None, used))"

definition ld_advance :: "bool list \<Rightarrow> LcDecoder list \<Rightarrow> LcDecoder list" where
  "ld_advance used dec =
     map (\<lambda>i. if used ! i then (dec ! i)\<lparr>ld_dec := ld_dec (dec ! i) + 1, ld_wait := 0\<rparr>
              else (dec ! i)\<lparr>ld_wait := ld_wait (dec ! i) + 1\<rparr>) [0..<length dec]"

definition ld_done :: "LcDecoder \<Rightarrow> bool" where
  "ld_done q \<longleftrightarrow> ld_dtot q \<le> ld_dec q"

text \<open>The last ready request becomes a decoder.\<close>

definition ready_decoder :: "'g LcNode \<Rightarrow> LcCount \<Rightarrow> 'g LcNode \<times> LcCount" where
  "ready_decoder nd k =
     (let t = last (ln_ready nd)
      in (nd\<lparr>ln_ready := butlast (ln_ready nd), ln_dec := ln_dec nd @ [fresh_decoder (sp_prompt t) (sp_dtot t)]\<rparr>,
          count_admit (sp_prompt t) (k\<lparr>lc_transitions := lc_transitions k + 1\<rparr>)))"

text \<open>Each hole takes a ready request, or else a like one of the source; a dry source ends the healing.\<close>

fun lc_heal :: "'g Lib \<Rightarrow> OperatingPoint \<Rightarrow> int list \<Rightarrow> 'g LcNode \<Rightarrow> LcCount \<Rightarrow> 'g LcNode \<times> LcCount" where
  "lc_heal lib op [] nd k = (nd, k)"
| "lc_heal lib op (hole # holes) nd k =
     (if ln_ready nd \<noteq> [] then (case ready_decoder nd k of (nd, k) \<Rightarrow> lc_heal lib op holes nd k)
      else (case admit_hole lib op hole (ln_dec nd) (ln_src nd) of
              (None, pl, s) \<Rightarrow> (nd\<lparr>ln_dec := pl, ln_src := s\<rparr>, k)
            | (Some p, pl, s) \<Rightarrow> lc_heal lib op holes (nd\<lparr>ln_dec := pl, ln_src := s\<rparr>) (count_admit p k)))"

function lc_absorb :: "OperatingPoint \<Rightarrow> 'g LcNode \<Rightarrow> LcCount \<Rightarrow> 'g LcNode \<times> LcCount" where
  "lc_absorb op nd k =
     (if int (length (ln_dec nd)) < decode_pool op \<and> ln_ready nd \<noteq> []
      then (case ready_decoder nd k of (nd, k) \<Rightarrow> lc_absorb op nd k)
      else (nd, k))"
  by pat_completeness auto
termination
  by (relation "measure (\<lambda>(op, nd, k). length (ln_ready nd))") (auto simp: ready_decoder_def Let_def)

declare lc_absorb.simps [simp del]

text \<open>Advance, retire and heal.\<close>

definition lc_turnover :: "'g LcEnv \<Rightarrow> bool list \<Rightarrow> 'g LcNode \<Rightarrow> LcCount \<Rightarrow> 'g LcNode \<times> LcCount" where
  "lc_turnover env used nd k =
     (let dec = ld_advance used (ln_dec nd);
          gone = filter ld_done dec;
          k = fold count_done gone k
      in case lc_heal (le_lib env) (le_op env) (map ld_prompt gone) (nd\<lparr>ln_dec := filter (\<lambda>q. \<not> ld_done q) dec\<rparr>) k of
           (nd, k) \<Rightarrow> lc_absorb (le_op env) nd k)"

section \<open>Measures\<close>

definition one_if :: "bool \<Rightarrow> double" where
  "one_if b = (if b then dlit 1 else dlit 0)"

text \<open>The share of a list that satisfies a condition, 0 of an empty list.\<close>

definition share :: "('a \<Rightarrow> bool) \<Rightarrow> 'a list \<Rightarrow> double" where
  "share P xs = (if xs = [] then dlit 0 else dbl (int (length (filter P xs))) / dbl (int (length xs)))"

definition tally_prefill :: "OperatingPoint \<Rightarrow> SimPrefill list \<Rightarrow> PfView \<Rightarrow> PfView \<Rightarrow> LcTally \<Rightarrow> LcTally" where
  "tally_prefill op pf b1 b2 t =
     t\<lparr>t_aged_pf := t_aged_pf t + share (\<lambda>q. age_cap op \<le> sp_wait q) pf,
       t_pf1_hit := t_pf1_hit t + one_if (pv_hit b1), t_pf1_dev := t_pf1_dev t + pv_dev b1,
       t_pf2_hit := t_pf2_hit t + one_if (pv_hit b2), t_pf2_dev := t_pf2_dev t + pv_dev b2,
       t_pf_hit := t_pf_hit t + (one_if (pv_hit b1) + one_if (pv_hit b2)) / dlit 2,
       t_pf_dev := t_pf_dev t + (pv_dev b1 + pv_dev b2) / dlit 2\<rparr>"

text \<open>The worst deviation, and the misses by batch and by cause.\<close>

definition tally_batch :: "OperatingPoint \<Rightarrow> bool \<Rightarrow> BatchView \<Rightarrow> LcTally \<Rightarrow> LcTally" where
  "tally_batch op second b t =
     (let t = (if t_max_dev t < bv_dev b then t\<lparr>t_max_dev := bv_dev b\<rparr> else t)
      in if bv_hit b then t
         else (let t = t\<lparr>t_miss_dev := t_miss_dev t + bv_dev b, t_miss := t_miss t + 1\<rparr>
               in if int (length (bv_sel b)) \<noteq> decode_count_target op
                  then (if second then t\<lparr>t_b2cm := t_b2cm t + 1\<rparr> else t\<lparr>t_b1cm := t_b1cm t + 1\<rparr>)
                  else (if second then t\<lparr>t_b2dm := t_b2dm t + 1\<rparr> else t\<lparr>t_b1dm := t_b1dm t + 1\<rparr>)))"

definition tally_decode :: "OperatingPoint \<Rightarrow> LcDecoder list \<Rightarrow> BatchView \<Rightarrow> BatchView option \<Rightarrow> LcTally \<Rightarrow> LcTally" where
  "tally_decode op dec b1 b2 t =
     (let forced = length (filter (\<lambda>i. age_cap op \<le> ld_wait (dec ! i)) (bv_sel b1));
          (h2, dv2) = (case b2 of None \<Rightarrow> (False, dlit 1) | Some b \<Rightarrow> (bv_hit b, bv_dev b));
          t = t\<lparr>t_forced := t_forced t + dbl (int forced), t_sel := t_sel t + dbl (int (length (bv_sel b1)))\<rparr>;
          t = tally_batch op False b1 t;
          t = (case b2 of None \<Rightarrow> t | Some b \<Rightarrow> tally_batch op True b t)
      in t\<lparr>t_dec_hit := t_dec_hit t + dbl (of_bool (bv_hit b1) + of_bool h2) / dlit 2,
           t_dec_dev := t_dec_dev t + (bv_dev b1 + dv2) / dlit 2\<rparr>)"

definition tally_pool :: "OperatingPoint \<Rightarrow> LcDecoder list \<Rightarrow> LcTally \<Rightarrow> LcTally" where
  "tally_pool op dec t =
     (let s = fold (\<lambda>q s. s + ld_live_kv q) dec 0;
          dmean = (if dec = [] then dlit 0 else dbl s / dbl (int (length dec)))
      in t\<lparr>t_resid := map (\<lambda>c. t_resid t ! c + share (\<lambda>q. cls (ld_prompt q) = c) dec) [0..<3],
           t_aged_dec := t_aged_dec t + share (\<lambda>q. age_cap op \<le> ld_wait q) dec,
           t_dec_mean := t_dec_mean t + dmean\<rparr>)"

definition tally_sizes :: "'g LcNode \<Rightarrow> LcTally \<Rightarrow> LcTally" where
  "tally_sizes nd t =
     t\<lparr>t_dec_pool := t_dec_pool t + dbl (int (length (ln_dec nd))), t_ready := t_ready t + dbl (int (length (ln_ready nd))),
       t_pf_pool := t_pf_pool t + dbl (int (length (ln_pf nd)))\<rparr>"

section \<open>A round\<close>

definition lc_node_step :: "'g LcEnv \<Rightarrow> nat \<Rightarrow> 'g LcState \<times> LcTally \<Rightarrow> ('g LcState \<times> LcTally) option" where
  "lc_node_step env z st_t =
     (case st_t of (st, t) \<Rightarrow>
       let op = le_op env; nd = lc_nodes st ! z
       in case pf_two op (ln_pf nd) of
            (b1, b2) \<Rightarrow>
              let t = tally_prefill op (ln_pf nd) b1 b2 t;
                  pf = pf_progress (pv_chunk b1) (pv_chunk b2) (ln_pf nd);
                  nd = nd\<lparr>ln_ready := ln_ready nd @ filter pf_complete pf, ln_pf := filter (\<lambda>q. \<not> pf_complete q) pf\<rparr>
              in case lc_batches op (ln_dec nd) of
                   (d1, d2, used) \<Rightarrow>
                     let t = tally_pool op (ln_dec nd) (tally_decode op (ln_dec nd) d1 d2 t)
                     in case lc_turnover env used nd (lc_count st) of
                          (nd, k) \<Rightarrow>
                            (case pf_refill (nat (prefill_pool op - int (length (ln_pf nd)))) (le_lib env) (le_cutoff env)
                                (lc_pf_rng st) (ln_pf nd) of
                               None \<Rightarrow> None
                             | Some (pf, g) \<Rightarrow>
                                 let nd = nd\<lparr>ln_pf := pf\<rparr>
                                 in Some (st\<lparr>lc_nodes := (lc_nodes st)[z := nd], lc_pf_rng := g, lc_count := k\<rparr>,
                                          tally_sizes nd t)))"

fun lc_nodes_step :: "'g LcEnv \<Rightarrow> nat list \<Rightarrow> 'g LcState \<times> LcTally \<Rightarrow> ('g LcState \<times> LcTally) option" where
  "lc_nodes_step env [] st = Some st"
| "lc_nodes_step env (z # zs) st =
     (case lc_node_step env z st of None \<Rightarrow> None | Some st \<Rightarrow> lc_nodes_step env zs st)"

section \<open>The run\<close>

record LcEarly =
  ea_dec_hit :: double
  ea_dec_dev :: double
  ea_pf_dev :: double

record LcAcc =
  ac_sum :: LcTally
  ac_n :: int
  ac_early :: "LcEarly option"

definition add_round :: "double \<Rightarrow> LcTally \<Rightarrow> LcTally \<Rightarrow> LcTally" where
  "add_round Z r a =
     \<lparr>t_dec_hit = t_dec_hit a + t_dec_hit r / Z, t_dec_dev = t_dec_dev a + t_dec_dev r / Z,
      t_pf_hit = t_pf_hit a + t_pf_hit r / Z, t_pf_dev = t_pf_dev a + t_pf_dev r / Z,
      t_pf1_hit = t_pf1_hit a + t_pf1_hit r / Z, t_pf1_dev = t_pf1_dev a + t_pf1_dev r / Z,
      t_pf2_hit = t_pf2_hit a + t_pf2_hit r / Z, t_pf2_dev = t_pf2_dev a + t_pf2_dev r / Z,
      t_dec_mean = t_dec_mean a + t_dec_mean r / Z, t_dec_pool = t_dec_pool a + t_dec_pool r / Z,
      t_ready = t_ready a + t_ready r / Z, t_pf_pool = t_pf_pool a + t_pf_pool r / Z,
      t_resid = map (\<lambda>c. t_resid a ! c + t_resid r ! c / Z) [0..<3],
      t_aged_dec = t_aged_dec a + t_aged_dec r / Z, t_aged_pf = t_aged_pf a + t_aged_pf r / Z,
      t_forced = t_forced a + t_forced r / Z, t_sel = t_sel a + t_sel r / Z,
      t_max_dev = (if t_max_dev a < t_max_dev r then t_max_dev r else t_max_dev a),
      t_miss_dev = t_miss_dev a + t_miss_dev r, t_miss = t_miss a + t_miss r,
      t_b1cm = t_b1cm a + t_b1cm r, t_b1dm = t_b1dm a + t_b1dm r,
      t_b2cm = t_b2cm a + t_b2cm r, t_b2dm = t_b2dm a + t_b2dm r\<rparr>"

definition accumulate :: "'g LcEnv \<Rightarrow> int \<Rightarrow> LcTally \<Rightarrow> LcAcc \<Rightarrow> LcAcc" where
  "accumulate env it r a =
     (if le_warm env \<le> it
      then let Z = dbl (int (le_Z env))
           in \<lparr>ac_sum = add_round Z r (ac_sum a), ac_n = ac_n a + 1,
               ac_early = (case ac_early a of
                   None \<Rightarrow> Some \<lparr>ea_dec_hit = t_dec_hit r / Z, ea_dec_dev = t_dec_dev r / Z, ea_pf_dev = t_pf_dev r / Z\<rparr>
                 | Some e \<Rightarrow> Some e)\<rparr>
      else a)"

fun lc_loop :: "'g LcEnv \<Rightarrow> nat \<Rightarrow> int \<Rightarrow> 'g LcState \<Rightarrow> LcAcc \<Rightarrow> ('g LcState \<times> LcAcc) option" where
  "lc_loop env 0 it st a = Some (st, a)"
| "lc_loop env (Suc n) it st a =
     (case lc_nodes_step env [0..<le_Z env] (st, zero_tally) of
        None \<Rightarrow> None
      | Some (st, r) \<Rightarrow> lc_loop env n (it + 1) st (accumulate env it r a))"

definition lc_run :: "'g LcEnv \<Rightarrow> ('g LcState \<times> LcAcc) option" where
  "lc_run env =
     (case lc_init env of
        None \<Rightarrow> None
      | Some st \<Rightarrow> lc_loop env (nat (le_iters env)) 0 st \<lparr>ac_sum = zero_tally, ac_n = 0, ac_early = None\<rparr>)"

text \<open>The settings: two of the four arguments concern the run, one the age cap, one the candidates of a pull.\<close>

record LcArgs =
  la_iters :: "int option"
  la_Z :: "int option"
  la_age_cap :: "int option"
  la_best_of_k :: "int option"

definition lc_env :: "'g Lib \<Rightarrow> LcArgs \<Rightarrow> OperatingPoint \<Rightarrow> 'g LcEnv" where
  "lc_env lib args op0 =
     (let op = (case la_age_cap args of None \<Rightarrow> op0 | Some c \<Rightarrow> op0\<lparr>age_cap := c\<rparr>);
          edge = lc_edge (draws lib 200000 (lib_seed lib (7 + 999))) op
      in \<lparr>le_lib = lib, le_op = op, le_Z = nat (given (la_Z args) 16), le_iters = given (la_iters args) 2000, le_warm = 500,
          le_k = given (la_best_of_k args) 200, le_seed = 7, le_cutoff = fst edge, le_edge_frac = snd edge\<rparr>)"

section \<open>The report\<close>

record LcReport =
  lr_mean :: LcTally
  lr_early :: LcEarly
  lr_late :: LcEarly
  lr_transitions :: int
  lr_completions :: int
  lr_admit :: "int list"
  lr_comp :: "int list"
  lr_edge_pct :: double
  lr_max_dev :: double
  lr_miss_mean :: double
  lr_miss :: int

text \<open>Rates are printed in percent: 100 times the sum, over the rounds. The others are plain means.\<close>

definition lc_rate :: "LcAcc \<Rightarrow> double \<Rightarrow> double" where
  "lc_rate a x = dlit 100 * x / dbl (ac_n a)"

definition lc_mean :: "LcAcc \<Rightarrow> double \<Rightarrow> double" where
  "lc_mean a x = x / dbl (ac_n a)"

definition lc_report :: "'g LcEnv \<Rightarrow> 'g LcState \<Rightarrow> LcAcc \<Rightarrow> LcReport" where
  "lc_report env st a =
     (let s = ac_sum a; k = lc_count st;
          e = (case ac_early a of Some e \<Rightarrow> e
               | None \<Rightarrow> \<lparr>ea_dec_hit = dlit 0, ea_dec_dev = dlit 0, ea_pf_dev = dlit 0\<rparr>)
      in \<lparr>lr_mean = s\<lparr>t_dec_hit := lc_rate a (t_dec_hit s), t_dec_dev := lc_rate a (t_dec_dev s),
            t_dec_mean := lc_mean a (t_dec_mean s), t_dec_pool := lc_mean a (t_dec_pool s),
            t_pf_hit := lc_rate a (t_pf_hit s), t_pf_dev := lc_rate a (t_pf_dev s), t_pf_pool := lc_mean a (t_pf_pool s),
            t_pf1_hit := lc_rate a (t_pf1_hit s), t_pf1_dev := lc_rate a (t_pf1_dev s),
            t_pf2_hit := lc_rate a (t_pf2_hit s), t_pf2_dev := lc_rate a (t_pf2_dev s),
            t_ready := lc_mean a (t_ready s), t_resid := map (lc_rate a) (t_resid s),
            t_aged_dec := lc_rate a (t_aged_dec s), t_aged_pf := lc_rate a (t_aged_pf s),
            t_forced := lc_mean a (t_forced s), t_sel := lc_mean a (t_sel s)\<rparr>,
          lr_early = \<lparr>ea_dec_hit = dlit 100 * ea_dec_hit e, ea_dec_dev = dlit 100 * ea_dec_dev e,
            ea_pf_dev = dlit 100 * ea_pf_dev e\<rparr>,
          lr_late = \<lparr>ea_dec_hit = dlit 100 * lc_mean a (t_dec_hit s), ea_dec_dev = dlit 100 * lc_mean a (t_dec_dev s),
            ea_pf_dev = dlit 100 * lc_mean a (t_pf_dev s)\<rparr>,
          lr_transitions = lc_transitions k, lr_completions = lc_completions k,
          lr_admit = lc_admit_cls k, lr_comp = lc_comp_cls k,
          lr_edge_pct = dlit 100 * le_edge_frac env, lr_max_dev = dlit 100 * t_max_dev s,
          lr_miss_mean = (if t_miss s \<noteq> 0 then dlit 100 * t_miss_dev s / dbl (t_miss s) else dlit 0),
          lr_miss = t_miss s\<rparr>)"

end
