(* ===== verification/Lifecycle_Correct.thy ===== *)
theory Lifecycle_Correct
  imports Lifecycle
begin

text \<open>
  The steps of \<open>sim/lifecycle.cpp\<close>: its decode side is the round of the node scheduler over
  decoders of the same fields, its healing appends fresh decoders, its two prefill batches
  share no request, and every step keeps the invariant of the state: the sizes of the pools,
  the depths of the prefills, the waiting bound, and the account of the admitted classes.
\<close>

section \<open>The decode side is the node scheduler's\<close>

definition as_nd :: "LcDecoder \<Rightarrow> NodeDecoder" where
  "as_nd q = \<lparr>nd_prompt = ld_prompt q, nd_dtot = ld_dtot q, nd_dec = ld_dec q, nd_wait = ld_wait q\<rparr>"

lemma as_nd_simps [simp]:
  "nd_prompt (as_nd q) = ld_prompt q" "nd_dtot (as_nd q) = ld_dtot q" "nd_dec (as_nd q) = ld_dec q"
  "nd_wait (as_nd q) = ld_wait q" "finished (as_nd q) = ld_done q" "live_kv (as_nd q) = ld_live_kv q"
  by (simp_all add: as_nd_def finished_def ld_done_def live_kv_def ld_live_kv_def)

lemma as_decoders_as_nd: "as_decoders (map as_nd pl) = map (\<lambda>q. \<lparr>kv_length = ld_live_kv q, wait = ld_wait q\<rparr>) pl"
  by (simp add: as_decoders_def)

lemma compose_as_nd:
  assumes "lc_compose_batch op pl used = (b, used')"
  shows "compose_decode_batch op (map as_nd pl) used = (bv_sel b, used')"
  using assms by (auto simp: lc_compose_batch_def compose_decode_batch_def as_decoders_as_nd Let_def split: prod.splits)

lemma batches_used:
  assumes "lc_batches op dec = (b1, b2, used)" shows "used = round_used op (map as_nd dec)"
proof -
  obtain c1 u1 where c1: "lc_compose_batch op dec (replicate (length dec) False) = (c1, u1)" by fastforce
  obtain c2 u2 where c2: "lc_compose_batch op dec u1 = (c2, u2)" by fastforce
  show ?thesis
    using assms compose_as_nd [OF c1] compose_as_nd [OF c2]
    by (auto simp: lc_batches_def round_used_def c1 c2 split: if_splits)
qed

lemma advance_as_nd: "map as_nd (ld_advance used dec) = advance used (map as_nd dec)"
  by (rule nth_equalityI) (simp_all add: ld_advance_def advance_nth as_nd_def)

lemma filter_as_nd: "map as_nd (filter (\<lambda>q. \<not> ld_done q) pl) = filter (\<lambda>q. \<not> finished q) (map as_nd pl)"
  "map as_nd (filter ld_done pl) = filter finished (map as_nd pl)"
  by (simp_all add: filter_map o_def)

lemma length_ld_advance [simp]: "length (ld_advance used dec) = length dec"
  by (simp add: ld_advance_def)

lemma ld_advance_prompts: "map ld_prompt (ld_advance used dec) = map ld_prompt dec"
  by (rule nth_equalityI) (simp_all add: ld_advance_def)

section \<open>What healing does\<close>

lemma fresh_decoder_simps [simp]:
  "ld_prompt (fresh_decoder p d) = p" "ld_dtot (fresh_decoder p d) = d" "ld_dec (fresh_decoder p d) = 0"
  "ld_wait (fresh_decoder p d) = 0"
  by (simp_all add: fresh_decoder_def)

text \<open>The net effect of healing and absorbing, step by step.\<close>

definition gap :: "nat \<Rightarrow> 'g LcNode \<Rightarrow> LcCount \<Rightarrow> int" where
  "gap c nd k = lc_admit_cls k ! c - int (length (filter (\<lambda>q. cls (ld_prompt q) = c) (ln_dec nd)))"

definition grown :: "'g LcNode \<Rightarrow> LcCount \<Rightarrow> 'g LcNode \<Rightarrow> LcCount \<Rightarrow> LcDecoder list \<Rightarrow> bool" where
  "grown nd k nd' k' new \<longleftrightarrow> ln_dec nd' = ln_dec nd @ new \<and> (\<forall>q \<in> set new. ld_wait q = 0 \<and> ld_dec q = 0)
     \<and> ln_pf nd' = ln_pf nd \<and> (\<exists>r. ln_ready nd = ln_ready nd' @ r)
     \<and> lc_comp_cls k' = lc_comp_cls k \<and> lc_completions k' = lc_completions k
     \<and> length (lc_admit_cls k') = length (lc_admit_cls k)
     \<and> (length (lc_admit_cls k) = 3 \<longrightarrow> (\<forall>c < 3. gap c nd' k' = gap c nd k))
     \<and> int (length (ln_ready nd)) - int (length (ln_ready nd')) = lc_transitions k' - lc_transitions k"

lemma grown_refl: "grown nd k nd k []"
  by (simp add: grown_def)

lemma grown_trans:
  assumes "grown nd k nd1 k1 n1" and "grown nd1 k1 nd2 k2 n2" shows "grown nd k nd2 k2 (n1 @ n2)"
  using assms unfolding grown_def by auto

lemma cls_less: "cls p < 3"
  by (simp add: cls_def)

lemma nth_bump: "c < length xs \<Longrightarrow> bump c' xs ! c = xs ! c + (if c = c' then 1 else 0)"
  by (simp add: bump_def nth_list_update)

lemma length_bump [simp]: "length (bump c xs) = length xs"
  by (simp add: bump_def)

lemma grown_one:
  assumes "ln_dec nd' = ln_dec nd @ [fresh_decoder p d]" and "ln_pf nd' = ln_pf nd" and "ln_ready nd = ln_ready nd' @ r"
    and "k' = count_admit p (k\<lparr>lc_transitions := lc_transitions k + int (length r)\<rparr>)"
  shows "grown nd k nd' k' [fresh_decoder p d]"
  using assms by (auto simp: grown_def gap_def count_admit_def nth_bump)

lemma ready_decoder_grown:
  assumes "ln_ready nd \<noteq> []" and "ready_decoder nd k = (nd', k')"
  shows "\<exists>q. grown nd k nd' k' [q] \<and> ln_ready nd = ln_ready nd' @ [last (ln_ready nd)]
    \<and> q = fresh_decoder (sp_prompt (last (ln_ready nd))) (sp_dtot (last (ln_ready nd))) \<and> ln_src nd' = ln_src nd"
proof -
  let ?t = "last (ln_ready nd)"
  have "grown nd k nd' k' [fresh_decoder (sp_prompt ?t) (sp_dtot ?t)]"
    by (rule grown_one [where r = "[?t]"]) (use assms in \<open>auto simp: ready_decoder_def Let_def\<close>)
  then show ?thesis using assms by (auto simp: ready_decoder_def Let_def)
qed

lemma admit_hole_cases:
  assumes "admit_hole lib op hole pl s = (r, pl', s')"
  shows "(r = None \<and> pl' = pl) \<or> (\<exists>p d. r = Some p \<and> 0 \<le> p \<and> pl' = pl @ [fresh_decoder p d])"
  using assms by (auto simp: admit_hole_def Let_def split: prod.splits if_splits)

lemma lc_heal_grown:
  "lc_heal lib op holes nd k = (nd', k') \<Longrightarrow> \<exists>new. grown nd k nd' k' new \<and> length new \<le> length holes"
proof (induction holes arbitrary: nd k)
  case Nil
  then show ?case using grown_refl by auto
next
  case (Cons h hs)
  show ?case
  proof (cases "ln_ready nd = []")
    case False
    obtain nd1 k1 where r: "ready_decoder nd k = (nd1, k1)" by fastforce
    then have h: "lc_heal lib op hs nd1 k1 = (nd', k')" using Cons.prems False by simp
    obtain q where "grown nd k nd1 k1 [q]" using ready_decoder_grown [OF False r] by blast
    with Cons.IH [OF h] show ?thesis by (metis grown_trans append_Cons append_Nil length_Cons Suc_le_mono)
  next
    case True
    obtain r pl s where a: "admit_hole lib op h (ln_dec nd) (ln_src nd) = (r, pl, s)" using prod_cases3 by blast
    show ?thesis
    proof (cases r)
      case None
      then have "nd' = nd\<lparr>ln_dec := ln_dec nd, ln_src := s\<rparr>" "k' = k"
        using Cons.prems True a admit_hole_cases [OF a] by auto
      then have "grown nd k nd' k' []" by (simp add: grown_def gap_def)
      then show ?thesis by auto
    next
      case (Some p)
      then have h: "lc_heal lib op hs (nd\<lparr>ln_dec := pl, ln_src := s\<rparr>) (count_admit p k) = (nd', k')"
        using Cons.prems True a by simp
      obtain d where "pl = ln_dec nd @ [fresh_decoder p d]" using admit_hole_cases [OF a] Some by auto
      then have "grown nd k (nd\<lparr>ln_dec := pl, ln_src := s\<rparr>) (count_admit p k) [fresh_decoder p d]"
        by (intro grown_one [where r = "[]"]) auto
      with Cons.IH [OF h] show ?thesis by (metis grown_trans append_Cons append_Nil length_Cons Suc_le_mono)
    qed
  qed
qed

lemma lc_absorb_grown:
  "lc_absorb op nd k = (nd', k') \<Longrightarrow> \<exists>new. grown nd k nd' k' new
     \<and> int (length (ln_dec nd')) \<le> max (int (length (ln_dec nd))) (decode_pool op)"
proof (induction "length (ln_ready nd)" arbitrary: nd k)
  case 0
  then have "nd' = nd" "k' = k" by (simp_all add: lc_absorb.simps)
  then show ?case using grown_refl by auto
next
  case (Suc n)
  show ?case
  proof (cases "int (length (ln_dec nd)) < decode_pool op")
    case True
    have ne: "ln_ready nd \<noteq> []" using Suc.hyps(2) by auto
    obtain nd1 k1 where r: "ready_decoder nd k = (nd1, k1)" by fastforce
    then have a: "lc_absorb op nd1 k1 = (nd', k')" using Suc.prems True ne by (simp add: lc_absorb.simps)
    obtain q where q: "grown nd k nd1 k1 [q]" "ln_ready nd = ln_ready nd1 @ [last (ln_ready nd)]"
      using ready_decoder_grown [OF ne r] by blast
    have "n = length (ln_ready nd1)" using Suc.hyps(2) arg_cong [OF q(2), of length] by simp
    from Suc.hyps(1) [OF this a] obtain new where new: "grown nd1 k1 nd' k' new"
      "int (length (ln_dec nd')) \<le> max (int (length (ln_dec nd1))) (decode_pool op)" by blast
    have "ln_dec nd1 = ln_dec nd @ [q]" using q(1) by (simp add: grown_def)
    with new(2) True have "int (length (ln_dec nd')) \<le> max (int (length (ln_dec nd))) (decode_pool op)" by auto
    with grown_trans [OF q(1) new(1)] show ?thesis by blast
  next
    case False
    then have "nd' = nd" "k' = k" using Suc.prems by (simp_all add: lc_absorb.simps)
    then show ?thesis using grown_refl by auto
  qed
qed

lemma turnover_grown:
  assumes "lc_turnover env used nd k = (nd', k')"
  defines "dec \<equiv> ld_advance used (ln_dec nd)"
  shows "\<exists>new. grown (nd\<lparr>ln_dec := filter (\<lambda>q. \<not> ld_done q) dec\<rparr>) (fold count_done (filter ld_done dec) k) nd' k' new
    \<and> int (length (ln_dec nd')) \<le> max (int (length (ln_dec nd))) (decode_pool (le_op env))"
proof -
  let ?nd = "nd\<lparr>ln_dec := filter (\<lambda>q. \<not> ld_done q) dec\<rparr>" and ?k = "fold count_done (filter ld_done dec) k"
  obtain nd1 k1 where h: "lc_heal (le_lib env) (le_op env) (map ld_prompt (filter ld_done dec)) ?nd ?k = (nd1, k1)" by fastforce
  then have a: "lc_absorb (le_op env) nd1 k1 = (nd', k')" using assms by (simp add: lc_turnover_def Let_def)
  obtain n1 where n1: "grown ?nd ?k nd1 k1 n1" "length n1 \<le> length (filter ld_done dec)" using lc_heal_grown [OF h] by auto
  obtain n2 where n2: "grown nd1 k1 nd' k' n2" "int (length (ln_dec nd')) \<le> max (int (length (ln_dec nd1))) (decode_pool (le_op env))"
    using lc_absorb_grown [OF a] by blast
  have "length (ln_dec nd1) = length (filter (\<lambda>q. \<not> ld_done q) dec) + length n1" using n1(1) by (simp add: grown_def)
  then have "length (ln_dec nd1) \<le> length (ln_dec nd)"
    using n1(2) sum_length_filter_compl [of ld_done dec] by (simp add: dec_def)
  with n2(2) have "int (length (ln_dec nd')) \<le> max (int (length (ln_dec nd))) (decode_pool (le_op env))" by linarith
  with grown_trans [OF n1(1) n2(1)] show ?thesis by blast
qed

section \<open>The account of the classes\<close>

definition class_count :: "nat \<Rightarrow> LcDecoder list \<Rightarrow> int" where
  "class_count c dec = int (length (filter (\<lambda>q. cls (ld_prompt q) = c) dec))"

lemma class_count_simps [simp]:
  "class_count c [] = 0" "class_count c (dec @ dec') = class_count c dec + class_count c dec'"
  "class_count c (q # dec) = (if cls (ld_prompt q) = c then 1 else 0) + class_count c dec"
  by (simp_all add: class_count_def)

lemma class_count_advance: "class_count c (ld_advance used dec) = class_count c dec"
proof -
  have "class_count c xs = int (length (filter (\<lambda>p. cls p = c) (map ld_prompt xs)))" for xs
    by (induction xs) (simp_all add: class_count_def)
  then show ?thesis by (simp only: ld_advance_prompts)
qed

lemma class_count_split: "class_count c dec = class_count c (filter P dec) + class_count c (filter (\<lambda>q. \<not> P q) dec)"
  by (induction dec) auto

definition counts_ok :: "LcCount \<Rightarrow> bool" where
  "counts_ok k \<longleftrightarrow> length (lc_admit_cls k) = 3 \<and> length (lc_comp_cls k) = 3 \<and> lc_completions k = sum_list (lc_comp_cls k)"

lemma sum_list_bump: "c < length xs \<Longrightarrow> sum_list (bump c xs) = sum_list xs + 1"
proof (induction xs arbitrary: c)
  case (Cons x xs)
  then show ?case by (cases c) (simp_all add: bump_def)
qed simp

lemma count_done_ok: "counts_ok k \<Longrightarrow> counts_ok (count_done q k)"
  using cls_less [of "ld_prompt q"] by (simp add: counts_ok_def count_done_def sum_list_bump)

lemma fold_count_done:
  assumes "counts_ok k"
  shows "counts_ok (fold count_done gone k) \<and> lc_admit_cls (fold count_done gone k) = lc_admit_cls k
    \<and> lc_transitions (fold count_done gone k) = lc_transitions k
    \<and> (\<forall>c < 3. lc_comp_cls (fold count_done gone k) ! c = lc_comp_cls k ! c + class_count c gone)
    \<and> lc_completions (fold count_done gone k) = lc_completions k + int (length gone)"
  using assms
proof (induction gone arbitrary: k)
  case (Cons q gone)
  have len: "length (lc_comp_cls k) = 3" using Cons.prems by (simp add: counts_ok_def)
  from Cons.IH [OF count_done_ok [OF Cons.prems, of q]] len show ?case
    by (auto simp: count_done_def nth_bump)
qed simp

text \<open>What a node holds and what has left it, against what was admitted.\<close>

lemma turnover_counts:
  assumes "lc_turnover env used nd k = (nd', k')" and "counts_ok k"
  shows "counts_ok k'"
    and "c < 3 \<Longrightarrow> lc_admit_cls k' ! c - lc_comp_cls k' ! c - class_count c (ln_dec nd')
        = lc_admit_cls k ! c - lc_comp_cls k ! c - class_count c (ln_dec nd)"
    and "lc_transitions k' - lc_transitions k = int (length (ln_ready nd)) - int (length (ln_ready nd'))"
proof -
  let ?dec = "ld_advance used (ln_dec nd)"
  let ?gone = "filter ld_done ?dec"
  obtain new where g: "grown (nd\<lparr>ln_dec := filter (\<lambda>q. \<not> ld_done q) ?dec\<rparr>) (fold count_done ?gone k) nd' k' new"
    using turnover_grown [OF assms(1)] by blast
  note f = fold_count_done [OF assms(2), of ?gone]
  show "counts_ok k'" using g f assms(2) by (simp add: grown_def counts_ok_def)
  show "lc_transitions k' - lc_transitions k = int (length (ln_ready nd)) - int (length (ln_ready nd'))"
    using g f by (simp add: grown_def)
  show "lc_admit_cls k' ! c - lc_comp_cls k' ! c - class_count c (ln_dec nd')
        = lc_admit_cls k ! c - lc_comp_cls k ! c - class_count c (ln_dec nd)" if c: "c < 3"
  proof -
    have "gap c nd' k' = gap c (nd\<lparr>ln_dec := filter (\<lambda>q. \<not> ld_done q) ?dec\<rparr>) (fold count_done ?gone k)"
      using g c f assms(2) by (simp add: grown_def counts_ok_def)
    moreover have "class_count c (ln_dec nd) = class_count c ?gone + class_count c (filter (\<lambda>q. \<not> ld_done q) ?dec)"
      using class_count_split [of c ?dec ld_done] by (simp add: class_count_advance)
    ultimately show ?thesis
      using g f c by (simp add: grown_def gap_def class_count_def)
  qed
qed

section \<open>The two prefill batches\<close>

definition pf_depth :: "SimPrefill \<Rightarrow> bool" where
  "pf_depth q \<longleftrightarrow> 0 \<le> sp_processed q \<and> sp_processed q \<le> sp_prompt q \<and> 0 \<le> sp_wait q"

lemma pf_requests_nth:
  "i < length pf \<Longrightarrow> pr_prompt (pf_requests msk pf ! i) = sp_prompt (pf ! i)
     \<and> pr_processed (pf_requests msk pf ! i) = (if msk ! i then sp_prompt (pf ! i) else sp_processed (pf ! i))"
  by (simp add: pf_requests_def)

lemma length_pf_requests [simp]: "length (pf_requests msk pf) = length pf"
  by (simp add: pf_requests_def)

lemma steer_once_chunk:
  "pv_chunk (pf_steer_once op pf msk) = steer_prefill_chunks (pf_requests msk pf) op"
  by (simp add: pf_steer_once_def Let_def split: prod.splits)

lemma pf_two_chunks:
  assumes "pf_two op pf = (b1, b2)"
  shows "length (pv_chunk b1) = length pf" "length (pv_chunk b2) = length pf"
    and "i < length pf \<Longrightarrow> 0 \<le> pv_chunk b1 ! i \<and> pv_chunk b1 ! i \<le> max 0 (sp_prompt (pf ! i) - sp_processed (pf ! i))"
    and "i < length pf \<Longrightarrow> 0 \<le> pv_chunk b2 ! i \<and> pv_chunk b2 ! i \<le> max 0 (sp_prompt (pf ! i) - sp_processed (pf ! i))"
    and "i < length pf \<Longrightarrow> pv_chunk b1 ! i = 0 \<or> pv_chunk b2 ! i = 0"
    and "(\<Sum>i<length pf. pv_chunk b1 ! i) \<le> max 0 (prefill_tokens op)" "(\<Sum>i<length pf. pv_chunk b2 ! i) \<le> max 0 (prefill_tokens op)"
proof -
  let ?m0 = "replicate (length pf) False"
  have b1: "b1 = pf_steer_once op pf ?m0" using assms by (auto simp: pf_two_def Let_def)
  define m1 where "m1 = map (\<lambda>i. 0 < pv_chunk b1 ! i) [0..<length pf]"
  have b2: "b2 = pf_steer_once op pf m1" using assms by (auto simp: pf_two_def Let_def m1_def)
  note s1 = steer_prefill_chunks_budget [of "pf_requests ?m0 pf" op]
    and s2 = steer_prefill_chunks_budget [of "pf_requests m1 pf" op]
  have c1: "pv_chunk b1 = steer_prefill_chunks (pf_requests ?m0 pf) op" by (simp only: b1 steer_once_chunk)
  have c2: "pv_chunk b2 = steer_prefill_chunks (pf_requests m1 pf) op" using b2 by (simp only: steer_once_chunk)
  show "length (pv_chunk b1) = length pf" "length (pv_chunk b2) = length pf"
    unfolding c1 c2 using s1 s2 by simp_all
  show "(\<Sum>i<length pf. pv_chunk b1 ! i) \<le> max 0 (prefill_tokens op)" "(\<Sum>i<length pf. pv_chunk b2 ! i) \<le> max 0 (prefill_tokens op)"
    unfolding c1 c2 using s1 s2 by (simp_all add: pf_tokens_def)
  assume i: "i < length pf"
  have e1: "0 \<le> pv_chunk b1 ! i \<and> pv_chunk b1 ! i \<le> max 0 (sp_prompt (pf ! i) - sp_processed (pf ! i))"
    unfolding c1 using s1 i by (simp add: pf_requests_nth)
  have e2: "0 \<le> pv_chunk b2 ! i \<and> pv_chunk b2 ! i \<le> max 0 (sp_prompt (pf ! i) - (if m1 ! i then sp_prompt (pf ! i) else sp_processed (pf ! i)))"
    unfolding c2 using conjunct1 [OF conjunct2 [OF s2]] pf_requests_nth [OF i, of m1] i by (auto dest!: spec [of _ i])
  show "0 \<le> pv_chunk b1 ! i \<and> pv_chunk b1 ! i \<le> max 0 (sp_prompt (pf ! i) - sp_processed (pf ! i))" by (fact e1)
  show "pv_chunk b1 ! i = 0 \<or> pv_chunk b2 ! i = 0"
    using e1 e2 i unfolding m1_def by (cases "0 < pv_chunk b1 ! i") auto
  show "0 \<le> pv_chunk b2 ! i \<and> pv_chunk b2 ! i \<le> max 0 (sp_prompt (pf ! i) - sp_processed (pf ! i))"
    using e1 e2 i unfolding m1_def by (cases "0 < pv_chunk b1 ! i") auto
qed

lemma length_pf_progress [simp]: "length (pf_progress c1 c2 pf) = length pf"
  by (simp add: pf_progress_def)

lemma pf_progress_depth:
  assumes "pf_two op pf = (b1, b2)" and "\<forall>q \<in> set pf. pf_depth q"
  shows "\<forall>q \<in> set (pf_progress (pv_chunk b1) (pv_chunk b2) pf). pf_depth q"
proof
  fix q assume "q \<in> set (pf_progress (pv_chunk b1) (pv_chunk b2) pf)"
  then obtain i where i: "i < length pf" "q = pf_progress (pv_chunk b1) (pv_chunk b2) pf ! i"
    by (auto simp: in_set_conv_nth)
  have "pf_depth (pf ! i)" using assms(2) i(1) by simp
  then show "pf_depth q"
    using i pf_two_chunks(3,4,5) [OF assms(1) i(1)]
    by (auto simp: pf_progress_def pf_depth_def Let_def)
qed

section \<open>The invariant of the state\<close>

text \<open>The standard's \<open>uniform_real_distribution(0, 1)\<close> gives values of the unit interval.\<close>

definition unit_ok :: "'g Lib \<Rightarrow> bool" where
  "unit_ok lib \<longleftrightarrow> (\<forall>g. Fin 0 \<le> fst (lib_uni lib g) \<and> fst (lib_uni lib g) \<le> Fin 1)"

definition lc_env_ok :: "'g LcEnv \<Rightarrow> bool" where
  "lc_env_ok env \<longleftrightarrow> 0 < decode_count_target (le_op env) \<and> 0 < kv_operating_target (le_op env) \<and> 0 \<le> age_cap (le_op env)
     \<and> 0 \<le> decode_pool (le_op env) \<and> unit_ok (le_lib env) \<and> lengths_ok (le_lib env) \<and> le_cutoff env < 2 ^ 31"

definition lc_node_ok :: "'g LcEnv \<Rightarrow> 'g LcNode \<Rightarrow> bool" where
  "lc_node_ok env nd \<longleftrightarrow> int (length (ln_dec nd)) \<le> decode_pool (le_op env)
     \<and> wait_inv (nat (decode_pool (le_op env))) (le_op env) (map as_nd (ln_dec nd))
     \<and> (\<forall>q \<in> set (ln_pf nd). pf_depth q) \<and> (\<forall>q \<in> set (ln_ready nd). sp_processed q = sp_prompt q)
     \<and> length (ln_pf nd) = nat (prefill_pool (le_op env))"

definition resident_class :: "nat \<Rightarrow> 'g LcNode list \<Rightarrow> int" where
  "resident_class c nds = (\<Sum>nd \<leftarrow> nds. class_count c (ln_dec nd))"

lemma resident_class_simps [simp]:
  "resident_class c [] = 0" "resident_class c (nd # nds) = class_count c (ln_dec nd) + resident_class c nds"
  by (simp_all add: resident_class_def)

lemma resident_class_update:
  "z < length nds \<Longrightarrow> resident_class c (nds[z := nd]) =
     resident_class c nds - class_count c (ln_dec (nds ! z)) + class_count c (ln_dec nd)"
proof (induction nds arbitrary: z)
  case (Cons x nds)
  then show ?case by (cases z) simp_all
qed simp

definition lc_balance :: "'g LcNode list \<Rightarrow> LcCount \<Rightarrow> bool" where
  "lc_balance nds k \<longleftrightarrow> counts_ok k \<and> (\<forall>c < 3. lc_admit_cls k ! c = lc_comp_cls k ! c + resident_class c nds)"

definition lc_ok :: "'g LcEnv \<Rightarrow> 'g LcState \<Rightarrow> bool" where
  "lc_ok env st \<longleftrightarrow> length (lc_nodes st) = le_Z env \<and> (\<forall>nd \<in> set (lc_nodes st). lc_node_ok env nd)
     \<and> lc_balance (lc_nodes st) (lc_count st)"

lemma turnover_wait:
  assumes "lc_turnover env used nd k = (nd', k')" and "lc_env_ok env"
    and "wait_inv (nat (decode_pool (le_op env))) (le_op env) (map as_nd (ln_dec nd))"
    and "used = round_used (le_op env) (map as_nd (ln_dec nd))"
  shows "wait_inv (nat (decode_pool (le_op env))) (le_op env) (map as_nd (ln_dec nd'))
    \<and> int (length (ln_dec nd')) \<le> decode_pool (le_op env)"
proof -
  let ?dec = "ld_advance used (ln_dec nd)" and ?N = "nat (decode_pool (le_op env))"
  obtain new where g: "grown (nd\<lparr>ln_dec := filter (\<lambda>q. \<not> ld_done q) ?dec\<rparr>) (fold count_done (filter ld_done ?dec) k) nd' k' new"
    "int (length (ln_dec nd')) \<le> max (int (length (ln_dec nd))) (decode_pool (le_op env))"
    using turnover_grown [OF assms(1)] by blast
  have e: "0 < decode_count_target (le_op env)" "0 < kv_operating_target (le_op env)" "0 \<le> age_cap (le_op env)"
    "0 \<le> decode_pool (le_op env)" using assms(2) by (simp_all add: lc_env_ok_def)
  have "length (map as_nd (ln_dec nd)) \<le> ?N" using assms(3) by (simp add: wait_inv_def)
  with g(2) e(4) have len: "int (length (ln_dec nd')) \<le> decode_pool (le_op env)" by simp
  have "map as_nd (ln_dec nd') = filter (\<lambda>q. \<not> finished q)
      (advance (round_used (le_op env) (map as_nd (ln_dec nd))) (map as_nd (ln_dec nd))) @ map as_nd new"
    using g(1) by (simp add: grown_def filter_as_nd(1) advance_as_nd assms(4))
  moreover have "\<forall>q \<in> set (map as_nd new). nd_wait q = 0" using g(1) by (simp add: grown_def)
  moreover have "length (map as_nd (ln_dec nd')) \<le> ?N" using len by simp
  ultimately have "wait_inv ?N (le_op env) (map as_nd (ln_dec nd'))"
    by (rule wait_inv_refill [OF assms(3) e(1-3)])
  with len show ?thesis by simp
qed

lemma pf_refill_new:
  assumes "pf_refill n lib cutoff g pf = Some (pf', g')" and "lengths_ok lib"
  shows "\<exists>new. pf' = pf @ new \<and> length new = n \<and> (\<forall>q \<in> set new. pf_depth q)"
  using assms(1)
proof (induction n arbitrary: g pf)
  case (Suc n)
  obtain p g1 where p: "gated_sample lib cutoff g = Some (p, g1)" using Suc.prems by (auto split: option.splits)
  obtain d g2 where d: "sample_dtot lib g1 = (d, g2)" by fastforce
  let ?q = "\<lparr>sp_prompt = p, sp_dtot = d, sp_processed = 0, sp_wait = 0\<rparr>"
  have "pf_refill n lib cutoff g2 (pf @ [?q]) = Some (pf', g')" using Suc.prems p d by simp
  from Suc.IH [OF this] obtain new where "pf' = pf @ ?q # new" "length new = n" "\<forall>q \<in> set new. pf_depth q" by auto
  moreover have "pf_depth ?q" using gated_sample_nonneg [OF assms(2) p] by (simp add: pf_depth_def)
  ultimately show ?case by (intro exI [of _ "?q # new"]) simp
qed simp

lemma unit_scale:
  assumes "Fin 0 \<le> u" and "u \<le> Fin 1" and "0 \<le> p" and "p < 2 ^ 31"
  shows "0 \<le> to_i32 (u * dbl p) \<and> to_i32 (u * dbl p) \<le> p"
proof -
  obtain r where r: "u = Fin r" "0 \<le> r" "r \<le> 1" using assms(1,2) by (cases u) (auto simp: dbl_simps, auto simp: dbl_defs)
  have d: "dbl p = Fin (of_int p)" using assms(3,4) by (simp add: dbl_exact)
  have p: "0 \<le> rat_of_int p" using assms(3) by simp
  have x: "0 \<le> r * of_int p" "r * of_int p \<le> of_int p"
    using r p mult_right_mono [of r 1 "rat_of_int p"] by simp_all
  have "rnd (of_int p) = Fin (of_int p)" using d by (simp add: dbl_def)
  moreover have "rnd 0 = Fin 0" using rnd_Fin [of 0] by simp
  ultimately have b: "Fin 0 \<le> rnd (r * of_int p)" "rnd (r * of_int p) \<le> Fin (of_int p)"
    using rnd_mono [OF x(1)] rnd_mono [OF x(2)] by simp_all
  then obtain v where v: "rnd (r * of_int p) = Fin v" "0 \<le> v" "v \<le> of_int p"
    by (cases "rnd (r * of_int p)") (auto simp: dbl_simps dbl_defs)
  have f: "0 \<le> \<lfloor>v\<rfloor>" "\<lfloor>v\<rfloor> \<le> p" using v(2,3) by (simp_all add: floor_le_iff)
  have "u * dbl p = Fin v" by (simp add: r(1) d dbl_simps v(1))
  moreover have "v < 2147483648"
  proof -
    have "rat_of_int p < of_int (2 ^ 31)" using assms(4) by (simp only: of_int_less_iff)
    with v(3) show ?thesis by simp
  qed
  ultimately show ?thesis using f v(2) assms(4) by (simp add: Cxx_Double.truncate_def fits_def int_range_def)
qed

lemma pf_start_new:
  assumes "pf_start n lib cutoff g pf = Some (pf', g')" and "lengths_ok lib" and "unit_ok lib" and "cutoff < 2 ^ 31"
  shows "\<exists>new. pf' = pf @ new \<and> length new = n \<and> (\<forall>q \<in> set new. pf_depth q)"
  using assms(1)
proof (induction n arbitrary: g pf)
  case (Suc n)
  obtain p g1 where p: "gated_sample lib cutoff g = Some (p, g1)" using Suc.prems by (auto split: option.splits)
  obtain d g2 where d: "sample_dtot lib g1 = (d, g2)" by fastforce
  obtain u g3 where u: "lib_uni lib g2 = (u, g3)" by fastforce
  let ?q = "\<lparr>sp_prompt = p, sp_dtot = d, sp_processed = to_i32 (u * dbl p), sp_wait = 0\<rparr>"
  have "pf_start n lib cutoff g3 (pf @ [?q]) = Some (pf', g')" using Suc.prems p d u by simp
  from Suc.IH [OF this] obtain new where "pf' = pf @ ?q # new" "length new = n" "\<forall>q \<in> set new. pf_depth q" by auto
  moreover have "pf_depth ?q"
  proof -
    have "Fin 0 \<le> u" "u \<le> Fin 1" using assms(3) u unfolding unit_ok_def by (metis fst_conv)+
    moreover have "0 \<le> p" "p < 2 ^ 31"
      using gated_sample_nonneg [OF assms(2) p] gated_sample_le [OF p] assms(4) by simp_all
    ultimately show ?thesis using unit_scale [of u p] by (simp add: pf_depth_def)
  qed
  ultimately show ?case by (intro exI [of _ "?q # new"]) simp
qed simp

section \<open>A node's step, the round and the run\<close>

text \<open>The parts of a step.\<close>

lemma lc_node_stepE:
  assumes "lc_node_step env z (st, t) = Some (st', t')"
  obtains b1 b2 pf d1 d2 used nd k pf' g t1 where
    "pf_two (le_op env) (ln_pf (lc_nodes st ! z)) = (b1, b2)"
    "pf = pf_progress (pv_chunk b1) (pv_chunk b2) (ln_pf (lc_nodes st ! z))"
    "lc_batches (le_op env) (ln_dec (lc_nodes st ! z)) = (d1, d2, used)"
    "lc_turnover env used ((lc_nodes st ! z)\<lparr>ln_ready := ln_ready (lc_nodes st ! z) @ filter pf_complete pf,
        ln_pf := filter (\<lambda>q. \<not> pf_complete q) pf\<rparr>) (lc_count st) = (nd, k)"
    "pf_refill (nat (prefill_pool (le_op env) - int (length (ln_pf nd)))) (le_lib env) (le_cutoff env) (lc_pf_rng st) (ln_pf nd)
       = Some (pf', g)"
    "st' = st\<lparr>lc_nodes := (lc_nodes st)[z := nd\<lparr>ln_pf := pf'\<rparr>], lc_pf_rng := g, lc_count := k\<rparr>"
    "t1 = tally_decode (le_op env) (ln_dec (lc_nodes st ! z)) d1 d2 (tally_prefill (le_op env) (ln_pf (lc_nodes st ! z)) b1 b2 t)"
    "t' = tally_sizes (nd\<lparr>ln_pf := pf'\<rparr>) (tally_pool (le_op env) (ln_dec (lc_nodes st ! z)) t1)"
proof -
  let ?nd = "lc_nodes st ! z"
  obtain b1 b2 where b: "pf_two (le_op env) (ln_pf ?nd) = (b1, b2)" by fastforce
  obtain d1 d2 used where d: "lc_batches (le_op env) (ln_dec ?nd) = (d1, d2, used)" using prod_cases3 by blast
  let ?pf = "pf_progress (pv_chunk b1) (pv_chunk b2) (ln_pf ?nd)"
  obtain nd k where h: "lc_turnover env used (?nd\<lparr>ln_ready := ln_ready ?nd @ filter pf_complete ?pf,
      ln_pf := filter (\<lambda>q. \<not> pf_complete q) ?pf\<rparr>) (lc_count st) = (nd, k)" by fastforce
  obtain pf' g where r: "pf_refill (nat (prefill_pool (le_op env) - int (length (ln_pf nd)))) (le_lib env) (le_cutoff env)
      (lc_pf_rng st) (ln_pf nd) = Some (pf', g)"
    using assms b d h by (fastforce simp: lc_node_step_def Let_def split: option.splits)
  show thesis
    by (rule that [OF b refl d h r _ refl]) (use assms b d h r in \<open>simp_all add: lc_node_step_def Let_def\<close>)
qed

lemma turnover_frame:
  assumes "lc_turnover env used nd k = (nd', k')"
  shows "ln_pf nd' = ln_pf nd" "set (ln_ready nd') \<subseteq> set (ln_ready nd)"
  using turnover_grown [OF assms] by (auto simp: grown_def)

lemma lc_node_step_ok:
  assumes "lc_node_step env z (st, t) = Some (st', t')" and "lc_env_ok env" and "lc_ok env st" and "z < le_Z env"
  shows "lc_ok env st'"
proof -
  let ?nd = "lc_nodes st ! z" and ?op = "le_op env"
  from assms(1) obtain b1 b2 pf d1 d2 used nd k pf' g t1 where
    b: "pf_two ?op (ln_pf ?nd) = (b1, b2)" "pf = pf_progress (pv_chunk b1) (pv_chunk b2) (ln_pf ?nd)"
    and d: "lc_batches ?op (ln_dec ?nd) = (d1, d2, used)"
    and h: "lc_turnover env used (?nd\<lparr>ln_ready := ln_ready ?nd @ filter pf_complete pf, ln_pf := filter (\<lambda>q. \<not> pf_complete q) pf\<rparr>)
        (lc_count st) = (nd, k)"
    and r: "pf_refill (nat (prefill_pool ?op - int (length (ln_pf nd)))) (le_lib env) (le_cutoff env) (lc_pf_rng st) (ln_pf nd) = Some (pf', g)"
    and st': "st' = st\<lparr>lc_nodes := (lc_nodes st)[z := nd\<lparr>ln_pf := pf'\<rparr>], lc_pf_rng := g, lc_count := k\<rparr>"
    by (rule lc_node_stepE)
  have z: "z < length (lc_nodes st)" using assms(3,4) by (simp add: lc_ok_def)
  have nd: "lc_node_ok env ?nd" and bal: "lc_balance (lc_nodes st) (lc_count st)"
    using assms(3) nth_mem [OF z] by (auto simp: lc_ok_def)
  have depth: "\<forall>q \<in> set pf. pf_depth q"
    unfolding b(2) by (rule pf_progress_depth [OF b(1)]) (use nd in \<open>simp add: lc_node_ok_def\<close>)
  have len: "length pf = nat (prefill_pool ?op)" using nd by (simp add: b(2) lc_node_ok_def)
  have pf: "ln_pf nd = filter (\<lambda>q. \<not> pf_complete q) pf"
    and rdy: "set (ln_ready nd) \<subseteq> set (ln_ready ?nd @ filter pf_complete pf)"
    using turnover_frame [OF h] by simp_all
  have le: "length (ln_pf nd) \<le> nat (prefill_pool ?op)" unfolding pf len [symmetric] by simp
  obtain new where new: "pf' = ln_pf nd @ new" "length new = nat (prefill_pool ?op - int (length (ln_pf nd)))"
    "\<forall>q \<in> set new. pf_depth q"
    using pf_refill_new [OF r] assms(2) by (auto simp: lc_env_ok_def)
  have "lc_node_ok env (nd\<lparr>ln_pf := pf'\<rparr>)"
    unfolding lc_node_ok_def
  proof (intro conjI)
    have w: "wait_inv (nat (decode_pool ?op)) ?op (map as_nd (ln_dec nd)) \<and> int (length (ln_dec nd)) \<le> decode_pool ?op"
      by (rule turnover_wait [OF h assms(2)]) (use nd batches_used [OF d] in \<open>simp_all add: lc_node_ok_def\<close>)
    then show "int (length (ln_dec (nd\<lparr>ln_pf := pf'\<rparr>))) \<le> decode_pool ?op"
      "wait_inv (nat (decode_pool ?op)) ?op (map as_nd (ln_dec (nd\<lparr>ln_pf := pf'\<rparr>)))" by simp_all
    show "\<forall>q \<in> set (ln_pf (nd\<lparr>ln_pf := pf'\<rparr>)). pf_depth q" using depth new(1,3) by (auto simp: pf)
    show "\<forall>q \<in> set (ln_ready (nd\<lparr>ln_pf := pf'\<rparr>)). sp_processed q = sp_prompt q"
      using rdy nd depth by (fastforce simp: lc_node_ok_def pf_depth_def pf_complete_def)
    show "length (ln_pf (nd\<lparr>ln_pf := pf'\<rparr>)) = nat (prefill_pool ?op)" using new(1,2) le by simp
  qed
  moreover have "lc_balance (lc_nodes st') k"
  proof -
    have c: "counts_ok (lc_count st)" using bal by (simp add: lc_balance_def)
    have "lc_admit_cls k ! c = lc_comp_cls k ! c + resident_class c ((lc_nodes st)[z := nd\<lparr>ln_pf := pf'\<rparr>])" if "c < 3" for c
      using turnover_counts(2) [OF h c that] bal that by (simp add: resident_class_update [OF z] lc_balance_def)
    then show ?thesis using turnover_counts(1) [OF h c] by (simp add: lc_balance_def st')
  qed
  ultimately show ?thesis
    using assms(3) by (auto simp: lc_ok_def st' dest!: set_update_subset_insert [THEN subsetD])
qed

text \<open>A relation that every node's step keeps is kept by the round and by the loop.\<close>

lemma lc_nodes_step_keeps:
  assumes "lc_nodes_step env zs (st, t) = Some (st', t')" and "I st t"
    and "\<And>z st t st' t'. z \<in> set zs \<Longrightarrow> I st t \<Longrightarrow> lc_node_step env z (st, t) = Some (st', t') \<Longrightarrow> I st' t'"
  shows "I st' t'"
  using assms
proof (induction zs arbitrary: st t)
  case (Cons z zs)
  then obtain st1 t1 where s: "lc_node_step env z (st, t) = Some (st1, t1)" "lc_nodes_step env zs (st1, t1) = Some (st', t')"
    by (auto split: option.splits)
  have "I st1 t1" using Cons.prems(3) [OF _ Cons.prems(2) s(1)] by simp
  then show ?case by (rule Cons.IH [OF s(2)]) (rule Cons.prems(3), simp_all)
qed simp

lemma lc_round_ok:
  assumes "lc_nodes_step env [0..<le_Z env] (st, t) = Some (st', t')" and "lc_env_ok env" and "lc_ok env st"
  shows "lc_ok env st'"
  by (rule lc_nodes_step_keeps [where I = "\<lambda>st t. lc_ok env st", OF assms(1,3)])
    (use lc_node_step_ok assms(2) in auto)

lemma lc_loop_keeps:
  assumes "lc_loop env n it st a = Some (st', a')" and "J st a"
    and "\<And>it st a st' r. J st a \<Longrightarrow> lc_nodes_step env [0..<le_Z env] (st, zero_tally) = Some (st', r)
        \<Longrightarrow> J st' (accumulate env it r a)"
  shows "J st' a'"
  using assms
proof (induction n arbitrary: it st a)
  case (Suc n)
  then obtain st1 r where s: "lc_nodes_step env [0..<le_Z env] (st, zero_tally) = Some (st1, r)"
    "lc_loop env n (it + 1) st1 (accumulate env it r a) = Some (st', a')" by (auto split: option.splits)
  from Suc.IH [OF s(2) Suc.prems(3) [OF Suc.prems(2) s(1)]] Suc.prems(3) show ?case by blast
qed simp

section \<open>The start\<close>

lemma cold_decoders_new:
  assumes "cold_decoders lib ps g pl k = (pl', g', k')" and "length (lc_admit_cls k) = 3"
  shows "\<exists>new. pl' = pl @ new \<and> length new = length ps \<and> (\<forall>q \<in> set new. ld_wait q = 0)
    \<and> (\<forall>c < 3. lc_admit_cls k' ! c - class_count c pl' = lc_admit_cls k ! c - class_count c pl)
    \<and> length (lc_admit_cls k') = 3 \<and> lc_comp_cls k' = lc_comp_cls k \<and> lc_completions k' = lc_completions k"
  using assms
proof (induction ps arbitrary: g pl k)
  case (Cons p ps)
  obtain d g1 where d: "sample_dtot lib g = (d, g1)" by fastforce
  have "length (lc_admit_cls (count_admit p k)) = 3" using Cons.prems(2) by (simp add: count_admit_def)
  from Cons.IH [OF _ this] Cons.prems(1) d obtain new where
    "pl' = pl @ fresh_decoder p d # new" "length new = length ps" "\<forall>q \<in> set new. ld_wait q = 0"
    "\<forall>c < 3. lc_admit_cls k' ! c - class_count c pl' = lc_admit_cls (count_admit p k) ! c - class_count c (pl @ [fresh_decoder p d])"
    "length (lc_admit_cls k') = 3" "lc_comp_cls k' = lc_comp_cls k" "lc_completions k' = lc_completions k"
    by (fastforce simp: count_admit_def)
  then show ?case using Cons.prems(2)
    by (intro exI [of _ "fresh_decoder p d # new"]) (auto simp: count_admit_def nth_bump)
qed auto

lemma cold_top_up_new:
  assumes "cold_top_up n lib op g pl s k = (pl', s', k')" and "length (lc_admit_cls k) = 3"
  shows "\<exists>new. pl' = pl @ new \<and> length new \<le> n \<and> (\<forall>q \<in> set new. ld_wait q = 0)
    \<and> (\<forall>c < 3. lc_admit_cls k' ! c - class_count c pl' = lc_admit_cls k ! c - class_count c pl)
    \<and> length (lc_admit_cls k') = 3 \<and> lc_comp_cls k' = lc_comp_cls k \<and> lc_completions k' = lc_completions k"
  using assms
proof (induction n arbitrary: g pl s k)
  case (Suc n)
  obtain hole g1 where hole: "(if pl = [] then (to_i32 (ctx_balance op), g)
      else (case lib_next lib g of (v, g) \<Rightarrow> (ld_prompt (pl ! (v mod length pl)), g))) = (hole, g1)" by fastforce
  obtain r pl1 s1 where a: "admit_hole lib op hole pl s = (r, pl1, s1)" using prod_cases3 by blast
  show ?case
  proof (cases r)
    case None
    with Suc.prems hole a admit_hole_cases [OF a] show ?thesis by auto
  next
    case (Some p)
    then obtain d where pl1: "pl1 = pl @ [fresh_decoder p d]" using admit_hole_cases [OF a] by auto
    have t: "cold_top_up n lib op g1 pl1 s1 (count_admit p k) = (pl', s', k')" using Suc.prems(1) hole a Some by simp
    have "length (lc_admit_cls (count_admit p k)) = 3" using Suc.prems(2) by (simp add: count_admit_def)
    from Suc.IH [OF t this] obtain new where
      "pl' = pl @ fresh_decoder p d # new" "length new \<le> n" "\<forall>q \<in> set new. ld_wait q = 0"
      "\<forall>c < 3. lc_admit_cls k' ! c - class_count c pl' = lc_admit_cls (count_admit p k) ! c - class_count c pl1"
      "length (lc_admit_cls k') = 3" "lc_comp_cls k' = lc_comp_cls k" "lc_completions k' = lc_completions k"
      by (fastforce simp: count_admit_def pl1)
    then show ?thesis using Suc.prems(2)
      by (intro exI [of _ "fresh_decoder p d # new"]) (auto simp: count_admit_def nth_bump pl1)
  qed
qed auto

definition cold_ok :: "'g LcEnv \<Rightarrow> 'g LcNode \<Rightarrow> bool" where
  "cold_ok env nd \<longleftrightarrow> int (length (ln_dec nd)) \<le> decode_pool (le_op env)
     \<and> wait_inv (nat (decode_pool (le_op env))) (le_op env) (map as_nd (ln_dec nd)) \<and> ln_pf nd = [] \<and> ln_ready nd = []"

lemma lc_cold_node_ok:
  assumes "lc_cold_node env cnodes z k = (nd, k')" and "lc_env_ok env" and "length (lc_admit_cls k) = 3"
  shows "cold_ok env nd \<and> (\<forall>c < 3. lc_admit_cls k' ! c = lc_admit_cls k ! c + class_count c (ln_dec nd))
    \<and> length (lc_admit_cls k') = 3 \<and> lc_comp_cls k' = lc_comp_cls k \<and> lc_completions k' = lc_completions k"
proof -
  let ?op = "le_op env" and ?lens = "cn_lengths (cnodes ! z)"
  let ?ps = "take (nat (min (int (length ?lens)) (decode_pool ?op))) ?lens"
  obtain pl1 g1 k1 where c: "cold_decoders (le_lib env) ?ps (lib_seed (le_lib env) (le_seed env + 200 + z)) [] k = (pl1, g1, k1)"
    using prod_cases3 by blast
  obtain pl2 s2 where t: "cold_top_up (nat (decode_pool ?op - int (length pl1))) (le_lib env) ?op g1 pl1
      (make_workload (le_lib env) (le_seed env + 100 + z) (le_k env)) k1 = (pl2, s2, k')"
    and nd: "nd = \<lparr>ln_dec = pl2, ln_pf = [], ln_ready = [], ln_src = s2\<rparr>"
    using assms(1) c by (fastforce simp: lc_cold_node_def Let_def split: prod.splits)
  from cold_decoders_new [OF c assms(3)] have a: "length pl1 = length ?ps" "\<forall>q \<in> set pl1. ld_wait q = 0"
    "\<forall>c < 3. lc_admit_cls k1 ! c = lc_admit_cls k ! c + class_count c pl1" "length (lc_admit_cls k1) = 3"
    "lc_comp_cls k1 = lc_comp_cls k" "lc_completions k1 = lc_completions k" by (auto simp: algebra_simps)
  from cold_top_up_new [OF t a(4)] obtain new where b: "pl2 = pl1 @ new" "length new \<le> nat (decode_pool ?op - int (length pl1))"
    "\<forall>q \<in> set new. ld_wait q = 0" "\<forall>c < 3. lc_admit_cls k' ! c - class_count c pl2 = lc_admit_cls k1 ! c - class_count c pl1"
    "length (lc_admit_cls k') = 3" "lc_comp_cls k' = lc_comp_cls k1" "lc_completions k' = lc_completions k1" by blast
  have p: "0 \<le> decode_pool ?op" "0 \<le> age_cap ?op" using assms(2) by (simp_all add: lc_env_ok_def)
  then have "int (length pl1) \<le> decode_pool ?op" by (simp add: a(1))
  then have len: "int (length pl2) \<le> decode_pool ?op" using b(1,2) by simp
  have "wait_inv (nat (decode_pool ?op)) ?op (map as_nd pl2)"
    using len p a(2) b(1,3) by (intro wait_inv_start) auto
  with len a b nd show ?thesis by (auto simp: cold_ok_def algebra_simps)
qed

lemma lc_cold_nodes_ok:
  assumes "lc_cold_nodes env cnodes zs k = (nds, k')" and "lc_env_ok env" and "length (lc_admit_cls k) = 3"
  shows "length nds = length zs \<and> (\<forall>nd \<in> set nds. cold_ok env nd)
    \<and> (\<forall>c < 3. lc_admit_cls k' ! c = lc_admit_cls k ! c + resident_class c nds)
    \<and> length (lc_admit_cls k') = 3 \<and> lc_comp_cls k' = lc_comp_cls k \<and> lc_completions k' = lc_completions k"
  using assms(1,3)
proof (induction zs arbitrary: nds k)
  case (Cons z zs)
  obtain nd k1 where n: "lc_cold_node env cnodes z k = (nd, k1)" by fastforce
  obtain nds1 where r: "lc_cold_nodes env cnodes zs k1 = (nds1, k')" "nds = nd # nds1"
    using Cons.prems(1) n by (fastforce split: prod.splits)
  note a = lc_cold_node_ok [OF n assms(2) Cons.prems(2)]
  then have "length (lc_admit_cls k1) = 3" by simp
  from Cons.IH [OF r(1) this] a show ?case by (simp add: r(2))
qed simp

lemma pf_start_nodes_ok:
  assumes "pf_start_nodes env nds g = Some (nds', g')" and "lc_env_ok env" and "\<forall>nd \<in> set nds. cold_ok env nd"
  shows "map ln_dec nds' = map ln_dec nds \<and> (\<forall>nd \<in> set nds'. lc_node_ok env nd)"
  using assms(1,3)
proof (induction nds arbitrary: g nds')
  case (Cons nd nds)
  obtain pf g1 where p: "pf_start (nat (prefill_pool (le_op env))) (le_lib env) (le_cutoff env) g (ln_pf nd) = Some (pf, g1)"
    using Cons.prems(1) by (auto split: option.splits)
  obtain nds1 where r: "pf_start_nodes env nds g1 = Some (nds1, g')" "nds' = nd\<lparr>ln_pf := pf\<rparr> # nds1"
    using Cons.prems(1) p by (auto split: option.splits)
  obtain new where "pf = ln_pf nd @ new" "length new = nat (prefill_pool (le_op env))" "\<forall>q \<in> set new. pf_depth q"
    using pf_start_new [OF p] assms(2) by (auto simp: lc_env_ok_def)
  then have "lc_node_ok env (nd\<lparr>ln_pf := pf\<rparr>)"
    using Cons.prems(2) by (simp add: lc_node_ok_def cold_ok_def)
  with Cons.IH [OF r(1)] Cons.prems(2) show ?case by (simp add: r(2))
qed simp

lemma resident_class_dec: "map ln_dec nds = map ln_dec nds' \<Longrightarrow> resident_class c nds = resident_class c nds'"
  unfolding resident_class_def by (drule arg_cong [where f = "\<lambda>x. sum_list (map (class_count c) x)"]) (simp add: o_def)

lemma lc_init_ok:
  assumes "lc_init env = Some st" and "lc_env_ok env"
  shows "lc_ok env st"
proof -
  let ?k0 = "\<lparr>lc_admit_cls = [0, 0, 0], lc_comp_cls = [0, 0, 0], lc_transitions = 0, lc_completions = 0\<rparr>"
  obtain nds k where c: "lc_cold_start env = (nds, k)" by fastforce
  obtain nds' g where p: "pf_start_nodes env nds (lib_seed (le_lib env) (le_seed env + 300)) = Some (nds', g)"
    and st: "st = \<lparr>lc_nodes = nds', lc_pf_rng = g, lc_count = k\<rparr>"
    using assms(1) c by (auto simp: lc_init_def split: option.splits)
  have three: "c < 3 \<Longrightarrow> c = 0 \<or> c = 1 \<or> c = (2 :: nat)" for c by auto
  obtain cn where "lc_cold_nodes env cn [0..<le_Z env] ?k0 = (nds, k)"
    using c by (auto simp: lc_cold_start_def Let_def)
  from lc_cold_nodes_ok [OF this assms(2)] have a: "length nds = le_Z env" "\<forall>nd \<in> set nds. cold_ok env nd"
    "\<forall>c < 3. lc_admit_cls k ! c = [0, 0, 0] ! c + resident_class c nds" "length (lc_admit_cls k) = 3"
    "lc_comp_cls k = [0, 0, 0]" "lc_completions k = 0" by simp_all
  note b = pf_start_nodes_ok [OF p assms(2) a(2)]
  then have "length nds' = le_Z env" using a(1) by (metis length_map)
  moreover have "resident_class c nds' = resident_class c nds" for c by (rule resident_class_dec) (use b in simp)
  ultimately show ?thesis using a b by (auto simp: lc_ok_def st lc_balance_def counts_ok_def)
qed

lemma lc_run_ok:
  assumes "lc_run env = Some (st, a)" and "lc_env_ok env" shows "lc_ok env st"
proof -
  obtain st0 where i: "lc_init env = Some st0"
    and l: "lc_loop env (nat (le_iters env)) 0 st0 \<lparr>ac_sum = zero_tally, ac_n = 0, ac_early = None\<rparr> = Some (st, a)"
    using assms(1) by (auto simp: lc_run_def split: option.splits)
  show ?thesis
    by (rule lc_loop_keeps [where J = "\<lambda>st a. lc_ok env st", OF l lc_init_ok [OF i assms(2)]])
      (use lc_round_ok assms(2) in blast)
qed

section \<open>The account of the misses\<close>

definition misses_ok :: "LcTally \<Rightarrow> bool" where
  "misses_ok t \<longleftrightarrow> t_miss t = t_b1cm t + t_b1dm t + t_b2cm t + t_b2dm t
     \<and> 0 \<le> t_b1cm t \<and> 0 \<le> t_b1dm t \<and> 0 \<le> t_b2cm t \<and> 0 \<le> t_b2dm t"

lemma tally_batch_misses: "misses_ok t \<Longrightarrow> misses_ok (tally_batch op second b t)"
  by (simp add: tally_batch_def misses_ok_def Let_def)

lemma lc_node_step_misses:
  assumes "lc_node_step env z (st, t) = Some (st', t')" and "misses_ok t" shows "misses_ok t'"
proof (rule lc_node_stepE [OF assms(1)])
  fix b1 b2 d1 d2 nd pf' t1
  assume t1: "t1 = tally_decode (le_op env) (ln_dec (lc_nodes st ! z)) d1 d2
      (tally_prefill (le_op env) (ln_pf (lc_nodes st ! z)) b1 b2 t)"
    and t': "t' = tally_sizes (nd\<lparr>ln_pf := pf'\<rparr>) (tally_pool (le_op env) (ln_dec (lc_nodes st ! z)) t1)"
  have "misses_ok (tally_decode op dec d1 d2 t)" if "misses_ok t" for op dec t
    using tally_batch_misses that
    by (cases d2) (simp_all add: tally_decode_def Let_def misses_ok_def)
  moreover have "misses_ok (tally_prefill op pf b1 b2 t)" for op pf
    using assms(2) by (simp add: tally_prefill_def misses_ok_def)
  ultimately have "misses_ok t1" by (simp add: t1)
  then show "misses_ok t'" by (simp add: t' tally_sizes_def tally_pool_def misses_ok_def Let_def)
qed

lemma lc_run_misses:
  fixes env :: "'g LcEnv"
  assumes "lc_run env = Some (st, a)" shows "misses_ok (ac_sum a)"
proof -
  obtain st0 where l: "lc_loop env (nat (le_iters env)) 0 st0 \<lparr>ac_sum = zero_tally, ac_n = 0, ac_early = None\<rparr> = Some (st, a)"
    using assms by (auto simp: lc_run_def split: option.splits)
  have z: "misses_ok zero_tally" by (simp add: misses_ok_def zero_tally_def)
  show ?thesis
  proof (rule lc_loop_keeps [where J = "\<lambda>st a. misses_ok (ac_sum a)", OF l])
    show "misses_ok (ac_sum \<lparr>ac_sum = zero_tally, ac_n = 0, ac_early = None\<rparr>)" using z by simp
    fix it :: int and st st' :: "'g LcState" and a :: LcAcc and r :: LcTally
    assume a: "misses_ok (ac_sum a)" and s: "lc_nodes_step env [0..<le_Z env] (st, zero_tally) = Some (st', r)"
    have "misses_ok r"
      by (rule lc_nodes_step_keeps [where I = "\<lambda>st t. misses_ok t", OF s z]) (use lc_node_step_misses in blast)
    with a show "misses_ok (ac_sum (accumulate env it r a))"
      by (simp add: accumulate_def add_round_def Let_def misses_ok_def)
  qed
qed

section \<open>Returning\<close>

lemma gated_returns: "cutoff_ok lib cutoff \<Longrightarrow> \<exists>p g'. gated_sample lib cutoff g = Some (p, g')"
  using gated_sample_some [of _ lib _ g cutoff] unfolding cutoff_ok_def by metis

lemma pf_refill_returns: "cutoff_ok lib cutoff \<Longrightarrow> \<exists>r. pf_refill n lib cutoff g pf = Some r"
proof (induction n arbitrary: g pf)
  case (Suc n)
  then show ?case using gated_returns [OF Suc.prems, of g] by (auto split: prod.splits)
qed simp

lemma pf_start_returns: "cutoff_ok lib cutoff \<Longrightarrow> \<exists>r. pf_start n lib cutoff g pf = Some r"
proof (induction n arbitrary: g pf)
  case (Suc n)
  then show ?case using gated_returns [OF Suc.prems, of g] by (auto split: prod.splits)
qed simp

lemma pf_start_nodes_returns: "cutoff_ok (le_lib env) (le_cutoff env) \<Longrightarrow> \<exists>r. pf_start_nodes env nds g = Some r"
proof (induction nds arbitrary: g)
  case (Cons nd nds)
  obtain pf g1 where p: "pf_start (nat (prefill_pool (le_op env))) (le_lib env) (le_cutoff env) g (ln_pf nd) = Some (pf, g1)"
    using pf_start_returns [OF Cons.prems] by fastforce
  with Cons.IH [OF Cons.prems, of g1] show ?case by auto
qed simp

lemma lc_nodes_step_returns:
  "cutoff_ok (le_lib env) (le_cutoff env) \<Longrightarrow> \<exists>r. lc_nodes_step env zs st_t = Some r"
proof (induction zs arbitrary: st_t)
  case (Cons z zs)
  have "\<exists>s. lc_node_step env z st_t = Some s"
    by (simp add: lc_node_step_def Let_def split: prod.splits option.splits)
      (use pf_refill_returns [OF Cons.prems] in \<open>metis option.distinct(1)\<close>)
  with Cons show ?case by auto
qed simp

lemma lc_loop_returns:
  "cutoff_ok (le_lib env) (le_cutoff env) \<Longrightarrow> \<exists>r. lc_loop env n it st a = Some r"
proof (induction n arbitrary: it st a)
  case (Suc n)
  obtain st1 r where "lc_nodes_step env [0..<le_Z env] (st, zero_tally) = Some (st1, r)"
    using lc_nodes_step_returns [OF Suc.prems] by fastforce
  with Suc show ?case by auto
qed simp

end
