(* ===== verification/Lifecycle_Props.thy ===== *)
theory Lifecycle_Props
  imports Lifecycle_Correct
begin

text \<open>
  The properties of \<open>sim/lifecycle.cpp\<close>, with a small run for the witnesses.
\<close>

section \<open>Healing\<close>

lemma lc_heal_refines:
  assumes "lc_heal lib op holes nd k = (nd', k')" and "ln_ready nd = []"
    and "length (ln_dec nd') = length (ln_dec nd) + length holes"
  shows "heal_holes op (workload_pull_near lib) holes (map as_nd (ln_dec nd)) (ln_src nd) = (map as_nd (ln_dec nd'), ln_src nd')
    \<and> ln_ready nd' = []"
  using assms
proof (induction holes arbitrary: nd k)
  case (Cons h hs)
  obtain r s where p: "workload_pull_near lib (ln_src nd) (dbl h) (node_cap_room op) = (r, s)" by fastforce
  show ?case
  proof (cases "req_prompt r < 0")
    case True
    then have "ln_dec nd' = ln_dec nd"
      using Cons.prems(1,2) p by (auto simp: admit_hole_def node_cap_room_def Let_def)
    then show ?thesis using Cons.prems(3) by simp
  next
    case False
    let ?q = "fresh_decoder (req_prompt r) (req_dtot r)"
    let ?nd = "nd\<lparr>ln_dec := ln_dec nd @ [?q], ln_src := s\<rparr>"
    have h: "lc_heal lib op hs ?nd (count_admit (req_prompt r) k) = (nd', k')"
      using Cons.prems(1,2) p False by (simp add: admit_hole_def node_cap_room_def Let_def)
    have "admit r (map as_nd (ln_dec nd)) = map as_nd (ln_dec ?nd)"
      using False by (simp add: admit_def as_nd_def)
    with Cons.IH [OF h] Cons.prems(2,3) p show ?thesis by simp
  qed
qed simp

lemma lc_heal_ready:
  assumes "length holes \<le> length (ln_ready nd)"
  defines "n \<equiv> length (ln_ready nd) - length holes"
  shows "\<exists>k'. lc_heal lib op holes nd k =
      (nd\<lparr>ln_ready := take n (ln_ready nd),
          ln_dec := ln_dec nd @ map (\<lambda>t. fresh_decoder (sp_prompt t) (sp_dtot t)) (rev (drop n (ln_ready nd)))\<rparr>, k')
    \<and> lc_transitions k' = lc_transitions k + int (length holes)"
  using assms(1) unfolding n_def
proof (induction holes arbitrary: nd k)
  case (Cons h hs)
  let ?R = "ln_ready nd" and ?f = "\<lambda>t. fresh_decoder (sp_prompt t) (sp_dtot t)"
  have ne: "?R \<noteq> []" using Cons.prems by auto
  obtain nd1 k1 where r: "ready_decoder nd k = (nd1, k1)" by fastforce
  then have nd1: "nd1 = nd\<lparr>ln_ready := butlast ?R, ln_dec := ln_dec nd @ [?f (last ?R)]\<rparr>"
    and k1: "lc_transitions k1 = lc_transitions k + 1"
    by (auto simp: ready_decoder_def Let_def count_admit_def)
  let ?n = "length ?R - Suc (length hs)"
  have len: "length (butlast ?R) - length hs = ?n" by simp
  have "take ?n (butlast ?R) = take ?n ?R" by (simp add: take_butlast Cons.prems ne)
  moreover have "drop ?n ?R = drop ?n (butlast ?R) @ [last ?R]"
    using ne Cons.prems by (metis append_butlast_last_id drop_append length_butlast One_nat_def diff_le_self diff_Suc_eq_diff_pred drop_0 diff_is_0_eq')
  moreover have "length hs \<le> length (ln_ready nd1)" using Cons.prems by (simp add: nd1)
  ultimately show ?case using Cons.IH [of nd1 k1] ne r k1 by (auto simp: nd1 len)
qed simp

section \<open>A small run for the witnesses\<close>

definition lc_demo :: "nat LcEnv" where
  "lc_demo = \<lparr>le_lib = toy_lib, le_op = demo_op, le_Z = 2, le_iters = 4, le_warm = 1, le_k = 3, le_seed = 7,
     le_cutoff = 100000, le_edge_frac = dlit 0\<rparr>"

lemma lc_demo_ok: "lc_env_ok lc_demo"
proof -
  have "unit_ok toy_lib"
  proof -
    have all: "list_all (\<lambda>n. Fin 0 \<le> dlit (of_nat n / 10) \<and> dlit (of_nat n / 10) \<le> Fin 1) [0..<10]" by code_simp
    have "Fin 0 \<le> dlit (of_nat (g mod 10) / 10) \<and> dlit (of_nat (g mod 10) / 10) \<le> Fin 1" for g :: nat
      using all by (simp add: list_all_iff)
    then show ?thesis by (simp add: unit_ok_def toy_lib_def)
  qed
  then show ?thesis by (simp add: lc_env_ok_def lc_demo_def demo_op_def small_op_def toy_lengths)
qed

lemma lc_demo_cutoff: "cutoff_ok (le_lib lc_demo) (le_cutoff lc_demo)"
  by (simp add: lc_demo_def toy_cutoff)

lemma lc_demo_nodes: "lc_run lc_demo = Some (st, a) \<Longrightarrow> hd (lc_nodes st) \<in> set (lc_nodes st)"
  using lc_run_ok [OF _ lc_demo_ok, of st a] by (intro hd_in_set) (auto simp: lc_ok_def lc_demo_def)

lemma lc_run_exists: "cutoff_ok (le_lib env) (le_cutoff env) \<Longrightarrow> \<exists>st a. lc_run env = Some (st, a)"
proof -
  assume ok: "cutoff_ok (le_lib env) (le_cutoff env)"
  obtain nds k where c: "lc_cold_start env = (nds, k)" by fastforce
  obtain nds' g where p: "pf_start_nodes env nds (lib_seed (le_lib env) (le_seed env + 300)) = Some (nds', g)"
    using pf_start_nodes_returns [OF ok] by fastforce
  then show ?thesis using lc_loop_returns [OF ok] c by (fastforce simp: lc_run_def lc_init_def)
qed

text \<open>One decoder of the three is about to finish; two requests are ready.\<close>

definition lc_demo_node :: "nat LcNode" where
  "lc_demo_node = \<lparr>ln_dec = [\<lparr>ld_prompt = 40000, ld_dtot = 5, ld_dec = 4, ld_wait = 0\<rparr>,
       \<lparr>ld_prompt = 50000, ld_dtot = 9, ld_dec = 1, ld_wait = 0\<rparr>, \<lparr>ld_prompt = 60000, ld_dtot = 9, ld_dec = 2, ld_wait = 0\<rparr>],
     ln_pf = [\<lparr>sp_prompt = 20, sp_dtot = 5, sp_processed = 9, sp_wait = 0\<rparr>, \<lparr>sp_prompt = 3, sp_dtot = 5, sp_processed = 2, sp_wait = 9\<rparr>,
       \<lparr>sp_prompt = 30, sp_dtot = 5, sp_processed = 0, sp_wait = 1\<rparr>],
     ln_ready = [], ln_src = make_workload toy_lib 0 3\<rparr>"

definition lc_demo_count :: LcCount where
  "lc_demo_count = \<lparr>lc_admit_cls = [0, 3, 0], lc_comp_cls = [0, 0, 0], lc_transitions = 0, lc_completions = 0\<rparr>"

definition lc_demo_ready :: "SimPrefill list" where
  "lc_demo_ready = [\<lparr>sp_prompt = 20, sp_dtot = 5, sp_processed = 20, sp_wait = 0\<rparr>, \<lparr>sp_prompt = 30, sp_dtot = 6, sp_processed = 30, sp_wait = 0\<rparr>]"

section \<open>Properties\<close>

text \<open>C19: The decode side of a lifecycle round is the round of the node scheduler over the workload
  source: while no prefill is ready and the source fills every hole, advancing, retiring and
  healing give the same pool, the same source and the same number of completions.\<close>
theorem lc_turnover_refines:
  assumes "lc_batches (le_op env) (ln_dec nd) = (d1, d2, used)" and "lc_turnover env used nd k = (nd', k')"
    and "counts_ok k" and "ln_ready nd = []" and "length (ln_dec nd') = length (ln_dec nd)"
  shows "advance_round (le_op env) (workload_pull_near (le_lib env)) \<lparr>pool = map as_nd (ln_dec nd), src = ln_src nd\<rparr>
    = (lc_completions k' - lc_completions k, \<lparr>pool = map as_nd (ln_dec nd'), src = ln_src nd'\<rparr>)"
proof -
  let ?dec = "ld_advance used (ln_dec nd)" and ?op = "le_op env"
  let ?gone = "filter ld_done ?dec" and ?nd = "nd\<lparr>ln_dec := filter (\<lambda>q. \<not> ld_done q) (ld_advance used (ln_dec nd))\<rparr>"
  let ?k = "fold count_done ?gone k"
  obtain nd1 k1 where h: "lc_heal (le_lib env) ?op (map ld_prompt ?gone) ?nd ?k = (nd1, k1)" by fastforce
  have a: "lc_absorb ?op nd1 k1 = (nd', k')" using assms(2) h by (simp add: lc_turnover_def Let_def)
  obtain new where g: "grown ?nd ?k nd1 k1 new" using lc_heal_grown [OF h] by blast
  then have r: "ln_ready nd1 = []" using assms(4) by (auto simp: grown_def)
  then have e: "nd' = nd1" "k' = k1" using a by (simp_all add: lc_absorb.simps)
  have "length (ln_dec nd1) = length (ln_dec ?nd) + length (map ld_prompt ?gone)"
    using assms(5) e sum_length_filter_compl [of ld_done ?dec] by simp
  with lc_heal_refines [OF h] assms(4)
  have "heal_holes ?op (workload_pull_near (le_lib env)) (map ld_prompt ?gone) (map as_nd (filter (\<lambda>q. \<not> ld_done q) ?dec)) (ln_src nd)
      = (map as_nd (ln_dec nd1), ln_src nd1)" by simp
  moreover have "map ld_prompt ?gone = map nd_prompt (map as_nd ?gone)" by (simp add: o_def)
  moreover have "lc_completions k1 = lc_completions k + int (length ?gone)"
    using g fold_count_done [OF assms(3), of ?gone] by (simp add: grown_def)
  ultimately show ?thesis
    unfolding advance_round_def
    by (simp add: Let_def e batches_used [OF assms(1), symmetric] filter_as_nd advance_as_nd flip: length_map [of as_nd])
qed

theorem lc_turnover_refines_witness:
  "advance_round demo_op (workload_pull_near toy_lib) \<lparr>pool = map as_nd (ln_dec lc_demo_node), src = make_workload toy_lib 0 3\<rparr>
     = (1, \<lparr>pool = [\<lparr>nd_prompt = 50000, nd_dtot = 9, nd_dec = 2, nd_wait = 0\<rparr>, \<lparr>nd_prompt = 60000, nd_dtot = 9, nd_dec = 2, nd_wait = 1\<rparr>,
         \<lparr>nd_prompt = 2500, nd_dtot = 2500, nd_dec = 0, nd_wait = 0\<rparr>], src = \<lparr>ws_rng = 6, ws_k = 3\<rparr>\<rparr>)"
proof -
  let ?nd = "lc_demo_node\<lparr>ln_dec := [\<lparr>ld_prompt = 50000, ld_dtot = 9, ld_dec = 2, ld_wait = 0\<rparr>,
      \<lparr>ld_prompt = 60000, ld_dtot = 9, ld_dec = 2, ld_wait = 1\<rparr>, \<lparr>ld_prompt = 2500, ld_dtot = 2500, ld_dec = 0, ld_wait = 0\<rparr>],
      ln_src := \<lparr>ws_rng = 6, ws_k = 3\<rparr>\<rparr>"
  have e: "le_op lc_demo = demo_op" "le_lib lc_demo = toy_lib" by (simp_all add: lc_demo_def)
  have b: "snd (snd (lc_batches demo_op (ln_dec lc_demo_node))) = [True, True, False]" by code_simp
  obtain d1 d2 where d: "lc_batches (le_op lc_demo) (ln_dec lc_demo_node) = (d1, d2, [True, True, False])"
    using b by (metis e(1) prod.collapse)
  have t: "lc_turnover lc_demo [True, True, False] lc_demo_node lc_demo_count =
      (?nd, \<lparr>lc_admit_cls = [1, 3, 0], lc_comp_cls = [0, 1, 0], lc_transitions = 0, lc_completions = 1\<rparr>)" by code_simp
  have c: "counts_ok lc_demo_count" by (simp add: counts_ok_def lc_demo_count_def)
  show ?thesis
    using lc_turnover_refines [OF d t c] by (simp add: e lc_demo_node_def lc_demo_count_def as_nd_def)
qed

text \<open>C21: The two prefill batches of a round never work on the same request, each stays within
  the token budget, and neither takes a request beyond its prompt: after the round every
  request is still between 0 and its length.\<close>
theorem lc_prefill_disjoint:
  assumes "pf_two op pf = (b1, b2)" and "\<forall>q \<in> set pf. pf_depth q"
  shows "(\<forall>i < length pf. \<not> (0 < pv_chunk b1 ! i \<and> 0 < pv_chunk b2 ! i) \<and> 0 \<le> pv_chunk b1 ! i \<and> 0 \<le> pv_chunk b2 ! i
      \<and> sp_processed (pf ! i) + pv_chunk b1 ! i + pv_chunk b2 ! i \<le> sp_prompt (pf ! i))
    \<and> (\<Sum>i<length pf. pv_chunk b1 ! i) \<le> max 0 (prefill_tokens op) \<and> (\<Sum>i<length pf. pv_chunk b2 ! i) \<le> max 0 (prefill_tokens op)
    \<and> (\<forall>q \<in> set (pf_progress (pv_chunk b1) (pv_chunk b2) pf). pf_depth q)"
proof -
  have "\<not> (0 < pv_chunk b1 ! i \<and> 0 < pv_chunk b2 ! i) \<and> 0 \<le> pv_chunk b1 ! i \<and> 0 \<le> pv_chunk b2 ! i
      \<and> sp_processed (pf ! i) + pv_chunk b1 ! i + pv_chunk b2 ! i \<le> sp_prompt (pf ! i)" if i: "i < length pf" for i
    using pf_two_chunks(3,4,5) [OF assms(1) i] assms(2) nth_mem [OF i] by (auto simp: pf_depth_def)
  then show ?thesis using pf_two_chunks(6,7) [OF assms(1)] pf_progress_depth [OF assms] by blast
qed

theorem lc_prefill_disjoint_witness:
  "map pv_chunk [fst (pf_two demo_op (ln_pf lc_demo_node)), snd (pf_two demo_op (ln_pf lc_demo_node))] = [[3, 1, 0], [0, 0, 4]]
   \<and> list_all pf_depth (pf_progress [3, 1, 0] [0, 0, 4] (ln_pf lc_demo_node))"
proof -
  have v: "map pv_chunk [fst (pf_two demo_op (ln_pf lc_demo_node)), snd (pf_two demo_op (ln_pf lc_demo_node))] = [[3, 1, 0], [0, 0, 4]]"
    by code_simp
  have d: "\<forall>q \<in> set (ln_pf lc_demo_node). pf_depth q" by (simp add: lc_demo_node_def pf_depth_def)
  show ?thesis using lc_prefill_disjoint [OF prod.collapse [symmetric] d, of demo_op] v by (simp add: list_all_iff)
qed

text \<open>C20: The account of the length classes closes over the whole run: of every class, what was
  admitted (at the start, by transition, by healing) is what has finished and what is
  resident, and the completions are the sum over the classes.\<close>
theorem lc_class_balance:
  assumes "lc_run env = Some (st, a)" and "lc_env_ok env"
  shows "(\<forall>c < 3. lc_admit_cls (lc_count st) ! c = lc_comp_cls (lc_count st) ! c + resident_class c (lc_nodes st))
    \<and> lc_completions (lc_count st) = sum_list (lc_comp_cls (lc_count st))"
  using lc_run_ok [OF assms] by (simp add: lc_ok_def lc_balance_def counts_ok_def)

theorem lc_class_balance_witness:
  "\<exists>st a. lc_run lc_demo = Some (st, a) \<and> lc_admit_cls (lc_count st) ! 1 = lc_comp_cls (lc_count st) ! 1 + resident_class 1 (lc_nodes st)"
proof -
  obtain st a where r: "lc_run lc_demo = Some (st, a)" using lc_run_exists [OF lc_demo_cutoff] by blast
  show ?thesis using lc_class_balance [OF r lc_demo_ok] r by auto
qed

text \<open>C23: In every run no decode pool exceeds its size, every prefill pool is full, nothing is
  prefilled beyond its prompt, and what waits for a decode slot is prefilled exactly.\<close>
theorem lc_pool_bounds:
  assumes "lc_run env = Some (st, a)" and "lc_env_ok env" and "nd \<in> set (lc_nodes st)"
  shows "int (length (ln_dec nd)) \<le> decode_pool (le_op env) \<and> length (ln_pf nd) = nat (prefill_pool (le_op env))
    \<and> (\<forall>q \<in> set (ln_pf nd). 0 \<le> sp_processed q \<and> sp_processed q \<le> sp_prompt q)
    \<and> (\<forall>q \<in> set (ln_ready nd). sp_processed q = sp_prompt q)"
  using lc_run_ok [OF assms(1,2)] assms(3) by (auto simp: lc_ok_def lc_node_ok_def pf_depth_def)

theorem lc_pool_bounds_witness:
  "\<exists>st a. lc_run lc_demo = Some (st, a) \<and> length (ln_pf (hd (lc_nodes st))) = 3 \<and> length (ln_dec (hd (lc_nodes st))) \<le> 3"
proof -
  obtain st a where r: "lc_run lc_demo = Some (st, a)" using lc_run_exists [OF lc_demo_cutoff] by blast
  have "prefill_pool (le_op lc_demo) = 3" "decode_pool (le_op lc_demo) = 3" by (simp_all add: lc_demo_def demo_op_def small_op_def)
  then show ?thesis using lc_pool_bounds [OF r lc_demo_ok lc_demo_nodes [OF r]] r by auto
qed

text \<open>C22: No decoder starves in a lifecycle run: whatever comes by transition or from the source,
  its wait stays below the age cap plus the size of the pool.\<close>
theorem lc_bounded_wait:
  assumes "lc_run env = Some (st, a)" and "lc_env_ok env" and "nd \<in> set (lc_nodes st)" and "q \<in> set (ln_dec nd)"
  shows "ld_wait q < age_cap (le_op env) + decode_pool (le_op env)"
proof -
  have "wait_inv (nat (decode_pool (le_op env))) (le_op env) (map as_nd (ln_dec nd))"
    using lc_run_ok [OF assms(1,2)] assms(3) by (simp add: lc_ok_def lc_node_ok_def)
  from wait_inv_bound [OF this, of "as_nd q"] assms(2,4) show ?thesis by (simp add: lc_env_ok_def)
qed

theorem lc_bounded_wait_witness:
  "\<exists>st a. lc_run lc_demo = Some (st, a) \<and> list_all (\<lambda>q. ld_wait q < 8) (ln_dec (hd (lc_nodes st)))"
proof -
  obtain st a where r: "lc_run lc_demo = Some (st, a)" using lc_run_exists [OF lc_demo_cutoff] by blast
  have "age_cap (le_op lc_demo) = 5" "decode_pool (le_op lc_demo) = 3" by (simp_all add: lc_demo_def demo_op_def small_op_def)
  then show ?thesis using lc_bounded_wait [OF r lc_demo_ok lc_demo_nodes [OF r]] r by (auto simp: list_all_iff)
qed

text \<open>The lifecycle run returns whenever from every state of the generator some draw is within
  the cutoff: its drawing loops are its only unbounded ones.\<close>
theorem lc_returns:
  assumes "cutoff_ok (le_lib env) (le_cutoff env)"
  shows "\<exists>st a. lc_run env = Some (st, a)"
  by (rule lc_run_exists [OF assms])

theorem lc_returns_witness: "\<exists>st a. lc_run lc_demo = Some (st, a)"
  by (rule lc_returns [OF lc_demo_cutoff])

text \<open>The reported misses are partitioned by batch and by cause: their number is the sum of the
  count misses and the deviation misses of both batches, over all rounds after the warm-up.\<close>
theorem lc_miss_partition:
  assumes "lc_run env = Some (st, a)"
  shows "lr_miss (lc_report env st a)
    = t_b1cm (ac_sum a) + t_b1dm (ac_sum a) + t_b2cm (ac_sum a) + t_b2dm (ac_sum a)"
  using lc_run_misses [OF assms] by (simp add: lc_report_def Let_def misses_ok_def)

theorem lc_miss_partition_witness:
  "\<exists>st a. lc_run lc_demo = Some (st, a) \<and> lr_miss (lc_report lc_demo st a)
     = t_b1cm (ac_sum a) + t_b1dm (ac_sum a) + t_b2cm (ac_sum a) + t_b2dm (ac_sum a)"
proof -
  obtain st a where r: "lc_run lc_demo = Some (st, a)" using lc_run_exists [OF lc_demo_cutoff] by blast
  then show ?thesis using lc_miss_partition [OF r] by blast
qed

text \<open>The edge cutoff that the lifecycle driver computes in place is the harness' cutoff for the same
  seed: the maximum of the kept lengths by \<open>max_element\<close> or by a scan from 0.\<close>
theorem lc_edge_is_harness:
  assumes "lengths_ok lib"
  shows "le_cutoff (lc_env lib args op) = edge_cutoff lib (le_op (lc_env lib args op)) 7"
proof -
  have m: "max_element xs = max_kept xs" if "xs \<noteq> []" "\<forall>x \<in> set xs. 0 \<le> x" for xs
    using that by (cases xs) (auto simp: max_kept_def)
  let ?big = "draws lib 200000 (lib_seed lib 1006)" and ?op = "le_op (lc_env lib args op)"
  have nn: "\<forall>x \<in> set (draws lib n g). 0 \<le> x" for n g
    using assms by (induction n arbitrary: g) (auto simp: lengths_ok_def split: prod.splits, metis fst_conv)
  have "fst (lc_edge ?big ?op) = cutoff_of ?big ?op"
    using m [of "kept (gate ?big ?op)"] nn set_kept [of ?big ?op] by (auto simp: lc_edge_def cutoff_of_def Let_def)
  then show ?thesis by (simp add: lc_env_def edge_cutoff_def Let_def)
qed

theorem lc_edge_is_harness_witness:
  "le_cutoff (lc_env toy_lib \<lparr>la_iters = None, la_Z = None, la_age_cap = Some 3, la_best_of_k = None\<rparr> demo_op)
     = edge_cutoff toy_lib (demo_op\<lparr>age_cap := 3\<rparr>) 7"
  using lc_edge_is_harness [OF toy_lengths, of "\<lparr>la_iters = None, la_Z = None, la_age_cap = Some 3, la_best_of_k = None\<rparr>" demo_op]
  by (simp add: lc_env_def Let_def)

text \<open>Ready requests go first: with at least as many ready requests as holes, healing takes the
  last ones in reverse order, asks nothing of the source, and counts each as a transition.\<close>
theorem lc_ready_first:
  assumes "length holes \<le> length (ln_ready nd)" and "lc_heal lib op holes nd k = (nd', k')"
  shows "ln_src nd' = ln_src nd
    \<and> ln_ready nd' = take (length (ln_ready nd) - length holes) (ln_ready nd)
    \<and> ln_dec nd' = ln_dec nd @ map (\<lambda>t. fresh_decoder (sp_prompt t) (sp_dtot t))
        (rev (drop (length (ln_ready nd) - length holes) (ln_ready nd)))
    \<and> lc_transitions k' = lc_transitions k + int (length holes)"
  using lc_heal_ready [OF assms(1), of lib op k] assms(2) by auto

theorem lc_ready_first_witness:
  "ln_dec (fst (lc_heal toy_lib demo_op [70] (lc_demo_node\<lparr>ln_ready := lc_demo_ready\<rparr>) lc_demo_count))
     = ln_dec lc_demo_node @ [fresh_decoder 30 6]
   \<and> lc_transitions (snd (lc_heal toy_lib demo_op [70] (lc_demo_node\<lparr>ln_ready := lc_demo_ready\<rparr>) lc_demo_count)) = 1"
  using lc_ready_first [OF _ prod.collapse [symmetric], of "[70]" "lc_demo_node\<lparr>ln_ready := lc_demo_ready\<rparr>" toy_lib demo_op lc_demo_count]
  by (simp add: lc_demo_ready_def lc_demo_count_def)

end
