(* ===== verification/Sim_Main.thy ===== *)
theory Sim_Main
  imports Driver_Base
begin

text \<open>
  \<open>sim/sim.cpp\<close>: the simulator over the core alone. One table sweeps the edge band of the gate
  and measures the cold start; the other lets every resident of the cluster finish with a
  probability in each round, heals the holes from the workload, and compares an early with a
  late window. The random draws are those of the library record, the printed values are the
  results. The lemmas: measuring counts what it says, and churn with healing keeps every node
  within its caps.
\<close>

section \<open>Measures\<close>

record Stat =
  cnt_min :: int
  cnt_mean :: double
  in_range :: double
  dev_avg :: double
  dev_max :: double
  on2 :: double

definition INT_MAX :: int where "INT_MAX = 2 ^ 31 - 1"

text \<open>The counters and sums of the loop over the nodes.\<close>

record StatSum =
  ss_min :: int
  ss_in :: int
  ss_o2 :: int
  ss_csum :: double
  ss_dsum :: double
  ss_dmax :: double

definition measure_node :: "OperatingPoint \<Rightarrow> ClusterNode \<Rightarrow> StatSum \<Rightarrow> StatSum" where
  "measure_node op nd a =
     (let c = node_count nd;
          dv = \<bar>node_mean nd - ctx_balance op\<bar>
      in \<lparr>ss_min = min (ss_min a) c,
          ss_in = (if node_min op \<le> c \<and> c \<le> node_max op then ss_in a + 1 else ss_in a),
          ss_o2 = (if 2 \<le> onpoint_batches nd op 2 then ss_o2 a + 1 else ss_o2 a),
          ss_csum = ss_csum a + dbl c,
          ss_dsum = ss_dsum a + dv,
          ss_dmax = dmax (ss_dmax a) dv\<rparr>)"

definition measure_all :: "ClusterNode list \<Rightarrow> OperatingPoint \<Rightarrow> Stat" where
  "measure_all nodes op =
     (let a = fold (measure_node op) nodes
            \<lparr>ss_min = INT_MAX, ss_in = 0, ss_o2 = 0, ss_csum = dlit 0, ss_dsum = dlit 0, ss_dmax = dlit 0\<rparr>;
          Z = dbl (int (length nodes))
      in \<lparr>cnt_min = ss_min a, cnt_mean = ss_csum a / Z, in_range = dlit 100 * dbl (ss_in a) / Z,
          dev_avg = ss_dsum a / Z, dev_max = ss_dmax a, on2 = dlit 100 * dbl (ss_o2 a) / Z\<rparr>)"

section \<open>The cold start over edge bands\<close>

definition spread :: "'g Lib \<Rightarrow> OperatingPoint \<Rightarrow> nat \<Rightarrow> nat \<Rightarrow> GateResult \<times> ClusterNode list \<times> int" where
  "spread lib op Z seed =
     (let gr = gate (fst (draw_list lib (nat (int Z * node_max op)) (lib_seed lib seed))) op
      in (gr, cold_start (lib_shuffle lib) (kept gr) (replicate Z \<lparr>cn_lengths = [], cn_total = 0\<rparr>) op seed))"

record SweepRow =
  sw_e :: double
  sw_edge :: int
  sw_edge_pct :: double
  sw_stat :: Stat

definition edge_row :: "'g Lib \<Rightarrow> OperatingPoint \<Rightarrow> nat \<Rightarrow> nat \<Rightarrow> double \<Rightarrow> SweepRow" where
  "edge_row lib op Z seed E =
     (let ope = op\<lparr>edge_band := E\<rparr>
      in case spread lib ope Z seed of
           (gr, nodes, leftover) \<Rightarrow>
             let edge = int (length (edged gr)) + leftover
             in \<lparr>sw_e = E / dlit 1000, sw_edge = edge,
                 sw_edge_pct = dlit 100 * dbl edge / dbl (int Z * node_max op), sw_stat = measure_all nodes ope\<rparr>)"

definition edge_sweep :: "'g Lib \<Rightarrow> OperatingPoint \<Rightarrow> nat \<Rightarrow> nat \<Rightarrow> SweepRow list" where
  "edge_sweep lib op Z seed = map (edge_row lib op Z seed) [dlit 0, dlit 1000, dlit 2000, dlit 5000, dlit 10000]"

section \<open>Churn\<close>

text \<open>Each resident leaves with probability \<open>p\<close>: who stays, who leaves.\<close>

fun churn :: "'g Lib \<Rightarrow> double \<Rightarrow> int list \<Rightarrow> 'g \<Rightarrow> int list \<times> int list \<times> 'g" where
  "churn lib p [] g = ([], [], g)"
| "churn lib p (L # Ls) g =
     (case lib_uni lib g of
        (u, g) \<Rightarrow>
          (case churn lib p Ls g of
             (keep, departed, g) \<Rightarrow> if p \<le> u then (L # keep, departed, g) else (keep, L # departed, g)))"

definition churn_node ::
  "'g Lib \<Rightarrow> OperatingPoint \<Rightarrow> double \<Rightarrow> ClusterNode \<Rightarrow> 'g \<Rightarrow> 'g WorkloadSource \<Rightarrow> ClusterNode \<times> 'g \<times> 'g WorkloadSource \<times> int" where
  "churn_node lib op p nd g s =
     (case churn lib p (cn_lengths nd) g of
        (keep, departed, g) \<Rightarrow>
          (case heal_node (workload_pull_near lib) \<lparr>cn_lengths = keep, cn_total = fold (\<lambda>L s. s + L) keep 0\<rparr> departed op s of
             (nd, s, pulls) \<Rightarrow> (nd, g, s, pulls)))"

fun churn_round ::
  "'g Lib \<Rightarrow> OperatingPoint \<Rightarrow> double \<Rightarrow> ClusterNode list \<Rightarrow> 'g \<Rightarrow> 'g WorkloadSource \<Rightarrow> int
   \<Rightarrow> ClusterNode list \<times> 'g \<times> 'g WorkloadSource \<times> int" where
  "churn_round lib op p [] g s pulls = ([], g, s, pulls)"
| "churn_round lib op p (nd # nds) g s pulls =
     (case churn_node lib op p nd g s of
        (nd, g, s, k) \<Rightarrow>
          (case churn_round lib op p nds g s (pulls + k) of (nds, g, s, pulls) \<Rightarrow> (nd # nds, g, s, pulls)))"

record LateSum =
  lt_in :: double
  lt_da :: double
  lt_dm :: double
  lt_o2 :: double
  lt_cm :: double
  lt_pull :: double
  lt_cmin :: int
  lt_n :: int

definition add_late :: "Stat \<Rightarrow> int \<Rightarrow> LateSum \<Rightarrow> LateSum" where
  "add_late st pulls l =
     \<lparr>lt_in = lt_in l + in_range st, lt_da = lt_da l + dev_avg st, lt_dm = dmax (lt_dm l) (dev_max st),
      lt_o2 = lt_o2 l + on2 st, lt_cm = lt_cm l + cnt_mean st, lt_pull = lt_pull l + dbl pulls,
      lt_cmin = min (lt_cmin l) (cnt_min st), lt_n = lt_n l + 1\<rparr>"

fun churn_loop ::
  "nat \<Rightarrow> int \<Rightarrow> int \<Rightarrow> 'g Lib \<Rightarrow> OperatingPoint \<Rightarrow> double \<Rightarrow> ClusterNode list \<Rightarrow> 'g \<Rightarrow> 'g WorkloadSource \<Rightarrow> Stat option \<Rightarrow> LateSum
   \<Rightarrow> ClusterNode list \<times> Stat option \<times> LateSum" where
  "churn_loop 0 rd warm lib op p nodes g s early l = (nodes, early, l)"
| "churn_loop (Suc n) rd warm lib op p nodes g s early l =
     (case churn_round lib op p nodes g s 0 of
        (nodes, g, s, pulls) \<Rightarrow>
          churn_loop n (rd + 1) warm lib op p nodes g s
            (if rd = warm then Some (measure_all nodes op) else early)
            (if warm \<le> rd then add_late (measure_all nodes op) pulls l else l))"

record ChurnRow =
  cr_p :: double
  cr_early :: Stat
  cr_cmin :: int
  cr_in :: double
  cr_da :: double
  cr_dm :: double
  cr_o2 :: double
  cr_pulls :: double

definition zero_stat :: Stat where
  "zero_stat = \<lparr>cnt_min = INT_MAX, cnt_mean = dlit 0, in_range = dlit 0, dev_avg = dlit 0, dev_max = dlit 0, on2 = dlit 0\<rparr>"

definition churn_nodes :: "nat \<Rightarrow> int \<Rightarrow> 'g Lib \<Rightarrow> OperatingPoint \<Rightarrow> nat \<Rightarrow> nat \<Rightarrow> double \<Rightarrow> ClusterNode list \<times> Stat option \<times> LateSum" where
  "churn_nodes rounds warm lib op1k Z seed p =
     (case spread lib op1k Z seed of
        (gr, nodes, leftover) \<Rightarrow>
          churn_loop rounds 0 warm lib op1k p nodes (lib_seed lib (seed + 99)) (make_workload lib (seed + 7) 200) None
            \<lparr>lt_in = dlit 0, lt_da = dlit 0, lt_dm = dlit 0, lt_o2 = dlit 0, lt_cm = dlit 0, lt_pull = dlit 0,
             lt_cmin = INT_MAX, lt_n = 0\<rparr>)"

definition churn_row :: "nat \<Rightarrow> int \<Rightarrow> 'g Lib \<Rightarrow> OperatingPoint \<Rightarrow> nat \<Rightarrow> nat \<Rightarrow> double \<Rightarrow> ChurnRow" where
  "churn_row rounds warm lib op Z seed p =
     (case churn_nodes rounds warm lib (op\<lparr>edge_band := dlit 1000\<rparr>) Z seed p of
        (nodes, early, l) \<Rightarrow>
          let n = dbl (lt_n l)
          in \<lparr>cr_p = p * dlit 100, cr_early = (case early of None \<Rightarrow> zero_stat | Some e \<Rightarrow> e),
              cr_cmin = lt_cmin l, cr_in = lt_in l / n, cr_da = lt_da l / n, cr_dm = lt_dm l, cr_o2 = lt_o2 l / n,
              cr_pulls = lt_pull l / n\<rparr>)"

definition sim_main :: "'g Lib \<Rightarrow> SweepRow list \<times> ChurnRow list" where
  "sim_main lib =
     (let op = derive_operating_point llama70b b200 128 default_options
      in (edge_sweep lib op 256 12345,
          map (churn_row 300 150 lib op 256 12345) [dlit (1 / 100), dlit (3 / 100), dlit (5 / 100)]))"

section \<open>What is measured\<close>

lemma measure_min:
  "ss_min (fold (measure_node op) nodes a) = fold (\<lambda>nd m. min m (node_count nd)) nodes (ss_min a)"
  by (induction nodes arbitrary: a) (simp_all add: measure_node_def Let_def)

lemma measure_in:
  "ss_in (fold (measure_node op) nodes a) =
     ss_in a + int (length (filter (\<lambda>nd. node_min op \<le> node_count nd \<and> node_count nd \<le> node_max op) nodes))"
  by (induction nodes arbitrary: a) (simp_all add: measure_node_def Let_def)

lemma fold_min: "fold (\<lambda>nd m. min m (f nd)) nodes m = Min (insert m (f ` set nodes))" for m :: int
proof (induction nodes arbitrary: m)
  case (Cons nd nodes)
  then show ?case by (cases "nodes = []") (simp_all add: min.assoc)
qed simp

section \<open>Churn and the caps\<close>

lemma churn_split:
  "churn lib p Ls g = (keep, departed, g') \<Longrightarrow> mset keep + mset departed = mset Ls
     \<and> length keep + length departed = length Ls \<and> set keep \<subseteq> set Ls \<and> set departed \<subseteq> set Ls
     \<and> ((\<forall>x \<in> set Ls. 0 \<le> x) \<longrightarrow> sum_list keep \<le> sum_list Ls)"
proof (induction Ls arbitrary: keep departed g g')
  case (Cons L Ls)
  obtain u g1 where u: "lib_uni lib g = (u, g1)" by fastforce
  obtain k d g2 where c: "churn lib p Ls g1 = (k, d, g2)" using prod_cases3 by blast
  from Cons.IH [OF c] Cons.prems u c show ?case by (auto split: if_splits)
qed simp

text \<open>What a node keeps: its caps, and lengths that are not negative.\<close>

definition spread_ok :: "OperatingPoint \<Rightarrow> ClusterNode \<Rightarrow> bool" where
  "spread_ok op nd \<longleftrightarrow> cn_ok op nd \<and> (\<forall>x \<in> set (cn_lengths nd). 0 \<le> x)"

lemma churn_node_ok:
  assumes "churn_node lib op p nd g s = (nd', g', s', pulls)" and "spread_ok op nd"
  shows "spread_ok op nd' \<and> node_count nd' \<le> node_count nd \<and> 0 \<le> pulls"
proof -
  obtain keep departed g1 where c: "churn lib p (cn_lengths nd) g = (keep, departed, g1)" using prod_cases3 by blast
  let ?nd = "\<lparr>cn_lengths = keep, cn_total = fold (\<lambda>L s. s + L) keep 0\<rparr>"
  have h: "heal_loop (workload_pull_near lib) op departed ?nd s 0 = (nd', s', pulls)"
    using assms(1) c by (auto simp: churn_node_def heal_node_def split: prod.splits)
  note sp = churn_split [OF c]
  have t: "fold (\<lambda>L s. s + L) keep 0 = sum_list keep" by (simp add: fold_sum)
  have "sum_list keep \<le> node_footprint_cap op" using sp assms(2) by (auto simp: spread_ok_def cn_ok_def)
  with heal_loop_inv [OF workload_source.request_source_axioms h] t
  have inv: "cn_total nd' = sum_list (cn_lengths nd')" "cn_total nd' \<le> node_footprint_cap op"
    "node_count nd' = node_count ?nd + pulls" "0 \<le> pulls" "pulls \<le> int (length departed)"
    and new: "\<exists>new. cn_lengths nd' = cn_lengths ?nd @ new \<and> (\<forall>x \<in> set new. 0 \<le> x)" by auto
  have "int (length keep) + int (length departed) = int (length (cn_lengths nd))"
    using sp by (simp flip: of_nat_add)
  then have "node_count nd' \<le> node_count nd" using inv(3,5) by (simp add: node_count_def)
  moreover have "\<forall>x \<in> set keep. 0 \<le> x" using sp assms(2) by (meson spread_ok_def subsetD)
  then have "\<forall>x \<in> set (cn_lengths nd'). 0 \<le> x" using new by auto
  ultimately show ?thesis using inv assms(2) by (auto simp: spread_ok_def cn_ok_def)
qed

lemma churn_round_ok:
  assumes "churn_round lib op p nds g s k = (nds', g', s', k')" and "\<forall>nd \<in> set nds. spread_ok op nd"
  shows "length nds' = length nds \<and> (\<forall>nd \<in> set nds'. spread_ok op nd)
    \<and> (\<forall>i < length nds. node_count (nds' ! i) \<le> node_count (nds ! i)) \<and> k \<le> k'"
  using assms
proof (induction nds arbitrary: nds' g s k)
  case (Cons nd nds)
  obtain nd1 g1 s1 j where n: "churn_node lib op p nd g s = (nd1, g1, s1, j)" using prod_cases4 by blast
  obtain nds1 where r: "churn_round lib op p nds g1 s1 (k + j) = (nds1, g', s', k')" "nds' = nd1 # nds1"
    using Cons.prems(1) n by (fastforce split: prod.splits)
  from Cons.IH [OF r(1)] Cons.prems(2) churn_node_ok [OF n] show ?case
    by (auto simp: r(2) nth_Cons split: nat.splits)
qed simp

lemma churn_loop_ok:
  assumes "churn_loop n rd warm lib op p nds g s early l = (nds', early', l')" and "\<forall>nd \<in> set nds. spread_ok op nd"
  shows "length nds' = length nds \<and> (\<forall>nd \<in> set nds'. spread_ok op nd)
    \<and> (\<forall>i < length nds. node_count (nds' ! i) \<le> node_count (nds ! i))"
  using assms
proof (induction n arbitrary: rd nds g s early l)
  case (Suc n)
  obtain nds1 g1 s1 k where r: "churn_round lib op p nds g s 0 = (nds1, g1, s1, k)" using prod_cases4 by blast
  note ok = churn_round_ok [OF r Suc.prems(2)]
  have "churn_loop n (rd + 1) warm lib op p nds1 g1 s1 (if rd = warm then Some (measure_all nds1 op) else early)
      (if warm \<le> rd then add_late (measure_all nds1 op) k l else l) = (nds', early', l')" using Suc.prems(1) r by simp
  note IH = Suc.IH [OF this]
  have "node_count (nds' ! i) \<le> node_count (nds ! i)" if "i < length nds" for i
    by (rule order_trans [of _ "node_count (nds1 ! i)"]) (use IH ok that in simp_all)
  then show ?case using IH ok by simp
qed simp

lemma lib_sim_ok: "lib_ok lib \<Longrightarrow> lengths_ok lib \<Longrightarrow> sim_ok lib demo_mt"
  by (simp add: sim_ok_def mt_ok_def demo_mt_def small_mt_def)

lemma spread_start:
  assumes "spread lib op Z seed = (gr, nodes, leftover)" and "lib_ok lib" and "lengths_ok lib"
    and "0 \<le> node_footprint_cap op" and "0 \<le> node_max op"
  shows "length nodes = Z \<and> (\<forall>nd \<in> set nodes. spread_ok op nd)"
proof -
  let ?n = "nat (int Z * node_max op)" and ?r = "replicate Z \<lparr>cn_lengths = [], cn_total = 0\<rparr>"
  have gr: "gr = gate (fst (draw_list lib ?n (lib_seed lib seed))) op"
    and c: "cold_start (lib_shuffle lib) (kept gr) ?r op seed = (nodes, leftover)"
    using assms(1) by (auto simp: spread_def Let_def)
  have "\<forall>nd \<in> set ?r. cn_ok op nd" using assms(4,5) by (simp add: cn_ok_def node_count_def)
  from cold_fold_inv [OF c [unfolded cold_start_def] this] have a: "\<forall>nd \<in> set nodes. cn_ok op nd" "length nodes = Z" by simp_all
  have "nodes = fst (cold_start (lib_shuffle lib) (kept (gate (fst (draw_list lib ?n (lib_seed lib seed))) op)) ?r op seed)"
    using c gr by simp
  note nn = cold_lengths_nonneg [OF lib_sim_ok [OF assms(2,3)] this]
  have "\<forall>x \<in> set (cn_lengths nd). 0 \<le> x" if "nd \<in> set nodes" for nd
    using that nn a(2) by (auto simp: in_set_conv_nth)
  with a show ?thesis by (simp add: spread_ok_def)
qed

section \<open>Properties\<close>

text \<open>C24: The simulator's churn with per-completion healing keeps the cluster of the cold start within
  its design in every round: no node exceeds its footprint cap or its count, its recorded
  total is the sum of its lengths, and no node ever gains residents.\<close>
theorem churn_keeps_caps:
  assumes "spread lib op Z seed = (gr, nodes, leftover)" and "lib_ok lib" and "lengths_ok lib"
    and "0 \<le> node_footprint_cap op" and "0 \<le> node_max op"
    and "churn_nodes rounds warm lib op Z seed p = (nodes', early, l)"
  shows "length nodes' = Z \<and> (\<forall>nd \<in> set nodes'. cn_total nd = sum_list (cn_lengths nd)
      \<and> cn_total nd \<le> node_footprint_cap op \<and> node_count nd \<le> node_max op)
    \<and> (\<forall>i < Z. node_count (nodes' ! i) \<le> node_count (nodes ! i))"
proof -
  note st = spread_start [OF assms(1-5)]
  note loop = assms(6) [unfolded churn_nodes_def assms(1) prod.case]
  have z: "length nodes = Z" and ok: "\<forall>nd \<in> set nodes. spread_ok op nd" using st by simp_all
  note inv = churn_loop_ok [OF loop ok, unfolded z]
  then have "\<forall>nd \<in> set nodes'. cn_ok op nd" by (simp add: spread_ok_def)
  then show ?thesis using inv unfolding cn_ok_def by blast
qed

theorem churn_keeps_caps_witness:
  "list_all (\<lambda>nd. cn_total nd \<le> 300000 \<and> node_count nd \<le> 5)
     (fst (churn_nodes 3 1 toy_lib demo_op 2 7 (dlit (3 / 10))))"
proof -
  obtain gr nodes lo where s: "spread toy_lib demo_op 2 7 = (gr, nodes, lo)" using prod_cases3 by blast
  obtain nodes' early l where c: "churn_nodes 3 1 toy_lib demo_op 2 7 (dlit (3 / 10)) = (nodes', early, l)" using prod_cases3 by blast
  have "0 \<le> node_footprint_cap demo_op" "0 \<le> node_max demo_op" "node_footprint_cap demo_op = 300000" "node_max demo_op = 5"
    by (simp_all add: demo_op_def small_op_def)
  then show ?thesis using churn_keeps_caps [OF s toy_lib_ok toy_lengths _ _ c] c by (auto simp: list_all_iff)
qed

text \<open>The measured minimum is the least count of the nodes, at most the greatest \<open>int\<close>, and the
  share in range is the number of nodes whose count is within the bounds, in percent.\<close>
theorem measure_counts:
  "cnt_min (measure_all nodes op) = Min (insert INT_MAX (node_count ` set nodes))
   \<and> in_range (measure_all nodes op) =
       dlit 100 * dbl (int (length (filter (\<lambda>nd. node_min op \<le> node_count nd \<and> node_count nd \<le> node_max op) nodes)))
         / dbl (int (length nodes))"
  by (simp add: measure_all_def Let_def measure_min fold_min measure_in)

end
