(* ===== verification/Efficiency.thy ===== *)
theory Efficiency
  imports Derive
begin

text \<open>
  \<open>analysis/efficiency.cpp\<close>: the efficiency figures at the operating point of a model and a
  hardware: whether the PIM time hides behind the GPU's, the pipeline efficiency of the two
  instances, the idle share of the less busy one, and the spread of the three resources.
  The figures are functions of the three times; the lemmas give their ranges in double
  arithmetic, for all times that are positive doubles below \<open>2^1000\<close>.
\<close>

section \<open>The figures\<close>

record EffMetrics =
  em_pim :: double
  em_gpu_a :: double
  em_ffn :: double
  em_A :: double
  em_B :: double
  pim_hidden :: bool
  pim_margin :: double
  pipeline_eff :: double
  idle_fraction :: double
  balance_spread :: double

text \<open>From the three times on; \<open>std::max\<close> and \<open>std::min\<close> of a list go from left to right.\<close>

definition eff_of :: "double \<Rightarrow> double \<Rightarrow> double \<Rightarrow> EffMetrics" where
  "eff_of pim gpu_a ffn =
     (let A = gpu_a; B = ffn;
          mx_ab = dmax A B;
          mx3 = dmax (dmax pim ffn) gpu_a;
          mn3 = dmin (dmin pim ffn) gpu_a
      in \<lparr>em_pim = pim, em_gpu_a = gpu_a, em_ffn = ffn, em_A = A, em_B = B,
          pim_hidden = pim \<le> gpu_a,
          pim_margin = (if dlit 0 < gpu_a then (gpu_a - pim) / gpu_a else dlit 0),
          pipeline_eff = dmax A B / (A + B),
          idle_fraction = (if dlit 0 < mx_ab then \<bar>A - B\<bar> / mx_ab else dlit 0),
          balance_spread = (if dlit 0 < mx3 then (mx3 - mn3) / mx3 else dlit 0)\<rparr>)"

definition eff_compute :: "ModelSpec \<Rightarrow> HwSpec \<Rightarrow> int \<Rightarrow> DeriveOptions \<Rightarrow> EffMetrics" where
  "eff_compute m hw prefill opts =
     (let op = derive_operating_point m hw prefill opts
      in eff_of (t_pim_us (kv_operating_target op) hw)
           (t_gpu_a_us (ffn_batch op) (prefill_kv_work_target op) m hw)
           (t_ffn_us (ffn_batch op) m hw))"

text \<open>What a case prints: the operating point and the figures.\<close>

definition print_case :: "ModelSpec \<Rightarrow> HwSpec \<Rightarrow> int \<Rightarrow> DeriveOptions \<Rightarrow> (double \<times> int \<times> int \<times> int \<times> int) \<times> EffMetrics" where
  "print_case m hw prefill opts =
     (let op = derive_operating_point m hw prefill opts; e = eff_compute m hw prefill opts
      in ((ctx_balance op, decode_count_target op, ffn_batch op, kv_operating_target op, prefill_kv_work_target op), e))"

definition llama8b :: ModelSpec where
  "llama8b = \<lparr>num_layers = 32, hidden = 4096, num_heads = 32, num_kv_heads = 8, head_dim = 128,
     ffn_intermediate = 14336, weight_bytes_per_elem = 2\<rparr>"

definition b200_mfu04 :: HwSpec where
  "b200_mfu04 = b200\<lparr>gpu_mfu := dlit (4 / 10)\<rparr>"

definition efficiency_main :: "((double \<times> int \<times> int \<times> int \<times> int) \<times> EffMetrics) list" where
  "efficiency_main =
     [print_case llama70b b200 128 default_options, print_case llama8b b200 128 default_options,
      print_case llama70b b200_mfu04 128 default_options]"

section \<open>Ranges\<close>

lemma rnd_le_double:
  assumes "rnd_rat m = m" and "0 \<le> x" and "x \<le> m" and "m \<le> pow2 1023"
  shows "\<exists>d. rnd x = Fin d \<and> 0 \<le> d \<and> d \<le> m"
proof -
  have "\<bar>x\<bar> \<le> pow2 1023" using assms by simp
  then show ?thesis
    using rnd_Fin [of x] rnd_rat_mono [OF assms(3)] rnd_rat_nonneg [OF assms(2)] assms(1) by simp
qed

lemma rnd_rat_simple: "rnd_rat 1 = 1" "rnd_rat (1 / 2) = 1 / 2"
  by code_simp+

lemma unit_quotient:
  assumes "0 \<le> x" and "x \<le> m" and "0 < m"
  shows "\<exists>v. Fin x / Fin m = Fin v \<and> 0 \<le> v \<and> v \<le> 1"
proof -
  have "0 \<le> x / m" "x / m \<le> 1" using assms by simp_all
  moreover have "(1 :: rat) \<le> pow2 1023" using pow2_le [of 0 1023] by (simp del: pow2_le)
  ultimately obtain v where "rnd (x / m) = Fin v" "0 \<le> v" "v \<le> 1"
    using rnd_le_double [OF rnd_rat_simple(1)] by blast
  then show ?thesis using assms(3) by (simp add: dbl_simps)
qed

text \<open>A spread between two doubles, relative to the greater.\<close>

lemma spread_unit:
  assumes "rnd_rat m = m" and "0 \<le> n" and "n \<le> m" and "0 < m" and "m \<le> pow2 1023"
  shows "\<exists>v. (Fin m - Fin n) / Fin m = Fin v \<and> 0 \<le> v \<and> v \<le> 1"
proof -
  obtain d where d: "rnd (m - n) = Fin d" "0 \<le> d" "d \<le> m" using rnd_le_double [OF assms(1), of "m - n"] assms by auto
  then show ?thesis using unit_quotient [OF d(2,3) assms(4)] by (simp add: dbl_simps)
qed

lemma abs_diff_unit:
  assumes "rnd_rat a = a" and "rnd_rat b = b" and "0 \<le> a" and "0 \<le> b" and "0 < max a b" and "max a b \<le> pow2 1023"
  shows "\<exists>v. \<bar>Fin a - Fin b\<bar> / Fin (max a b) = Fin v \<and> 0 \<le> v \<and> v \<le> 1"
proof -
  have m: "rnd_rat (max a b) = max a b" using assms(1,2) by (simp add: max_def)
  have le: "min a b \<le> max a b" by (simp add: max_def min_def)
  obtain d where d: "rnd (max a b - min a b) = Fin d" "0 \<le> d" "d \<le> max a b"
    using rnd_le_double [OF m, of "max a b - min a b"] assms(3-6) le by auto
  have "rnd (a - b) = Fin d \<or> rnd (a - b) = Fin (- d)"
  proof (cases "a \<le> b")
    case True
    then have "rnd (b - a) = Fin d" using d(1) by simp
    moreover have "rnd_rat (a - b) = - rnd_rat (b - a)" using rnd_rat_minus [of "b - a"] by simp
    ultimately have "rnd (a - b) = Fin (- d)" by (auto simp: rnd_def Let_def split: if_splits)
    then show ?thesis ..
  next
    case False
    then show ?thesis using d(1) by simp
  qed
  then have "\<bar>Fin a - Fin b\<bar> = Fin d" using d(2) by (auto simp: dbl_simps)
  then show ?thesis using unit_quotient [OF d(2,3) assms(5)] by simp
qed

text \<open>The figures take the GPU's time for that of instance A even when the PIM time is exposed: with a
  PIM time above two equal times they report a perfect balance.\<close>

lemma eff_exposed_unseen:
  "\<not> pim_hidden (eff_of (Fin 30) (Fin 25) (Fin 25)) \<and> pipeline_eff (eff_of (Fin 30) (Fin 25) (Fin 25)) = Fin (1 / 2)
   \<and> idle_fraction (eff_of (Fin 30) (Fin 25) (Fin 25)) = Fin 0"
  by code_simp

section \<open>Properties\<close>

definition time_ok :: "rat \<Rightarrow> bool" where
  "time_ok r \<longleftrightarrow> rnd_rat r = r \<and> 0 < r \<and> r \<le> pow2 1000"

lemma dmax_Fin: "dmax (Fin a) (Fin b) = Fin (max a b)" "dmin (Fin a) (Fin b) = Fin (min a b)"
  by (auto simp: dmax_def dmin_def dbl_simps max_def min_def)

lemma pipeline_range:
  assumes "time_ok a" and "time_ok b"
  shows "\<exists>v. Fin (max a b) / (Fin a + Fin b) = Fin v \<and> 1 / 2 \<le> v \<and> v \<le> 1"
proof -
  let ?m = "max a b"
  have m: "rnd_rat ?m = ?m" "0 < ?m" "?m \<le> pow2 1000" using assms by (auto simp: time_ok_def max_def)
  have p: "2 * pow2 1000 = pow2 1001" "pow2 1001 \<le> pow2 1023" using pow2_add [of 1 1000] by (simp_all add: pow2_def)
  have s: "?m \<le> a + b" "a + b \<le> 2 * ?m" using assms by (auto simp: time_ok_def)
  have "\<bar>a + b\<bar> \<le> pow2 1023" using s m(2,3) p by linarith
  then have r: "Fin a + Fin b = Fin (rnd_rat (a + b))" by (simp add: dbl_simps rnd_Fin)
  have q: "?m \<le> rnd_rat (a + b)" "rnd_rat (a + b) \<le> 2 * ?m"
    using rnd_rat_mono [OF s(1)] rnd_rat_mono [OF s(2)] rnd_rat_double [OF m(1)] m(1) by simp_all
  then have u: "0 < rnd_rat (a + b)" using m(2) by linarith
  then have "1 / 2 \<le> ?m / rnd_rat (a + b)" "?m / rnd_rat (a + b) \<le> 1" using q by (simp_all add: field_simps)
  moreover have "(1 :: rat) = pow2 0" by simp
  ultimately obtain v where "rnd (?m / rnd_rat (a + b)) = Fin v" "1 / 2 \<le> v" "v \<le> 1"
    using rnd_between [of "1 / 2" "?m / rnd_rat (a + b)" 0] rnd_rat_simple(2) by auto
  moreover have "Fin ?m / (Fin a + Fin b) = rnd (?m / rnd_rat (a + b))" unfolding r using u by (simp add: dbl_simps)
  ultimately show ?thesis by simp
qed

text \<open>The bound on the times is needed: the sum of two times of \<open>2 ^ 1023\<close> overflows to infinity.\<close>

lemma eff_overflow:
  "pipeline_eff (eff_of p (Fin (pow2 1023)) (Fin (pow2 1023))) = Fin 0"
proof -
  have "pow2 1023 + pow2 1023 = pow2 1024" using pow2_add [of 1 1023] by (simp add: pow2_def)
  moreover have "rnd (pow2 1024) = PInf" by (simp add: rnd_def Let_def)
  ultimately have "Fin (pow2 1023) + Fin (pow2 1023) = PInf" by (simp add: dbl_simps)
  then show ?thesis by (simp add: eff_of_def Let_def dmax_Fin divide_double_def)
qed

text \<open>C39: For times that are positive doubles of at most \<open>2 ^ 1000\<close>, all roundings included, the efficiency figures
  are in their ranges: the pipeline efficiency between 1/2 and 1, the idle share and the spread between 0
  and 1, and two equal instances give exactly 1/2 and no idle share. If the PIM time hides behind the
  GPU's, the margin is in the unit interval. If it is exposed, the figures of the two instances hold as they
  are, as the code still takes the GPU's time for that of instance A: they are the same for every PIM time.\<close>
theorem efficiency_ranges:
  assumes "time_ok p" and "time_ok g" and "time_ok f"
  shows "\<exists>pe idle sp. pipeline_eff (eff_of (Fin p) (Fin g) (Fin f)) = Fin pe \<and> 1 / 2 \<le> pe \<and> pe \<le> 1
    \<and> idle_fraction (eff_of (Fin p) (Fin g) (Fin f)) = Fin idle \<and> 0 \<le> idle \<and> idle \<le> 1
    \<and> balance_spread (eff_of (Fin p) (Fin g) (Fin f)) = Fin sp \<and> 0 \<le> sp \<and> sp \<le> 1
    \<and> (if p \<le> g
       then pim_hidden (eff_of (Fin p) (Fin g) (Fin f))
         \<and> Fin 0 \<le> pim_margin (eff_of (Fin p) (Fin g) (Fin f)) \<and> pim_margin (eff_of (Fin p) (Fin g) (Fin f)) \<le> Fin 1
       else \<not> pim_hidden (eff_of (Fin p) (Fin g) (Fin f))
         \<and> (\<forall>p'. pipeline_eff (eff_of p' (Fin g) (Fin f)) = Fin pe \<and> idle_fraction (eff_of p' (Fin g) (Fin f)) = Fin idle))
    \<and> (g = f \<longrightarrow> pe = 1 / 2 \<and> idle = 0)"
proof -
  have k: "pow2 1000 \<le> pow2 1023" by simp
  then have T: "rnd_rat x = x \<and> 0 < x \<and> x \<le> pow2 1023" if "time_ok x" for x
    using that order_trans [OF _ k, of x] by (auto simp: time_ok_def)
  note P = T [OF assms(1)] and G = T [OF assms(2)] and F = T [OF assms(3)]
  obtain pe where pe: "Fin (max g f) / (Fin g + Fin f) = Fin pe" "1 / 2 \<le> pe" "pe \<le> 1"
    using pipeline_range [OF assms(2,3)] by blast
  obtain idle where idle: "\<bar>Fin g - Fin f\<bar> / Fin (max g f) = Fin idle" "0 \<le> idle" "idle \<le> 1"
    using abs_diff_unit [of g f] G F by fastforce
  let ?mx = "max (max p f) g" and ?mn = "min (min p f) g"
  have mx: "rnd_rat ?mx = ?mx" "0 < ?mx" "?mx \<le> pow2 1023" "0 \<le> ?mn" "?mn \<le> ?mx"
    using P G F by (auto simp: max_def min_def)
  obtain sp where sp: "(Fin ?mx - Fin ?mn) / Fin ?mx = Fin sp" "0 \<le> sp" "sp \<le> 1"
    using spread_unit [OF mx(1,4,5,2,3)] by blast
  have marg: "Fin 0 \<le> (Fin g - Fin p) / Fin g \<and> (Fin g - Fin p) / Fin g \<le> Fin 1" if le: "p \<le> g"
  proof -
    obtain v where "(Fin g - Fin p) / Fin g = Fin v" "0 \<le> v" "v \<le> 1" using spread_unit [of g p] P G le by fastforce
    then show ?thesis by (simp add: dbl_simps)
  qed
  have eq: "pe = 1 / 2 \<and> idle = 0" if e: "g = f"
  proof
    have "\<bar>2 * g\<bar> \<le> pow2 1023"
    proof -
      have "2 * pow2 1000 = pow2 1001" "pow2 1001 \<le> pow2 1023" using pow2_add [of 1 1000] by (simp_all add: pow2_def)
      moreover have "0 < g" "g \<le> pow2 1000" using assms(2) by (simp_all add: time_ok_def)
      ultimately show ?thesis by linarith
    qed
    then have "Fin g + Fin f = Fin (2 * g)" using rnd_rat_double [of g] G e by (simp add: dbl_simps rnd_Fin)
    moreover have "rnd (1 / 2) = Fin (1 / 2)" using rnd_Fin [of "1 / 2"] rnd_rat_simple(2) pow2_le [of "- 1" 1023]
      by (simp add: pow2_def del: pow2_le)
    ultimately show "pe = 1 / 2" using pe(1) G e by (simp add: dbl_simps)
    show "idle = 0" using idle(1) G e by (simp add: dbl_simps)
  qed
  let ?e = "eff_of (Fin p) (Fin g) (Fin f)"
  have pos: "dlit 0 < Fin x" if "0 < x" for x
  proof -
    have "dlit 0 = Fin 0" by code_simp
    then show ?thesis using that by (simp add: dbl_simps)
  qed
  have mxp: "0 < max g f" using G by (simp add: max_def)
  have e1: "pipeline_eff ?e = Fin pe" by (simp add: eff_of_def Let_def dmax_Fin pe(1))
  have e2: "idle_fraction ?e = Fin idle" by (simp add: eff_of_def Let_def dmax_Fin pos [OF mxp] idle(1))
  have e3: "balance_spread ?e = Fin sp" by (simp add: eff_of_def Let_def dmax_Fin pos [OF mx(2)] sp(1))
  have g: "0 < g" using G by simp
  have e4: "pim_margin ?e = (Fin g - Fin p) / Fin g" by (simp add: eff_of_def Let_def pos [OF g])
  have e5: "pim_hidden ?e \<longleftrightarrow> p \<le> g" by (simp add: eff_of_def Let_def dbl_simps)
  have ab: "pipeline_eff (eff_of p' (Fin g) (Fin f)) = Fin pe" "idle_fraction (eff_of p' (Fin g) (Fin f)) = Fin idle" for p'
    using e1 e2 by (simp_all add: eff_of_def Let_def)
  show ?thesis unfolding ab e3 e4 e5
    by (rule exI [of _ pe], rule exI [of _ idle], rule exI [of _ sp]) (use pe(2,3) idle(2,3) sp(2,3) marg eq in simp)
qed

theorem efficiency_ranges_witness:
  "pim_hidden (eff_of (Fin 20) (Fin 25) (Fin 25)) \<and> pipeline_eff (eff_of (Fin 20) (Fin 25) (Fin 25)) = Fin (1 / 2)
   \<and> idle_fraction (eff_of (Fin 20) (Fin 25) (Fin 25)) = Fin 0
   \<and> Fin 0 \<le> pim_margin (eff_of (Fin 20) (Fin 25) (Fin 25))
   \<and> \<not> pim_hidden (eff_of (Fin 40) (Fin 25) (Fin 25)) \<and> pipeline_eff (eff_of (Fin 1000) (Fin 25) (Fin 25)) = Fin (1 / 2)"
proof -
  have "time_ok 20" "time_ok 25" "time_ok 40" by code_simp+
  then show ?thesis using efficiency_ranges [of 20 25 25] efficiency_ranges [of 40 25 25] by auto
qed

end
