(* ===== verification/Max_Model.thy ===== *)
theory Max_Model
  imports Efficiency
begin

text \<open>
  \<open>analysis/max_model.cpp\<close>: up to which size a model fits the HBM. The tables derive the operating
  point of known models for two stack heights and for FP8 weights; the sweep lets one axis
  of a dense model grow until the capacity is exceeded and reports the last model that
  fitted. A printed line is a record of its values, in the units printed.
\<close>

section \<open>The tables\<close>

definition approx_params_B :: "int \<Rightarrow> int \<Rightarrow> double" where
  "approx_params_B layers hid = dlit 12 * dbl layers * dbl hid * dbl hid / dlit (10 ^ 9)"

record ModelRow =
  mr_layers :: int
  mr_hidden :: int
  mr_kv_heads :: int
  mr_fits :: bool
  mr_a_tb :: double
  mr_cap :: double
  mr_ctx :: double
  mr_ndec :: int
  mr_kv_kib :: double
  mr_w_gb :: double

definition weight_gb :: "ModelSpec \<Rightarrow> double" where
  "weight_gb m = dbl (instance_a_weight_bytes m) / dlit (10 ^ 9)"

definition print_model :: "ModelSpec \<Rightarrow> HwSpec \<Rightarrow> int \<Rightarrow> DeriveOptions \<Rightarrow> ModelRow" where
  "print_model m hw prefill opts =
     (let op = derive_operating_point m hw prefill opts
      in \<lparr>mr_layers = num_layers m, mr_hidden = hidden m, mr_kv_heads = num_kv_heads m, mr_fits = hbm_fits op,
          mr_a_tb = instance_a_tb op, mr_cap = hbm_capacity_tb op, mr_ctx = ctx_balance op,
          mr_ndec = decode_count_target op, mr_kv_kib = dbl (kv_bytes_per_token m) / dlit 1024, mr_w_gb = weight_gb m\<rparr>)"

record Fp8Row =
  fr_fits :: bool
  fr_a_tb :: double
  fr_w16 :: double
  fr_w8 :: double

definition stack_options :: "int \<Rightarrow> DeriveOptions" where
  "stack_options h = default_options\<lparr>opt_hbm_stack_height := h\<rparr>"

definition print_model_both :: "ModelSpec \<Rightarrow> HwSpec \<Rightarrow> int \<Rightarrow> ModelRow \<times> ModelRow \<times> Fp8Row" where
  "print_model_both m hw prefill =
     (let mf = m\<lparr>weight_bytes_per_elem := 1\<rparr>;
          op = derive_operating_point mf hw prefill (stack_options 16)
      in (print_model m hw prefill (stack_options 16), print_model m hw prefill (stack_options 12),
          \<lparr>fr_fits = hbm_fits op, fr_a_tb = instance_a_tb op, fr_w16 = weight_gb m, fr_w8 = weight_gb mf\<rparr>))"

section \<open>The sweep\<close>

text \<open>A dense model of Llama's proportions. The division of C++ truncates.\<close>

definition dense_model :: "int \<Rightarrow> int \<Rightarrow> ModelSpec" where
  "dense_model layers hid =
     \<lparr>num_layers = layers, hidden = hid, num_heads = cdiv hid 128, num_kv_heads = 8, head_dim = 128,
      ffn_intermediate = to_i32 (dlit (35 / 10) * dbl hid), weight_bytes_per_elem = 2\<rparr>"

definition sweep_dims :: "int \<Rightarrow> int \<Rightarrow> int \<Rightarrow> int \<Rightarrow> int \<times> int" where
  "sweep_dims mode layers0 hidden0 step =
     (if mode = 0 then layers0 + step else layers0, if mode = 1 then hidden0 + 128 * step else hidden0)"

record SweepBest =
  sb_L :: int
  sb_h :: int
  sb_a_tb :: double
  sb_ctx :: double
  sb_cap :: double
  sb_ndec :: int

definition sweep_none :: SweepBest where
  "sweep_none = \<lparr>sb_L = - 1, sb_h = - 1, sb_a_tb = dlit 0, sb_ctx = dlit 0, sb_cap = dlit 0, sb_ndec = 0\<rparr>"

definition sweep_skips :: "int \<Rightarrow> int \<Rightarrow> int \<Rightarrow> int \<Rightarrow> bool" where
  "sweep_skips mode layers0 hidden0 step \<longleftrightarrow> mode = 1 \<and> cdiv (snd (sweep_dims mode layers0 hidden0 step)) 128 < 1"

definition sweep_point :: "HwSpec \<Rightarrow> int \<Rightarrow> int \<Rightarrow> int \<Rightarrow> int \<Rightarrow> int \<Rightarrow> int \<Rightarrow> OperatingPoint" where
  "sweep_point hw prefill stack mode layers0 hidden0 step =
     (case sweep_dims mode layers0 hidden0 step of
        (layers, hid) \<Rightarrow> derive_operating_point (dense_model layers hid) hw prefill (stack_options stack))"

definition sweep_record :: "int \<times> int \<Rightarrow> OperatingPoint \<Rightarrow> SweepBest" where
  "sweep_record dims op =
     \<lparr>sb_L = fst dims, sb_h = snd dims, sb_a_tb = instance_a_tb op, sb_ctx = ctx_balance op, sb_cap = hbm_capacity_tb op,
      sb_ndec = decode_count_target op\<rparr>"

fun sweep_loop :: "nat \<Rightarrow> HwSpec \<Rightarrow> int \<Rightarrow> int \<Rightarrow> int \<Rightarrow> int \<Rightarrow> int \<Rightarrow> int \<Rightarrow> SweepBest \<Rightarrow> SweepBest" where
  "sweep_loop 0 hw prefill stack mode layers0 hidden0 step best = best"
| "sweep_loop (Suc n) hw prefill stack mode layers0 hidden0 step best =
     (if sweep_skips mode layers0 hidden0 step
      then sweep_loop n hw prefill stack mode layers0 hidden0 (step + 1) best
      else (let op = sweep_point hw prefill stack mode layers0 hidden0 step
            in if \<not> hbm_fits op then best
               else sweep_loop n hw prefill stack mode layers0 hidden0 (step + 1)
                 (sweep_record (sweep_dims mode layers0 hidden0 step) op)))"

text \<open>The line printed: nothing if not even the start fits.\<close>

definition sweep_boundary :: "HwSpec \<Rightarrow> int \<Rightarrow> int \<Rightarrow> int \<Rightarrow> int \<Rightarrow> int \<Rightarrow> (SweepBest \<times> double) option" where
  "sweep_boundary hw prefill stack mode layers0 hidden0 =
     (let best = sweep_loop 4000 hw prefill stack mode layers0 hidden0 0 sweep_none
      in if sb_L best < 0 then None else Some (best, approx_params_B (sb_L best) (sb_h best)))"

definition llama405b :: ModelSpec where
  "llama405b = \<lparr>num_layers = 126, hidden = 16384, num_heads = 128, num_kv_heads = 8, head_dim = 128,
     ffn_intermediate = 53248, weight_bytes_per_elem = 2\<rparr>"

definition qwen72b :: ModelSpec where
  "qwen72b = llama70b\<lparr>ffn_intermediate := 29568\<rparr>"

definition max_model_main ::
  "(ModelRow \<times> ModelRow \<times> Fp8Row) list \<times> (SweepBest \<times> double) option list \<times> (double \<times> int \<times> double \<times> double) list" where
  "max_model_main =
     (map (\<lambda>m. print_model_both m b200 128) [llama8b, llama70b, llama405b, qwen72b],
      map (\<lambda>(stack, mode, l, h). sweep_boundary b200 128 stack mode l h)
        [(16, 0, 8, 8192), (16, 0, 8, 16384), (16, 1, 80, 2048), (16, 1, 126, 2048),
         (12, 0, 8, 8192), (12, 0, 8, 16384), (12, 1, 80, 2048), (12, 1, 126, 2048)],
      map (\<lambda>m. let op = derive_operating_point m b200 128 (stack_options 16)
               in (ctx_balance op, decode_count_target op, dbl (kv_bytes_per_token m) / dlit 1024, instance_a_tb op))
        [llama8b, llama70b, llama405b])"

section \<open>What the sweep finds\<close>

lemma sweep_loop_last:
  "\<exists>k \<le> n. (\<forall>j < k. sweep_skips mode l h (s + int j) \<or> hbm_fits (sweep_point hw prefill stack mode l h (s + int j)))
     \<and> (k = n \<or> (\<not> sweep_skips mode l h (s + int k) \<and> \<not> hbm_fits (sweep_point hw prefill stack mode l h (s + int k))))
     \<and> (if \<forall>j < k. sweep_skips mode l h (s + int j) then sweep_loop n hw prefill stack mode l h s best = best
        else \<exists>j < k. \<not> sweep_skips mode l h (s + int j) \<and> (\<forall>i. j < i \<and> i < k \<longrightarrow> sweep_skips mode l h (s + int i))
          \<and> sweep_loop n hw prefill stack mode l h s best
            = sweep_record (sweep_dims mode l h (s + int j)) (sweep_point hw prefill stack mode l h (s + int j)))"
proof (induction n arbitrary: s best)
  case (Suc n)
  let ?sk = "\<lambda>t. sweep_skips mode l h t" and ?pt = "\<lambda>t. sweep_point hw prefill stack mode l h t"
  let ?rc = "\<lambda>t. sweep_record (sweep_dims mode l h t) (?pt t)"
  have sh: "s + 1 + int j = s + int (Suc j)" for j by simp
  have all: "(\<forall>j < Suc k. P j) \<longleftrightarrow> P 0 \<and> (\<forall>j < k. P (Suc j))" for P k by (auto simp: less_Suc_eq_0_disj)
  show ?case
  proof (cases "\<not> ?sk s \<and> \<not> hbm_fits (?pt s)")
    case True
    then show ?thesis by (intro exI [of _ 0]) simp
  next
    case False
    define b where "b = (if ?sk s then best else ?rc s)"
    have run: "sweep_loop (Suc n) hw prefill stack mode l h s best = sweep_loop n hw prefill stack mode l h (s + 1) b"
      using False by (auto simp: b_def Let_def)
    obtain k where k: "k \<le> n" "\<forall>j < k. ?sk (s + int (Suc j)) \<or> hbm_fits (?pt (s + int (Suc j)))"
      "k = n \<or> (\<not> ?sk (s + int (Suc k)) \<and> \<not> hbm_fits (?pt (s + int (Suc k))))"
      "if \<forall>j < k. ?sk (s + int (Suc j)) then sweep_loop n hw prefill stack mode l h (s + 1) b = b
       else \<exists>j < k. \<not> ?sk (s + int (Suc j)) \<and> (\<forall>i. j < i \<and> i < k \<longrightarrow> ?sk (s + int (Suc i)))
         \<and> sweep_loop n hw prefill stack mode l h (s + 1) b = ?rc (s + int (Suc j))"
      using Suc.IH [of "s + 1" b] unfolding sh by blast
    have up: "(\<forall>i. Suc j < i \<and> i < Suc k \<longrightarrow> ?sk (s + int i)) \<longleftrightarrow> (\<forall>i. j < i \<and> i < k \<longrightarrow> ?sk (s + int (Suc i)))" for j
      by (metis Suc_less_eq Suc_lessE)
    have last: "if \<forall>j < Suc k. ?sk (s + int j) then sweep_loop (Suc n) hw prefill stack mode l h s best = best
      else \<exists>j < Suc k. \<not> ?sk (s + int j) \<and> (\<forall>i. j < i \<and> i < Suc k \<longrightarrow> ?sk (s + int i))
        \<and> sweep_loop (Suc n) hw prefill stack mode l h s best = ?rc (s + int j)"
    proof (cases "\<forall>j < k. ?sk (s + int (Suc j))")
      case True
      then have e: "sweep_loop (Suc n) hw prefill stack mode l h s best = b" using k(4) run by simp
      have "\<forall>i. 0 < i \<and> i < Suc k \<longrightarrow> ?sk (s + int i)" using True by (metis Suc_less_eq gr0_implies_Suc)
      then show ?thesis using True e by (auto simp: all b_def intro!: exI [of _ "0 :: nat"])
    next
      case False
      with k(4) obtain j where j: "j < k" "\<not> ?sk (s + int (Suc j))" "\<forall>i. j < i \<and> i < k \<longrightarrow> ?sk (s + int (Suc i))"
        "sweep_loop n hw prefill stack mode l h (s + 1) b = ?rc (s + int (Suc j))" unfolding if_not_P [OF False] by blast
      have some: "\<not> (\<forall>j < Suc k. ?sk (s + int j))" using j(1,2) by (auto simp: all)
      have "\<exists>j < Suc k. \<not> ?sk (s + int j) \<and> (\<forall>i. j < i \<and> i < Suc k \<longrightarrow> ?sk (s + int i))
          \<and> sweep_loop (Suc n) hw prefill stack mode l h s best = ?rc (s + int j)"
        using j up [of j] run by (intro exI [of _ "Suc j"]) simp
      then show ?thesis unfolding if_not_P [OF some] .
    qed
    show ?thesis
      by (rule exI [of _ "Suc k"], intro conjI) (use k(1,2,3) False last in \<open>auto simp: all\<close>)
  qed
qed simp

section \<open>Weights alone\<close>

text \<open>The tokens of instance A are a finite number for the options of the sweep, whatever the model.\<close>

lemma mul_up:
  assumes "0 \<le> a" and "a \<le> pow2 i" and "0 \<le> b" and "b \<le> pow2 j" and "0 \<le> i + j" and "i + j \<le> 1023"
  shows "\<exists>r. Fin a * Fin b = Fin r \<and> 0 \<le> r \<and> r \<le> pow2 (i + j)"
proof -
  have "a * b \<le> pow2 (i + j)" unfolding pow2_add using assms by (intro mult_mono) auto
  then show ?thesis using rnd_between [of 0 "a * b" "i + j"] assms by (simp add: dbl_simps)
qed

lemma add_up:
  assumes "0 \<le> a" and "a \<le> pow2 i" and "0 \<le> b" and "b \<le> pow2 i" and "0 \<le> i" and "i \<le> 1022"
  shows "\<exists>r. Fin a + Fin b = Fin r \<and> 0 \<le> r \<and> r \<le> pow2 (i + 1)"
proof -
  have "a + b \<le> pow2 (i + 1)" unfolding pow2_add using assms by (simp add: pow2_def)
  then show ?thesis using rnd_between [of 0 "a + b" "i + 1"] assms by (simp add: dbl_simps)
qed

lemma tokens_finite:
  assumes "0 \<le> n" and "n \<le> 1000000" and "1000 \<le> c" and "c \<le> 400000 * 2 ^ 24"
  shows "\<exists>t. dbl (2 * n + 25) * Fin c + dbl 80 * (Fin c * dlit (56 / 100)) = Fin t \<and> 0 \<le> t \<and> t \<le> pow2 65"
proof -
  obtain q where q: "dlit (56 / 100) = Fin q" "0 \<le> q" "q \<le> 1"
  proof -
    have "(case dlit (56 / 100) of Fin q \<Rightarrow> 0 \<le> q \<and> q \<le> 1 | _ \<Rightarrow> False)" by code_simp
    then show ?thesis using that by (auto split: double.splits)
  qed
  have c: "0 \<le> c" "c \<le> pow2 43" using assms(3,4) by (simp_all add: pow2_def)
  have "rat_of_int (2 * n + 25) \<le> of_int (2 ^ 21)" using assms(2) by (simp only: of_int_le_iff) simp
  then have n: "dbl (2 * n + 25) = Fin (of_int (2 * n + 25))" "0 \<le> rat_of_int (2 * n + 25)" "rat_of_int (2 * n + 25) \<le> pow2 21"
    using assms(1,2) by (simp_all add: dbl_exact pow2_def)
  have e: "dbl 80 = Fin 80" "(80 :: rat) \<le> pow2 7" "q \<le> pow2 0" using q(3) by (simp_all add: dbl_exact pow2_def)
  obtain x where x: "dbl (2 * n + 25) * Fin c = Fin x" "0 \<le> x" "x \<le> pow2 64" using mul_up [OF n(2,3) c] by (auto simp: n(1))
  obtain y where y: "Fin c * dlit (56 / 100) = Fin y" "0 \<le> y" "y \<le> pow2 43" unfolding q(1) using mul_up [OF c q(2) e(3)] by auto
  obtain v where v: "dbl 80 * Fin y = Fin v" "0 \<le> v" "v \<le> pow2 50" using mul_up [OF _ e(2) y(2,3)] by (auto simp: e(1))
  have "v \<le> pow2 64" using v(3) by (rule order_trans) simp
  from add_up [OF x(2,3) v(2) this] show ?thesis unfolding x(1) y(1) v(1) by simp
qed

lemma point_use:
  "\<exists>t. 0 \<le> t \<and> instance_a_tb (derive_operating_point m hw P (stack_options h))
       = (Fin t * dbl (kv_bytes_per_token m) + dbl (instance_a_weight_bytes m)) / dlit (10 ^ 12)
     \<and> hbm_capacity_tb (derive_operating_point m hw P (stack_options h)) = hbm_capacity hw (stack_options h)
     \<and> hbm_fits (derive_operating_point m hw P (stack_options h))
       = (instance_a_tb (derive_operating_point m hw P (stack_options h)) \<le> hbm_capacity hw (stack_options h))"
proof -
  let ?op = "derive_operating_point m hw P (stack_options h)"
  note b = derive_bounds [OF refl, of m hw P "stack_options h"]
  then obtain c where c: "ctx_balance ?op = Fin c" "1000 \<le> c" "c \<le> 400000 * 2 ^ 24" by blast
  obtain t where t: "dbl (2 * decode_count_target ?op + 25) * Fin c + dbl 80 * (Fin c * dlit (56 / 100)) = Fin t" "0 \<le> t"
    using tokens_finite [OF _ _ c(2,3), of "decode_count_target ?op"] b by blast
  have d: "derive_ctx P m hw = Fin c" "narrow32 (llround (ndec_ffn_eq_gpua (derive_ctx P m hw) P m hw)) = decode_count_target ?op"
    using c(1) by (simp_all add: derive_operating_point_def Let_def)
  have o: "opt_decode_surplus (stack_options h) = 25" "opt_prefill_pool (stack_options h) = 80"
    "opt_prefill_avg_depth_frac (stack_options h) = dlit (56 / 100)" by (simp_all add: stack_options_def default_options_def)
  have "instance_a_tb ?op = (Fin t * dbl (kv_bytes_per_token m) + dbl (instance_a_weight_bytes m)) / dlit (10 ^ 12)"
    using t(1) d by (simp add: derive_operating_point_def Let_def instance_a_use_def o)
  then show ?thesis using t(2) by (intro exI [of _ t]) (simp add: derive_operating_point_def Let_def)
qed

text \<open>A model whose weights alone exceed the capacity does not fit; one with neither weights nor KV fits.\<close>

lemma fits_weights:
  assumes "hbm_fits (derive_operating_point m hw P (stack_options h))" and "0 < kv_bytes_per_token m" and "kv_bytes_per_token m \<le> 2 ^ 53"
    and "0 \<le> instance_a_weight_bytes m" and "instance_a_weight_bytes m \<le> 2 ^ 53"
  shows "dbl (instance_a_weight_bytes m) / dlit (10 ^ 12) \<le> hbm_capacity hw (stack_options h)"
proof -
  obtain t where t: "0 \<le> t" "(Fin t * dbl (kv_bytes_per_token m) + dbl (instance_a_weight_bytes m)) / dlit (10 ^ 12) \<le> hbm_capacity hw (stack_options h)"
    using point_use [of m hw P h] assms(1) by auto
  let ?w = "rat_of_int (instance_a_weight_bytes m)"
  have k: "dbl (kv_bytes_per_token m) = Fin (of_int (kv_bytes_per_token m))" "dbl (instance_a_weight_bytes m) = Fin ?w"
    using assms by (simp_all add: dbl_exact)
  have T: "dlit (10 ^ 12) = Fin (10 ^ 12)" by code_simp
  have "Fin 0 \<le> Fin t * dbl (kv_bytes_per_token m)" unfolding k using assms(2) t(1) by (intro dmul_nonneg) (simp_all add: dbl_simps)
  then have "Fin 0 + Fin ?w \<le> Fin t * dbl (kv_bytes_per_token m) + Fin ?w" by (rule dadd_mono)
  moreover have "Fin 0 + Fin ?w = Fin ?w"
    using assms(4,5) by (simp add: dbl_simps dbl_def [symmetric] dbl_exact)
  ultimately have "Fin ?w / Fin (10 ^ 12) \<le> (Fin t * dbl (kv_bytes_per_token m) + Fin ?w) / Fin (10 ^ 12)"
    by (intro ddiv_mono) simp_all
  then show ?thesis using t(2) unfolding k T by (rule dle_trans)
qed

lemma empty_fits:
  assumes "kv_bytes_per_token m = 0" and "instance_a_weight_bytes m = 0" and "Fin 0 \<le> hbm_capacity hw (stack_options h)"
  shows "hbm_fits (derive_operating_point m hw P (stack_options h))"
proof -
  have "dlit (10 ^ 12) = Fin (10 ^ 12)" by code_simp
  then show ?thesis using point_use [of m hw P h] assms by (auto simp: dbl_simps)
qed

section \<open>Properties\<close>

text \<open>C40: The sweep reports the last step before the first one that does not fit: there is a step, at
  most the 4000th, before which every tried model fits, which itself does not fit (unless it
  is the bound), and the reported dimensions and figures are those of the last model tried
  before it; with no such model nothing is reported.\<close>
theorem sweep_boundary_last_fit:
  assumes "0 \<le> layers0"
  shows "\<exists>k \<le> 4000. (\<forall>j < k. sweep_skips mode layers0 hidden0 (int j)
        \<or> hbm_fits (sweep_point hw prefill stack mode layers0 hidden0 (int j)))
    \<and> (k = 4000 \<or> (\<not> sweep_skips mode layers0 hidden0 (int k)
        \<and> \<not> hbm_fits (sweep_point hw prefill stack mode layers0 hidden0 (int k))))
    \<and> (case sweep_boundary hw prefill stack mode layers0 hidden0 of
         None \<Rightarrow> \<forall>j < k. sweep_skips mode layers0 hidden0 (int j)
       | Some (best, params) \<Rightarrow>
           \<exists>j < k. \<not> sweep_skips mode layers0 hidden0 (int j) \<and> (\<forall>i. j < i \<and> i < k \<longrightarrow> sweep_skips mode layers0 hidden0 (int i))
             \<and> best = sweep_record (sweep_dims mode layers0 hidden0 (int j)) (sweep_point hw prefill stack mode layers0 hidden0 (int j))
             \<and> params = approx_params_B (sb_L best) (sb_h best))"
proof -
  let ?run = "sweep_loop 4000 hw prefill stack mode layers0 hidden0 0 sweep_none"
  let ?sk = "\<lambda>j. sweep_skips mode layers0 hidden0 (int j)"
  let ?rc = "\<lambda>j. sweep_record (sweep_dims mode layers0 hidden0 (int j)) (sweep_point hw prefill stack mode layers0 hidden0 (int j))"
  obtain k where k: "k \<le> 4000" "\<forall>j < k. ?sk j \<or> hbm_fits (sweep_point hw prefill stack mode layers0 hidden0 (int j))"
    "k = 4000 \<or> (\<not> ?sk k \<and> \<not> hbm_fits (sweep_point hw prefill stack mode layers0 hidden0 (int k)))"
    "if \<forall>j < k. ?sk j then ?run = sweep_none
     else \<exists>j < k. \<not> ?sk j \<and> (\<forall>i. j < i \<and> i < k \<longrightarrow> ?sk i) \<and> ?run = ?rc j"
    using sweep_loop_last [of 4000 mode layers0 hidden0 0 hw prefill stack sweep_none] unfolding add_0 by blast
  have pos: "0 \<le> sb_L (?rc j)" for j using assms by (simp add: sweep_record_def sweep_dims_def)
  have res: "case sweep_boundary hw prefill stack mode layers0 hidden0 of None \<Rightarrow> \<forall>j < k. ?sk j
    | Some (best, params) \<Rightarrow> \<exists>j < k. \<not> ?sk j \<and> (\<forall>i. j < i \<and> i < k \<longrightarrow> ?sk i) \<and> best = ?rc j
        \<and> params = approx_params_B (sb_L best) (sb_h best)"
  proof (cases "\<forall>j < k. ?sk j")
    case True
    then have "?run = sweep_none" using k(4) by simp
    then have "sweep_boundary hw prefill stack mode layers0 hidden0 = None"
      by (simp add: sweep_boundary_def Let_def sweep_none_def)
    then show ?thesis using True by simp
  next
    case False
    with k(4) obtain j where j: "j < k" "\<not> ?sk j" "\<forall>i. j < i \<and> i < k \<longrightarrow> ?sk i" "?run = ?rc j" by auto
    then have "sweep_boundary hw prefill stack mode layers0 hidden0 = Some (?rc j, approx_params_B (sb_L (?rc j)) (sb_h (?rc j)))"
      using pos [of j] by (simp add: sweep_boundary_def Let_def)
    then show ?thesis using j by auto
  qed
  show ?thesis by (rule exI [of _ k]) (use k(1,2,3) res in blast)
qed

text \<open>One layer of a model of hidden size \<open>2 ^ 20\<close> is too large for the HBM: its weights are 4.4 TB.\<close>

theorem sweep_boundary_last_fit_witness:
  "(\<exists>best. sweep_boundary b200 128 16 0 0 1048576 = Some (best, approx_params_B 0 1048576) \<and> sb_L best = 0 \<and> sb_h best = 1048576
      \<and> sb_cap best = dlit (4096 / 1000))
   \<and> sweep_boundary b200 128 16 0 1 1048576 = None"
proof -
  have skip: "sweep_skips 0 l h j = False" for l h j by (simp add: sweep_skips_def)
  have p: "sweep_point b200 128 16 0 l 1048576 j = derive_operating_point (dense_model (l + j) 1048576) b200 128 (stack_options 16)" for l j
    by (simp add: sweep_point_def sweep_dims_def)
  have z: "kv_bytes_per_token (dense_model 0 1048576) = 0 \<and> instance_a_weight_bytes (dense_model 0 1048576) = 0
    \<and> Fin 0 \<le> hbm_capacity b200 (stack_options 16)" by code_simp
  have fits: "hbm_fits (sweep_point b200 128 16 0 0 1048576 (int 0))"
    unfolding p using empty_fits z by simp
  have w: "0 < kv_bytes_per_token (dense_model 1 1048576) \<and> kv_bytes_per_token (dense_model 1 1048576) \<le> 2 ^ 53
    \<and> 0 \<le> instance_a_weight_bytes (dense_model 1 1048576) \<and> instance_a_weight_bytes (dense_model 1 1048576) \<le> 2 ^ 53
    \<and> \<not> dbl (instance_a_weight_bytes (dense_model 1 1048576)) / dlit (10 ^ 12) \<le> hbm_capacity b200 (stack_options 16)" by code_simp
  then have one: "\<not> hbm_fits (derive_operating_point (dense_model 1 1048576) b200 128 (stack_options 16))"
    using fits_weights [of "dense_model 1 1048576" b200 128 16] by blast
  have cap: "hbm_capacity_tb (sweep_point b200 128 16 0 0 1048576 0) = dlit (4096 / 1000)"
    using hbm_capacity_deployment [of default_options] by (simp add: p point_use derive_operating_point_def Let_def stack_options_def)
  obtain k where k: "\<forall>j < k. hbm_fits (sweep_point b200 128 16 0 0 1048576 (int j))"
    "k = 4000 \<or> \<not> hbm_fits (sweep_point b200 128 16 0 0 1048576 (int k))"
    "case sweep_boundary b200 128 16 0 0 1048576 of None \<Rightarrow> \<forall>j. \<not> j < k
     | Some (best, params) \<Rightarrow> \<exists>j < k. (\<forall>i. \<not> (j < i \<and> i < k))
         \<and> best = sweep_record (sweep_dims 0 0 1048576 (int j)) (sweep_point b200 128 16 0 0 1048576 (int j))
         \<and> params = approx_params_B (sb_L best) (sb_h best)"
    using sweep_boundary_last_fit [of 0 0 1048576 b200 128 16, unfolded skip simp_thms] by blast
  have "\<not> 1 < k" using k(1) one p [of 0 1] by (metis add_0 of_nat_1)
  moreover have "k \<noteq> 0" using k(2) fits by (metis zero_neq_numeral)
  ultimately have "k = 1" by simp
  then have a: "\<exists>best. sweep_boundary b200 128 16 0 0 1048576 = Some (best, approx_params_B 0 1048576) \<and> sb_L best = 0 \<and> sb_h best = 1048576
      \<and> sb_cap best = dlit (4096 / 1000)"
    using k(3) cap by (auto simp: sweep_record_def sweep_dims_def split: option.splits)
  obtain k where k: "\<forall>j < k. hbm_fits (sweep_point b200 128 16 0 1 1048576 (int j))"
    "case sweep_boundary b200 128 16 0 1 1048576 of None \<Rightarrow> \<forall>j. \<not> j < k
     | Some (best, params) \<Rightarrow> \<exists>j < k. (\<forall>i. \<not> (j < i \<and> i < k))
         \<and> best = sweep_record (sweep_dims 0 1 1048576 (int j)) (sweep_point b200 128 16 0 1 1048576 (int j))
         \<and> params = approx_params_B (sb_L best) (sb_h best)"
    using sweep_boundary_last_fit [OF zero_le_one, of 0 1048576 b200 128 16, unfolded skip simp_thms] by blast
  have "k = 0" using k(1) one p [of 1 0] by (metis add_0_right gr0I of_nat_0)
  then have "sweep_boundary b200 128 16 0 1 1048576 = None" using k(2)
    by (cases "sweep_boundary b200 128 16 0 1 1048576") (simp_all add: split_beta)
  with a show ?thesis by blast
qed

end
