(* ===== verification/Spec2Isabelle.thy ===== *)
theory Spec2Isabelle
  imports Derive Runtime Global_Scheduler Preposition Csched_Service Baseline_Props Prepo_Props
    Lifecycle_Props Sim_Main Max_Model
begin

text \<open>
  A verification library for the C++ engine of PULS, the scheduler of an LLM serving cluster
  (\<open>puls-engine/\<close>).

  \<^bold>\<open>The program.\<close> A cluster runs attention in memory (PIM) beside GPUs. From the model, the
  hardware and the prefill knob the engine derives an operating point at which the three
  resources take equal time (\<open>core/derive\<close> over \<open>core/optime\<close>), and then keeps every node at
  it: steering composes the batches of a round from the resident decoders (\<open>core/steering\<close>),
  the node scheduler advances, retires and refills its pool from a source of requests
  (\<open>core/node_scheduler\<close>), the global scheduler sheds what is too long and distributes the
  rest (\<open>core/global_scheduler\<close>). Serving takes requests from a queue (\<open>runtime\<close>); the
  simulations take them from an assumed workload (\<open>core/workload\<close>, \<open>sim/workload_mt\<close>) through a
  cluster queue and a three-tier cache (\<open>scheduler\<close>), and measure (\<open>sim/metrics.h\<close>, \<open>sim/kpi.h\<close>).
  Three drivers simulate a cluster of conversations (\<open>sim/baseline.cpp\<close>, \<open>sim/prepo.cpp\<close>,
  \<open>sim/csched.cpp\<close>), two the core alone (\<open>sim/sim.cpp\<close>, \<open>sim/lifecycle.cpp\<close>); two tools tabulate
  operating points (\<open>analysis\<close>).

  \<^bold>\<open>The theories.\<close>
  \<^item> Prelude: the selection loops as folds, the locale of the comparisons they need, sums.
  \<^item> Cxx_Double: IEEE binary64 with rounding to nearest even as rationals with infinities and
    NaN; conversions of C++; monotonicity and exactness lemmas; evaluation.
  \<^item> Spec_Model: \<open>core/spec.h\<close> and \<open>core/operating_point.h\<close>.
  \<^item> Optime, Derive: the operation times and the two nested bisections.
  \<^item> Steering: \<open>core/steering.cpp\<close>. Request_Source: the interface \<open>core/request_source.h\<close> as the
    locales \<open>request_source\<close> and \<open>stocked_source\<close>.
  \<^item> Node_Scheduler, Runtime: the pool of a node over any source; the queue of the runtime
    interprets \<open>stocked_source\<close>, so conservation and progress hold of the runtime.
  \<^item> Global_Scheduler: gate, cold start, healing, on-point check.
  \<^item> Global_Queue, Cluster_Cache, Preposition: \<open>scheduler/\<close>.
  \<^item> Workload, Workload_MT: the workloads; the first interprets \<open>request_source\<close>.
  \<^item> Harness, Metrics: \<open>sim/harness.h\<close>, \<open>sim/metrics.h\<close>, \<open>sim/kpi.h\<close>.
  \<^item> Conversation: the abstract cluster, an inductive transition system over where each
    conversation is, the locale \<open>slot_queue\<close> of what the drivers rely on when they fill a slot,
    interpreted by both pulls of the cluster queue, and what the drivers share.
  \<^item> Driver_Base: what the lemmas on the drivers share, the command line, the library of the
    witnesses. Csched: the driver \<open>sim/csched.cpp\<close>. Csched_Correct, Csched_Round: its steps keep
    the state well formed and refine the abstract cluster. Csched_Props, Csched_Service: its
    properties.
  \<^item> Sim_Core: the state and the steps that the baseline and the pre-positioning driver have in
    common. Baseline, Prepo: the drivers, with their _Correct and _Props theories.
  \<^item> Lifecycle: \<open>sim/lifecycle.cpp\<close>, prefill and decode of a node with the transition between
    them; Lifecycle_Correct relates its decode side to Node_Scheduler and has the invariant,
    Lifecycle_Props the properties. Sim_Main: \<open>sim/sim.cpp\<close>, cold start and churn.
  \<^item> Efficiency, Max_Model: \<open>analysis/efficiency.cpp\<close>, \<open>analysis/max_model.cpp\<close>.

  \<^bold>\<open>How the state corresponds.\<close> A class is a record of its fields and a method a function from
  the record to the result and the record after. A vector is a list, an index of -1 is
  \<open>None\<close>. A C++ integer is an \<open>int\<close>: signed overflow is undefined in C++. The bounds lemmas
  show that the values of the derivation and the pools do not reach it; the length of a
  conversation grows with every turn, and only for the baseline a lemma bounds it over a run
  (\<open>base_run_ok\<close>), while in \<open>csched.cpp\<close> and \<open>prepo.cpp\<close> it is taken to fit an \<open>int\<close>. A narrowing
  conversion wraps explicitly (\<open>narrow32\<close>). A \<open>double\<close> is rounded after every operation. A conversion that C++ leaves
  undefined is \<open>undefined\<close> here. What the implementation of the standard library decides is a
  parameter: the random engine and distributions, \<open>exp\<close>, \<open>log\<close> and \<open>shuffle\<close> in the record
  \<open>Lib\<close>, the iteration order of an \<open>unordered_map\<close> in the order of an association list.

  \<^bold>\<open>Loops.\<close> The selection loops are folds. The composing loops are functions whose count towards
  the batch size decreases; the bisections carry the iteration counts of the source (200, and
  24 for the widening), and the lemmas of Derive show that 200 halvings reach the resolution
  of the doubles. The drawing loop of the multi-turn workload may run forever and is a partial
  function with a lemma on when it returns; the drivers that use it give options, and
  theorems show that they return when some draw is below the cutoff. The loops over rounds
  count the rounds of the source; a loop that fills a pool counts the free places, as each
  iteration takes one.

  \<^bold>\<open>What the lemmas show.\<close> Steering selects distinct unused decoders, the aged ones first and the
  oldest among these, and otherwise the nearest to the ideal; a batch is never cut short; the
  prefill work is its closed form. No decoder starves: its wait is below the age cap plus the
  pool size, while the age cap alone is no bound. A runtime conserves its requests and drains.
  The derived operating point is in range for every input and balanced up to the resolution of
  the search. The gate, the cold start and healing respect their caps. The cache's accounts are
  the sums over its index and within budget, which enforcement restores from the oldest
  entry. The global age cap bounds the waiting in the cluster queue. The reported counters
  partition what was recorded. The rounds of the three cluster drivers are steps of the
  abstract cluster: no conversation is lost or doubled, and over a run the ids present and ended
  are those handed out. A completion leaves the one entry that the next lookup finds. The
  baseline never hits and prices its reloads too low, the composer
  of the pre-positioning driver recomputes its share, lines are served first and bounded. In
  the lifecycle the two prefill batches share no request, the classes admitted are those
  finished or resident, and with nothing ready its decode side is the node scheduler's round.
  Churn keeps every node within its caps; the efficiency figures are in their ranges; the
  sweep reports the last model that fits.

  \<^bold>\<open>Not modelled.\<close> Printing, of which only the values are modelled; the parsing of the
  arguments (\<open>atoi\<close>, \<open>atof\<close>), whose results are given; the tests under \<open>validation\<close>;
  \<open>runtime/main_runtime.cpp\<close>, which calls the demonstration; the RTL of the attention core under
  \<open>rtl/\<close>, which the engine does not use.
\<close>

end
